(* ===== verification/Prelude.thy ===== *)
theory Prelude
  imports Main "HOL-Library.Word"
begin

text \<open>
  What the components share: the machine types, the faults a dereference can raise, the
  result type of operations that can raise one, linked chains of pointers, and generic
  facts about lists and sequencing.
\<close>

section \<open>Machine types and faults\<close>

type_synonym u8 = "8 word"
type_synonym u32 = "32 word"
type_synonym u64 = "64 word"

text \<open>
  A fault is what the C code would do instead of returning: \<open>NullDeref\<close> follows a null
  pointer, \<open>BadUnion\<close> reads the member of a union that was not written last, \<open>ListCorrupt\<close>
  unlinks the list head, \<open>UseAfterFree\<close> and \<open>OutOfBounds\<close> touch memory that is not the
  object's, \<open>Bug\<close> is a failed \<open>BUG_ON\<close>.
\<close>

datatype fault = NullDeref | BadUnion | ListCorrupt | UseAfterFree | OutOfBounds | Bug

type_synonym 'a result = "fault + 'a"

named_theorems result_simps "sequencing of operations that can raise a fault"

definition bind_result :: "'a result \<Rightarrow> ('a \<Rightarrow> 'b result) \<Rightarrow> 'b result" where
  "bind_result m f = (case m of Inl e \<Rightarrow> Inl e | Inr x \<Rightarrow> f x)"

lemma bind_result_simps [simp, result_simps]:
  "bind_result (Inl e) f = Inl e"
  "bind_result (Inr x) f = f x"
  by (simp_all add: bind_result_def)

lemma bind_result_Inr [result_simps]:
  "bind_result m f = Inr y \<longleftrightarrow> (\<exists>x. m = Inr x \<and> f x = Inr y)"
  by (cases m) (auto simp: bind_result_def)

section \<open>Chains of pointers\<close>

text \<open>
  \<open>chain nxt h ps\<close>: following \<open>nxt\<close> from the pointer \<open>h\<close> visits exactly the objects
  \<open>ps\<close> and ends in the null pointer. \<open>nxt p\<close> is \<open>None\<close> where the object at \<open>p\<close> holds
  no link.
\<close>

primrec chain :: "('p \<Rightarrow> 'p option option) \<Rightarrow> 'p option \<Rightarrow> 'p list \<Rightarrow> bool" where
  "chain nxt h [] \<longleftrightarrow> h = None"
| "chain nxt h (p # ps) \<longleftrightarrow> h = Some p \<and> (\<exists>n. nxt p = Some n \<and> chain nxt n ps)"

lemma chain_None [simp]: "chain nxt None ps \<longleftrightarrow> ps = []"
  by (cases ps) auto

lemma chain_cong:
  "(\<And>p. p \<in> set ps \<Longrightarrow> nxt' p = nxt p) \<Longrightarrow> chain nxt' h ps = chain nxt h ps"
  by (induction ps arbitrary: h) auto

text \<open>Changing one object leaves the chains that do not visit it alone.\<close>

lemma chain_other:
  assumes "p \<notin> set ps" and "\<And>q. q \<noteq> p \<Longrightarrow> nxt' q = nxt q"
  shows "chain nxt' h ps = chain nxt h ps"
proof (rule chain_cong)
  fix q assume "q \<in> set ps"
  with assms show "nxt' q = nxt q" by (cases "q = p") auto
qed

lemma chain_unique: "chain nxt h ps \<Longrightarrow> chain nxt h qs \<Longrightarrow> qs = ps"
proof (induction ps arbitrary: h qs)
  case Nil
  then show ?case by simp
next
  case (Cons p ps)
  then show ?case by (cases qs) auto
qed

section \<open>Lists\<close>

lemma sorted_wrt_remove1: "sorted_wrt P xs \<Longrightarrow> sorted_wrt P (remove1 x xs)"
  by (induction xs) (auto dest: notin_set_remove1)

lemma distinct_set_remove1 [simp]: "distinct xs \<Longrightarrow> set (remove1 x xs) = set xs - {x}"
  by (induction xs) auto

lemma map_cong_upd [simp]: "x \<notin> set xs \<Longrightarrow> map (f(x := y)) xs = map f xs"
  by (induction xs) auto

lemma Ball_upd_notin [simp]:
  "x \<notin> A \<Longrightarrow> (\<forall>a\<in>A. P ((f(x := y)) a)) \<longleftrightarrow> (\<forall>a\<in>A. P (f a))"
  by auto

lemma filter_single: "distinct xs \<Longrightarrow> q \<in> set xs \<Longrightarrow> (\<And>y. y \<in> set xs \<Longrightarrow> P y \<longleftrightarrow> y = q) \<Longrightarrow> filter P xs = [q]"
  by (induction xs) (auto simp: filter_empty_conv)

lemma filter_prefix: "distinct (xs @ ys) \<Longrightarrow> filter (\<lambda>b. b \<notin> set xs) (xs @ ys) = ys"
  by (auto simp: filter_id_conv filter_empty_conv)

lemma split_held:
  assumes "list_all2 P held gs" and "x \<in> set held"
  obtains held1 held2 gs1 g gs2 where "held = held1 @ x # held2" "x \<notin> set held1" "gs = gs1 @ g # gs2"
    "list_all2 P held1 gs1" "P x g" "list_all2 P held2 gs2"
proof -
  from split_list_first [OF assms(2)] obtain h1 h2 where h: "held = h1 @ x # h2" "x \<notin> set h1" by blast
  with assms(1) obtain gs1 g gs2 where "gs = gs1 @ g # gs2" "list_all2 P h1 gs1" "P x g" "list_all2 P h2 gs2"
    by (auto simp: list_all2_append1 list_all2_Cons1)
  with h that show ?thesis by blast
qed

end
