(* ===== verification/Free_Pool.thy ===== *)
theory Free_Pool
  imports Prelude
begin

text \<open>
  The interface of the two object pools of the page log (\<open>lp_pool\<close> and \<open>st_pool\<close> of
  huawei_log_page.c): a fixed array of objects, threaded on a singly linked list of the free
  ones. A client sees the free list as a list of pointers. What the clients rely on, that
  every object is either free or handed out and never handed out twice, is proved here once.
\<close>

section \<open>Sequences of pool calls\<close>

datatype 'p pool_call = Alloc | Release 'p

text \<open>
  Running a sequence of calls, with the objects handed out so far. A client releases only
  what it holds: a call that would release something else is skipped.
\<close>

fun pool_run :: "('s \<Rightarrow> ('p \<times> 's) result) \<Rightarrow> ('p \<Rightarrow> 's \<Rightarrow> 's) \<Rightarrow> 'p pool_call list \<Rightarrow>
    'p list \<Rightarrow> 's \<Rightarrow> ('p list \<times> 's) result" where
  "pool_run alloc rel [] out s = Inr (out, s)"
| "pool_run alloc rel (Alloc # cs) out s =
     bind_result (alloc s) (\<lambda>(p, s'). pool_run alloc rel cs (p # out) s')"
| "pool_run alloc rel (Release p # cs) out s =
     (if p \<in> set out then pool_run alloc rel cs (remove1 p out) (rel p s)
      else pool_run alloc rel cs out s)"

section \<open>The interface\<close>

locale free_pool =
  fixes alloc :: "'s \<Rightarrow> ('p \<times> 's) result"
    and rel :: "'p \<Rightarrow> 's \<Rightarrow> 's"
    and frees :: "'s \<Rightarrow> 'p list \<Rightarrow> bool"
    and slots :: "'s \<Rightarrow> 'p set"
  assumes frees_unique: "frees s ps \<Longrightarrow> frees s qs \<Longrightarrow> qs = ps"
    and frees_slots: "frees s ps \<Longrightarrow> set ps \<subseteq> slots s"
    and frees_distinct: "frees s ps \<Longrightarrow> distinct ps"
    and slots_finite: "finite (slots s)"
    and alloc_Nil: "frees s [] \<Longrightarrow> alloc s = Inl NullDeref"
    and alloc_Cons: "frees s (p # ps) \<Longrightarrow>
      \<exists>s'. alloc s = Inr (p, s') \<and> frees s' ps \<and> slots s' = slots s"
    and rel_frees: "frees s ps \<Longrightarrow> p \<in> slots s \<Longrightarrow> p \<notin> set ps \<Longrightarrow> frees (rel p s) (p # ps)"
    and rel_slots: "slots (rel p s) = slots s"
begin

text \<open>The pool is consistent with the objects \<open>out\<close> held by its clients.\<close>

definition accounted :: "'p list \<Rightarrow> 's \<Rightarrow> bool" where
  "accounted out s \<longleftrightarrow> (\<exists>ps. frees s ps \<and> distinct (out @ ps) \<and> set (out @ ps) = slots s)"

lemma accountedI:
  "frees s ps \<Longrightarrow> distinct (out @ ps) \<Longrightarrow> set (out @ ps) = slots s \<Longrightarrow> accounted out s"
  by (auto simp: accounted_def)

lemma accounted_distinct: "accounted out s \<Longrightarrow> distinct out"
  by (auto simp: accounted_def)

lemma accounted_slots: "accounted out s \<Longrightarrow> set out \<subseteq> slots s"
  by (auto simp: accounted_def)

text \<open>Only which objects are out matters, not their order.\<close>

lemma accounted_cong:
  "accounted out s \<Longrightarrow> distinct out' \<Longrightarrow> set out' = set out \<Longrightarrow> accounted out' s"
  unfolding accounted_def by (metis distinct_append set_append)

lemma alloc_fails_iff: "accounted out s \<Longrightarrow> alloc s = Inl NullDeref \<longleftrightarrow> set out = slots s"
proof -
  assume "accounted out s"
  then obtain ps where ps: "frees s ps" "distinct (out @ ps)" "set (out @ ps) = slots s"
    by (auto simp: accounted_def)
  show ?thesis
  proof (cases ps)
    case Nil
    with ps show ?thesis by (simp add: alloc_Nil)
  next
    case (Cons p qs)
    with ps alloc_Cons [of s p qs] have "alloc s \<noteq> Inl NullDeref" by auto
    moreover from Cons ps have "p \<in> slots s" "p \<notin> set out" by auto
    ultimately show ?thesis by blast
  qed
qed

lemma alloc_accounted:
  assumes "accounted out s" and "set out \<noteq> slots s"
  shows "\<exists>p s'. alloc s = Inr (p, s') \<and> p \<notin> set out \<and> p \<in> slots s \<and> slots s' = slots s \<and>
    accounted (p # out) s'"
proof -
  from assms obtain ps where ps: "frees s ps" "distinct (out @ ps)" "set (out @ ps) = slots s"
    by (auto simp: accounted_def)
  with assms(2) obtain p qs where "ps = p # qs" by (cases ps) auto
  with ps alloc_Cons [of s p qs] obtain s' where
    "alloc s = Inr (p, s')" "frees s' qs" "slots s' = slots s" by auto
  with ps \<open>ps = p # qs\<close> show ?thesis by (intro exI [of _ p] exI [of _ s']) (auto intro!: accountedI)
qed

lemma rel_accounted:
  assumes "accounted out s" and "p \<in> set out"
  shows "accounted (remove1 p out) (rel p s)"
proof -
  from assms obtain ps where ps: "frees s ps" "distinct (out @ ps)" "set (out @ ps) = slots s"
    by (auto simp: accounted_def)
  with assms(2) have "frees (rel p s) (p # ps)" by (intro rel_frees) auto
  with ps assms(2) show ?thesis by (intro accountedI) (auto simp: rel_slots)
qed

text \<open>Initialisation releases every object of the array in turn.\<close>

lemma fold_rel_frees:
  "frees s qs \<Longrightarrow> distinct (ps @ qs) \<Longrightarrow> set ps \<subseteq> slots s \<Longrightarrow>
    frees (fold rel ps s) (rev ps @ qs) \<and> slots (fold rel ps s) = slots s"
proof (induction ps arbitrary: s qs)
  case (Cons p ps)
  then have "frees (rel p s) (p # qs)" by (intro rel_frees) auto
  with Cons.IH [of "rel p s" "p # qs"] Cons.prems show ?case by (simp add: rel_slots)
qed simp

lemma init_accounted:
  "frees s [] \<Longrightarrow> distinct ps \<Longrightarrow> set ps = slots s \<Longrightarrow>
    accounted [] (fold rel ps s) \<and> slots (fold rel ps s) = slots s"
  using fold_rel_frees [of s "[]" ps] by (auto intro!: accountedI)

text \<open>The list is last in, first out: an object released is the next one handed out.\<close>

lemma alloc_after_rel:
  assumes "accounted out s" and "p \<in> set out"
  shows "\<exists>s'. alloc (rel p s) = Inr (p, s') \<and> accounted out s'"
proof -
  from assms obtain ps where ps: "frees s ps" "distinct (out @ ps)" "set (out @ ps) = slots s"
    by (auto simp: accounted_def)
  with assms(2) have "frees (rel p s) (p # ps)" by (intro rel_frees) auto
  from alloc_Cons [OF this] ps show ?thesis by (auto simp: rel_slots intro!: accountedI)
qed

text \<open>No sequence of calls loses an object, and none faults before the pool is used up.\<close>

lemma pool_run_accounted:
  "accounted out s \<Longrightarrow> pool_run alloc rel cs out s = Inr (out', s') \<Longrightarrow>
    accounted out' s' \<and> slots s' = slots s"
proof (induction cs arbitrary: out s)
  case Nil
  then show ?case by simp
next
  case (Cons c cs)
  show ?case
  proof (cases c)
    case Alloc
    with Cons.prems have "alloc s \<noteq> Inl NullDeref" by auto
    with Cons.prems(1) have "set out \<noteq> slots s" by (simp add: alloc_fails_iff)
    from alloc_accounted [OF Cons.prems(1) this] Cons.prems(2) Alloc Cons.IH
    show ?thesis by fastforce
  next
    case (Release p)
    with Cons.IH [of "remove1 p out" "rel p s"] Cons.IH [of out s] Cons.prems show ?thesis
      by (auto simp: rel_accounted rel_slots split: if_splits)
  qed
qed

lemma pool_run_succeeds:
  "accounted out s \<Longrightarrow> length out + length (filter (\<lambda>c. c = Alloc) cs) \<le> card (slots s) \<Longrightarrow>
    \<exists>r. pool_run alloc rel cs out s = Inr r"
proof (induction cs arbitrary: out s)
  case Nil
  then show ?case by simp
next
  case (Cons c cs)
  show ?case
  proof (cases c)
    case Alloc
    have "distinct out" using Cons.prems(1) by (auto simp: accounted_def)
    then have "card (set out) = length out" by (rule distinct_card)
    with Cons.prems(2) Alloc have "set out \<noteq> slots s" by auto
    from alloc_accounted [OF Cons.prems(1) this] obtain p t where
      "alloc s = Inr (p, t)" "slots t = slots s" "accounted (p # out) t" by auto
    with Cons.IH [of "p # out" t] Cons.prems(2) Alloc show ?thesis by simp
  next
    case (Release p)
    then show ?thesis
      using Cons.IH [of "remove1 p out" "rel p s"] Cons.IH [of out s] Cons.prems
      by (auto simp: rel_accounted rel_slots length_remove1)
  qed
qed

end

end
