(* ===== verification/Lp_Pool.thy ===== *)
theory Lp_Pool
  imports Free_Pool
begin

text \<open>
  The records of the page log (\<open>struct log_page_struct\<close>) and the pool they are taken from,
  mem_leak/kerspace/huawei_log_page.c. A pointer to a record is its index in the array
  \<open>lp_pool.pool\<close>; the null pointer is \<open>None\<close>. A \<open>struct page *\<close> is the position of the
  page in the memory map, counted in pages, so that pointer arithmetic is addition.
\<close>

section \<open>The number of page frames\<close>

record zone =
  spanned_pages :: u64

record pglist_data =
  node_start_pfn :: u64
  node_zones :: "zone list"

text \<open>The loop over the frames of one zone: \<open>pfn_valid\<close> is the kernel's.\<close>

function count_pfns :: "(u64 \<Rightarrow> bool) \<Rightarrow> u64 \<Rightarrow> u64 \<Rightarrow> u64 \<Rightarrow> u64" where
  "count_pfns pfn_valid pfn end_pfn nr_pages =
     (if pfn < end_pfn
      then count_pfns pfn_valid (pfn + 1) end_pfn
             (if \<not> pfn_valid pfn then nr_pages else nr_pages + 1)
      else nr_pages)"
  by pat_completeness auto

termination
proof (relation "measure (\<lambda>(v, pfn, e, n). unat (e - pfn))", goal_cases)
  case (2 v pfn e n)
  then have "e - pfn \<noteq> 0" by auto
  then have "unat (e - pfn - 1) < unat (e - pfn)" by (simp add: unat_minus_one unat_gt_0)
  then show ?case by (simp add: algebra_simps)
qed simp

declare count_pfns.simps [simp del]

fun count_zones :: "(u64 \<Rightarrow> bool) \<Rightarrow> zone list \<Rightarrow> u64 \<Rightarrow> u64 \<Rightarrow> u64" where
  "count_zones pfn_valid [] zone_start_pfn nr_pages = nr_pages"
| "count_zones pfn_valid (zone # zones) zone_start_pfn nr_pages =
     (let size = spanned_pages zone;
          start_pfn = zone_start_pfn;
          end_pfn = start_pfn + size
      in count_zones pfn_valid zones (zone_start_pfn + size)
           (count_pfns pfn_valid start_pfn end_pfn nr_pages))"

fun count_nodes :: "(u64 \<Rightarrow> bool) \<Rightarrow> pglist_data list \<Rightarrow> u64 \<Rightarrow> u64" where
  "count_nodes pfn_valid [] nr_pages = nr_pages"
| "count_nodes pfn_valid (pgdat # nodes) nr_pages =
     count_nodes pfn_valid nodes
       (count_zones pfn_valid (node_zones pgdat) (node_start_pfn pgdat) nr_pages)"

definition get_nr_pages :: "(u64 \<Rightarrow> bool) \<Rightarrow> pglist_data list \<Rightarrow> u64" where
  "get_nr_pages pfn_valid online_nodes = count_nodes pfn_valid online_nodes 0"

section \<open>The records\<close>

type_synonym lp_ptr = nat
type_synonym page_ptr = int

record lp_module_info_struct =
  mod_ptr :: u64
  mod_name :: string

text \<open>
  The union of \<open>next\<close> (a free record) and \<open>order\<close> (a record in use). The zero bytes that
  \<open>memset\<close> leaves are \<open>Order 0\<close>.
\<close>

datatype lp_union = Next "lp_ptr option" | Order u32

abbreviation (input) LOG_PAGE_TRACE_LEVEL :: nat where "LOG_PAGE_TRACE_LEVEL \<equiv> 26"
abbreviation (input) LOG_MODULE_MAX_NUM :: nat where "LOG_MODULE_MAX_NUM \<equiv> 4"

record log_page_struct =
  lp_u :: lp_union
  start_page :: page_ptr
  end_page :: page_ptr
  entries :: "u64 list"
  lp_module_info :: "lp_module_info_struct list"

definition no_module :: lp_module_info_struct where
  "no_module = \<lparr>mod_ptr = 0, mod_name = ''''\<rparr>"

definition zero_lp :: log_page_struct where
  "zero_lp = \<lparr>lp_u = Order 0, start_page = 0, end_page = 0,
     entries = replicate LOG_PAGE_TRACE_LEVEL 0,
     lp_module_info = replicate LOG_MODULE_MAX_NUM no_module\<rparr>"

section \<open>The pool\<close>

text \<open>
  \<open>lp_at\<close> is the array, \<open>lp_area\<close> says whether \<open>lp_pool.pool\<close> points to a mapped area.
\<close>

record lp_pool_struct =
  nr_lp :: u64
  lp_area :: bool
  lp_at :: "lp_ptr \<Rightarrow> log_page_struct"
  lp_free :: "lp_ptr option"

definition u_alloc_lp :: "lp_pool_struct \<Rightarrow> (lp_ptr \<times> lp_pool_struct) result" where
  "u_alloc_lp pool =
     (case lp_free pool of
        None \<Rightarrow> Inl NullDeref
      | Some lp \<Rightarrow>
          (case lp_u (lp_at pool lp) of
             Order _ \<Rightarrow> Inl BadUnion
           | Next nxt \<Rightarrow>
               Inr (lp, pool\<lparr>lp_free := nxt, lp_at := (lp_at pool)(lp := zero_lp)\<rparr>)))"

definition alloc_lp :: "lp_pool_struct \<Rightarrow> (lp_ptr \<times> lp_pool_struct) result" where
  "alloc_lp pool = u_alloc_lp pool"

definition u_free_lp :: "lp_ptr \<Rightarrow> lp_pool_struct \<Rightarrow> lp_pool_struct" where
  "u_free_lp lp pool =
     pool\<lparr>lp_at := (lp_at pool)(lp := (lp_at pool lp)\<lparr>lp_u := Next (lp_free pool)\<rparr>),
          lp_free := Some lp\<rparr>"

definition free_lp :: "lp_ptr \<Rightarrow> lp_pool_struct \<Rightarrow> lp_pool_struct" where
  "free_lp lp pool = u_free_lp lp pool"

text \<open>
  \<open>vmalloc\<close> is the kernel's: given the size it answers \<open>None\<close> (NULL) or the arbitrary
  contents of the fresh area. \<open>sizeof_lp\<close> is the size of the record on x86_64.
\<close>

definition sizeof_lp :: u64 where
  "sizeof_lp = 512"

definition init_lp_pool ::
  "(u64 \<Rightarrow> bool) \<Rightarrow> pglist_data list \<Rightarrow> (u64 \<Rightarrow> (lp_ptr \<Rightarrow> log_page_struct) option) \<Rightarrow>
    lp_pool_struct \<Rightarrow> int \<times> lp_pool_struct"
where
  "init_lp_pool pfn_valid online_nodes vmalloc pool =
     (let nr_pages = get_nr_pages pfn_valid online_nodes;
          size = nr_pages * sizeof_lp
      in case vmalloc size of
           None \<Rightarrow> (-1, pool)
         | Some addr \<Rightarrow>
             (0, fold free_lp [0..<unat nr_pages]
                   (pool\<lparr>nr_lp := nr_pages, lp_area := True, lp_at := addr, lp_free := None\<rparr>)))"

definition exit_lp_pool :: "lp_pool_struct \<Rightarrow> lp_pool_struct" where
  "exit_lp_pool pool = pool\<lparr>lp_area := False\<rparr>"

section \<open>The pool is a pool\<close>

definition lp_next :: "lp_pool_struct \<Rightarrow> lp_ptr \<Rightarrow> lp_ptr option option" where
  "lp_next pool p = (case lp_u (lp_at pool p) of Next n \<Rightarrow> Some n | Order _ \<Rightarrow> None)"

definition lp_slots :: "lp_pool_struct \<Rightarrow> lp_ptr set" where
  "lp_slots pool = {..<unat (nr_lp pool)}"

definition lp_frees :: "lp_pool_struct \<Rightarrow> lp_ptr list \<Rightarrow> bool" where
  "lp_frees pool ps \<longleftrightarrow>
     chain (lp_next pool) (lp_free pool) ps \<and> distinct ps \<and> set ps \<subseteq> lp_slots pool"

lemma lp_next_other [simp]: "q \<noteq> p \<Longrightarrow> lp_next (pool\<lparr>lp_at := (lp_at pool)(p := lp), lp_free := h\<rparr>) q = lp_next pool q"
  by (simp add: lp_next_def)

lemma lp_next_cong [simp]: "lp_next (pool\<lparr>lp_free := h\<rparr>) = lp_next pool"
  by (rule ext) (simp add: lp_next_def)

lemma lp_next_Some: "lp_next pool p = Some n \<longleftrightarrow> lp_u (lp_at pool p) = Next n"
  by (simp add: lp_next_def split: lp_union.splits)

lemma lp_slots_cong [simp]:
  "lp_slots (pool\<lparr>lp_at := h, lp_free := q\<rparr>) = lp_slots pool"
  "lp_slots (pool\<lparr>lp_at := h\<rparr>) = lp_slots pool"
  by (simp_all add: lp_slots_def)

text \<open>Writing fields of a record that is not free does not disturb the free list.\<close>

lemma lp_frees_upd:
  assumes "p \<notin> set ps"
  shows "lp_frees (pool\<lparr>lp_at := (lp_at pool)(p := lp)\<rparr>) ps = lp_frees pool ps"
proof -
  have "chain (lp_next (pool\<lparr>lp_at := (lp_at pool)(p := lp)\<rparr>)) h ps = chain (lp_next pool) h ps"
    for h using assms by (rule chain_other) (simp add: lp_next_def)
  then show ?thesis by (simp add: lp_frees_def)
qed

interpretation lpp: free_pool u_alloc_lp u_free_lp lp_frees lp_slots
proof (unfold_locales, goal_cases)
  case (1 s ps qs)
  then show ?case by (auto simp: lp_frees_def dest: chain_unique)
next
  case (4 s)
  show ?case by (simp add: lp_slots_def)
next
  case (5 s)
  then show ?case by (simp add: lp_frees_def u_alloc_lp_def)
next
  case (6 s p ps)
  then obtain n where n: "lp_free s = Some p" "lp_next s p = Some n" "chain (lp_next s) n ps"
    by (auto simp: lp_frees_def)
  from 6 have "p \<notin> set ps" by (simp add: lp_frees_def)
  then have "chain (lp_next (s\<lparr>lp_free := n, lp_at := (lp_at s)(p := zero_lp)\<rparr>)) n ps =
      chain (lp_next s) n ps" by (rule chain_other) (simp add: lp_next_def)
  with n 6 show ?case
    by (auto simp: u_alloc_lp_def lp_frees_def lp_slots_def lp_next_Some)
next
  case (7 s ps p)
  from \<open>p \<notin> set ps\<close> have "chain (lp_next (u_free_lp p s)) h ps = chain (lp_next s) h ps" for h
    by (rule chain_other) (simp add: lp_next_def u_free_lp_def)
  moreover have "lp_next (u_free_lp p s) p = Some (lp_free s)"
    by (simp add: lp_next_def u_free_lp_def)
  ultimately show ?case using 7 by (auto simp: lp_frees_def lp_slots_def u_free_lp_def)
qed (auto simp: lp_frees_def u_free_lp_def lp_slots_def)

text \<open>Initialisation: every record of the area is free.\<close>

lemma free_lp_eq: "free_lp = u_free_lp"
  by (rule ext)+ (simp add: free_lp_def)

lemma init_lp_pool_accounted:
  assumes "init_lp_pool pv nodes vmalloc pool = (0, pool')"
  shows "lpp.accounted [] pool' \<and> lp_slots pool' = {..<unat (get_nr_pages pv nodes)}"
proof -
  let ?n = "get_nr_pages pv nodes"
  from assms obtain addr where pool': "pool' = fold u_free_lp [0..<unat ?n]
      (pool\<lparr>nr_lp := ?n, lp_area := True, lp_at := addr, lp_free := None\<rparr>)"
    by (auto simp: init_lp_pool_def free_lp_eq Let_def split: option.splits)
  have "lp_frees (pool\<lparr>nr_lp := ?n, lp_area := True, lp_at := addr, lp_free := None\<rparr>) []"
    by (simp add: lp_frees_def)
  from lpp.init_accounted [OF this, of "[0..<unat ?n]"] show ?thesis
    by (simp add: pool' lp_slots_def atLeast0LessThan)
qed

section \<open>The number of records is the number of frames\<close>

text \<open>One zone: the valid frames of the half-open range, by computation induction.\<close>

lemma count_pfns_card:
  "count_pfns v pfn e n = n + of_nat (card {x. pfn \<le> x \<and> x < e \<and> v x})"
proof (induction v pfn e n rule: count_pfns.induct)
  case (1 v pfn e n)
  show ?case
  proof (cases "pfn < e")
    case False
    then have "{x. pfn \<le> x \<and> x < e \<and> v x} = {}" by auto
    with False show ?thesis by (subst count_pfns.simps) (simp only: card.empty, simp)
  next
    case True
    then have "pfn \<noteq> - 1" using word_order.extremum_strict by blast
    then have "pfn + 1 \<le> x \<longleftrightarrow> pfn < x" for x by (simp add: inc_less_eq_iff)
    then have rest: "{x. pfn + 1 \<le> x \<and> x < e \<and> v x} = {x. pfn < x \<and> x < e \<and> v x}" by simp
    have "{x. pfn \<le> x \<and> x < e \<and> v x} =
        (if v pfn then insert pfn {x. pfn < x \<and> x < e \<and> v x} else {x. pfn < x \<and> x < e \<and> v x})"
      using True by (auto simp: order_le_less)
    moreover have "pfn \<notin> {x. pfn < x \<and> x < e \<and> v x}" by simp
    ultimately show ?thesis using 1 True rest by (subst count_pfns.simps) (simp add: algebra_simps)
  qed
qed

text \<open>
  All zones of a node: they follow each other from the node's first frame. The ranges are
  read as natural numbers, so the bound is that the last frame number does not wrap.
\<close>

definition span :: "(u64 \<Rightarrow> bool) \<Rightarrow> nat \<Rightarrow> nat \<Rightarrow> u64 set" where
  "span v a b = {x. a \<le> unat x \<and> unat x < b \<and> v x}"

definition spanned :: "zone list \<Rightarrow> nat" where
  "spanned zs = sum_list (map (\<lambda>z. unat (spanned_pages z)) zs)"

lemma card_span_split:
  "a \<le> b \<Longrightarrow> b \<le> c \<Longrightarrow> card (span v a c) = card (span v a b) + card (span v b c)"
proof -
  assume "a \<le> b" "b \<le> c"
  then have "span v a c = span v a b \<union> span v b c" "span v a b \<inter> span v b c = {}"
    by (auto simp: span_def)
  then show ?thesis by (simp add: card_Un_disjoint)
qed

lemma count_zones_card:
  "unat z + spanned zs < 2 ^ 64 \<Longrightarrow>
    count_zones v zs z n = n + of_nat (card (span v (unat z) (unat z + spanned zs)))"
proof (induction v zs z n rule: count_zones.induct)
  case (1 v z n)
  have "span v (unat z) (unat z + spanned []) = {}" by (auto simp: span_def spanned_def)
  then show ?case by simp
next
  case (2 v zone zs z n)
  let ?k = "spanned_pages zone"
  have "unat z + unat ?k < 2 ^ 64" using 2(2) by (simp add: spanned_def)
  then have end_pfn: "unat (z + ?k) = unat z + unat ?k" by (simp add: unat_word_ariths)
  have "{x. z \<le> x \<and> x < z + ?k \<and> v x} = span v (unat z) (unat z + unat ?k)"
    by (auto simp: span_def word_le_nat_alt word_less_nat_alt end_pfn)
  moreover have "unat (z + ?k) + spanned zs < 2 ^ 64"
    using 2(2) by (simp add: end_pfn spanned_def)
  moreover have "card (span v (unat z) (unat z + spanned (zone # zs))) =
      card (span v (unat z) (unat z + unat ?k)) +
      card (span v (unat z + unat ?k) (unat z + unat ?k + spanned zs))"
    by (subst card_span_split [of _ "unat z + unat ?k"]) (simp_all add: spanned_def add.assoc)
  ultimately show ?case using 2(1) [OF refl refl refl]
    by (simp add: Let_def count_pfns_card end_pfn)
qed

definition node_frames :: "(u64 \<Rightarrow> bool) \<Rightarrow> pglist_data \<Rightarrow> u64 set" where
  "node_frames v nd =
     span v (unat (node_start_pfn nd)) (unat (node_start_pfn nd) + spanned (node_zones nd))"

lemma count_nodes_card:
  "\<forall>nd\<in>set nodes. unat (node_start_pfn nd) + spanned (node_zones nd) < 2 ^ 64 \<Longrightarrow>
    count_nodes v nodes n = n + of_nat (sum_list (map (\<lambda>nd. card (node_frames v nd)) nodes))"
  by (induction nodes arbitrary: n) (simp_all add: count_zones_card node_frames_def)

end
