(* ===== verification/Page_Index.thy ===== *)
theory Page_Index
  imports Lp_Pool "HOL-Library.Tree"
begin

text \<open>
  The red-black tree of the page log, mem_leak/kerspace/huawei_log_page.c: a binary tree of
  pointers to records, ordered by the page ranges that the records hold. Colours and
  rotations belong to the kernel's \<open>rb_insert_color\<close> and \<open>rb_erase\<close>, which are parameters;
  the descent to a leaf and the search are the module's own. What the page log relies on is
  the interface \<open>page_index\<close>, interpreted here on these operations.
\<close>

section \<open>Ranges of pages\<close>

datatype page_range = Range (lo: page_ptr) (hi: page_ptr)

definition pages :: "page_range \<Rightarrow> page_ptr set" where
  "pages r = {lo r..<hi r}"

definition nonempty :: "page_range \<Rightarrow> bool" where
  "nonempty r \<longleftrightarrow> lo r < hi r"

text \<open>Non-empty ranges are ordered when one ends before the other starts.\<close>

instantiation page_range :: order
begin

definition less_page_range :: "page_range \<Rightarrow> page_range \<Rightarrow> bool" where
  "r < q \<longleftrightarrow> nonempty r \<and> nonempty q \<and> hi r \<le> lo q"

definition less_eq_page_range :: "page_range \<Rightarrow> page_range \<Rightarrow> bool" where
  "(r :: page_range) \<le> q \<longleftrightarrow> r = q \<or> r < q"

instance
  by standard (auto simp: less_page_range_def less_eq_page_range_def nonempty_def)

end

lemma mem_pages: "p \<in> pages r \<longleftrightarrow> lo r \<le> p \<and> p < hi r"
  by (simp add: pages_def)

lemma less_range_iff: "r < q \<longleftrightarrow> nonempty r \<and> nonempty q \<and> hi r \<le> lo q"
  by (rule less_page_range_def)

lemma less_range_disjoint: "r < q \<Longrightarrow> pages r \<inter> pages q = {}"
  by (auto simp: less_range_iff mem_pages)

definition lp_range :: "log_page_struct \<Rightarrow> page_range" where
  "lp_range lp = Range (start_page lp) (end_page lp)"

section \<open>The operations on the tree\<close>

text \<open>
  The record of the kernel's tree functions. \<open>rb_insert_color node root\<close> rebalances after
  \<open>node\<close> was linked in as a leaf; \<open>rb_erase node root\<close> takes \<open>node\<close> out.
\<close>

record rb_ops =
  rb_insert_color :: "lp_ptr \<Rightarrow> lp_ptr tree \<Rightarrow> lp_ptr tree"
  rb_erase :: "lp_ptr \<Rightarrow> lp_ptr tree \<Rightarrow> lp_ptr tree"
  rb_first :: "lp_ptr tree \<Rightarrow> lp_ptr option"
  rb_next :: "lp_ptr \<Rightarrow> lp_ptr tree \<Rightarrow> lp_ptr option"

text \<open>
  What Documentation/rbtree.txt promises: rebalancing and erasing keep the order of the
  others, \<open>rb_first\<close> and \<open>rb_next\<close> go through the nodes in order.
\<close>

fun after :: "'a \<Rightarrow> 'a list \<Rightarrow> 'a option" where
  "after x (y # z # zs) = (if x = y then Some z else after x (z # zs))"
| "after x _ = None"

definition rb_laws :: "rb_ops \<Rightarrow> bool" where
  "rb_laws rb \<longleftrightarrow>
     (\<forall>n t. inorder (rb_insert_color rb n t) = inorder t) \<and>
     (\<forall>n t. distinct (inorder t) \<longrightarrow> inorder (rb_erase rb n t) = remove1 n (inorder t)) \<and>
     (\<forall>t. rb_first rb t = (case inorder t of [] \<Rightarrow> None | x # _ \<Rightarrow> Some x)) \<and>
     (\<forall>n t. distinct (inorder t) \<longrightarrow> rb_next rb n t = after n (inorder t))"

text \<open>
  The descent of \<open>log_page_insert\<close>: \<open>p\<close> walks from the root to an empty child, going left
  where the new range ends at or before the start of this one, and \<open>rb_link_node\<close> hangs the
  node there.
\<close>

fun rb_link :: "(lp_ptr \<Rightarrow> log_page_struct) \<Rightarrow> page_ptr \<Rightarrow> lp_ptr \<Rightarrow> lp_ptr tree \<Rightarrow> lp_ptr tree" where
  "rb_link at end lp Leaf = Node Leaf lp Leaf"
| "rb_link at end lp (Node l this r) =
     (if end \<le> start_page (at this)
      then Node (rb_link at end lp l) this r
      else Node l this (rb_link at end lp r))"

definition log_page_insert ::
  "rb_ops \<Rightarrow> (lp_ptr \<Rightarrow> log_page_struct) \<Rightarrow> lp_ptr \<Rightarrow> lp_ptr tree \<Rightarrow> lp_ptr tree"
where
  "log_page_insert rb at lp root =
     rb_insert_color rb lp (rb_link at (end_page (at lp)) lp root)"

fun find_lp :: "(lp_ptr \<Rightarrow> log_page_struct) \<Rightarrow> page_ptr \<Rightarrow> lp_ptr tree \<Rightarrow> lp_ptr option" where
  "find_lp at start Leaf = None"
| "find_lp at start (Node l lp r) =
     (if start < start_page (at lp) then find_lp at start l
      else if start \<ge> end_page (at lp) then find_lp at start r
      else Some lp)"

section \<open>The interface\<close>

text \<open>The pointers of a tree in order hold strictly increasing ranges.\<close>

definition ordered :: "(lp_ptr \<Rightarrow> log_page_struct) \<Rightarrow> lp_ptr list \<Rightarrow> bool" where
  "ordered at ps \<longleftrightarrow> (\<forall>p\<in>set ps. nonempty (lp_range (at p))) \<and>
     sorted_wrt (\<lambda>p q. lp_range (at p) < lp_range (at q)) ps"

text \<open>
  The abstract view: who owns a page, as the trace and the modules of the record whose range
  holds it. It is read off the list of the tree's pointers.
\<close>

type_synonym owner_info = "u64 list \<times> lp_module_info_struct list"

definition lp_info :: "log_page_struct \<Rightarrow> owner_info" where
  "lp_info lp = (entries lp, lp_module_info lp)"

definition owner_of :: "(lp_ptr \<Rightarrow> log_page_struct) \<Rightarrow> lp_ptr list \<Rightarrow> page_ptr \<Rightarrow> owner_info option" where
  "owner_of at ps p =
     map_option (\<lambda>q. lp_info (at q)) (List.find (\<lambda>q. p \<in> pages (lp_range (at q))) ps)"

lemma ordered_distinct: "ordered at ps \<Longrightarrow> distinct ps"
  unfolding ordered_def by (induction ps) (auto simp: less_range_iff nonempty_def)

lemma ordered_Cons:
  "ordered at (q # qs) \<longleftrightarrow> ordered at qs \<and> nonempty (lp_range (at q)) \<and>
    (\<forall>r\<in>set qs. lp_range (at q) < lp_range (at r))"
  by (auto simp: ordered_def)

lemma ordered_disjoint:
  "ordered at ps \<Longrightarrow> q \<in> set ps \<Longrightarrow> r \<in> set ps \<Longrightarrow> q \<noteq> r \<Longrightarrow>
    pages (lp_range (at q)) \<inter> pages (lp_range (at r)) = {}"
proof (induction ps)
  case (Cons a ps)
  then show ?case using less_range_disjoint by (auto simp: ordered_Cons)
qed simp

lemma owner_of_None: "owner_of at ps p = None \<longleftrightarrow> (\<forall>q\<in>set ps. p \<notin> pages (lp_range (at q)))"
  by (auto simp: owner_of_def find_None_iff)

lemma owner_of_Some:
  assumes "ordered at ps" and "q \<in> set ps" and "p \<in> pages (lp_range (at q))"
  shows "owner_of at ps p = Some (lp_info (at q))"
proof -
  from assms obtain r where r: "List.find (\<lambda>q. p \<in> pages (lp_range (at q))) ps = Some r"
    by (metis find_None_iff not_None_eq)
  then have "r \<in> set ps" "p \<in> pages (lp_range (at r))" by (auto simp: find_Some_iff)
  with assms ordered_disjoint [of at ps q r] have "r = q" by blast
  with r show ?thesis by (simp add: owner_of_def)
qed

text \<open>Two lists own the same where the same ranges with the same contents hold the page.\<close>

lemma owner_of_eqI:
  assumes "ordered at ps" and "ordered at' qs"
    and "\<And>q. q \<in> set ps \<Longrightarrow> p \<in> pages (lp_range (at q)) \<Longrightarrow>
      q \<in> set qs \<and> p \<in> pages (lp_range (at' q)) \<and> lp_info (at' q) = lp_info (at q)"
    and "\<And>q. q \<in> set qs \<Longrightarrow> p \<in> pages (lp_range (at' q)) \<Longrightarrow>
      q \<in> set ps \<and> p \<in> pages (lp_range (at q))"
  shows "owner_of at' qs p = owner_of at ps p"
proof (cases "owner_of at ps p")
  case None
  with assms(4) have "owner_of at' qs p = None" by (auto simp: owner_of_None)
  with None show ?thesis by simp
next
  case (Some i)
  then obtain q where q: "q \<in> set ps" "p \<in> pages (lp_range (at q))"
    by (metis not_None_eq owner_of_None)
  with assms(3) have "q \<in> set qs" "p \<in> pages (lp_range (at' q))" "lp_info (at' q) = lp_info (at q)"
    by blast+
  with q assms(1,2) show ?thesis by (simp add: owner_of_Some)
qed

text \<open>Shrinking a range in place keeps the order and disowns the pages given up.\<close>

lemma shrink_ordered:
  assumes "ordered at ps" and "nonempty (lp_range r)"
    and "q \<in> set ps \<Longrightarrow> pages (lp_range r) \<subseteq> pages (lp_range (at q))"
  shows "ordered (at(q := r)) ps"
  using assms
proof (induction ps)
  case Nil
  then show ?case by (simp add: ordered_def)
next
  case (Cons a ps)
  have sub: "lo (lp_range (at q)) \<le> lo (lp_range r) \<and> hi (lp_range r) \<le> hi (lp_range (at q))"
    if "q \<in> set (a # ps)"
  proof -
    have "start_page r \<in> pages (lp_range r)" "end_page r - 1 \<in> pages (lp_range r)"
      using Cons.prems(2) by (auto simp: nonempty_def lp_range_def mem_pages)
    with Cons.prems(3) [OF that] have "start_page r \<in> pages (lp_range (at q))"
      "end_page r - 1 \<in> pages (lp_range (at q))" by blast+
    then show ?thesis by (simp add: lp_range_def mem_pages)
  qed
  have "ordered (at(q := r)) ps"
    by (rule Cons.IH) (use Cons.prems in \<open>auto simp: ordered_Cons\<close>)
  moreover have "\<forall>s\<in>set ps. lp_range ((at(q := r)) a) < lp_range ((at(q := r)) s)"
    using Cons.prems sub by (fastforce simp: ordered_Cons less_range_iff)
  moreover have "nonempty (lp_range ((at(q := r)) a))"
    using Cons.prems by (simp add: ordered_Cons)
  ultimately show ?case unfolding ordered_Cons by blast
qed

lemma shrink_owner:
  assumes "ordered at ps" and "q \<in> set ps" and "nonempty (lp_range r)"
    and "pages (lp_range r) \<subseteq> pages (lp_range (at q))" and "lp_info r = lp_info (at q)"
  shows "owner_of (at(q := r)) ps p =
    (if p \<in> pages (lp_range (at q)) - pages (lp_range r) then None else owner_of at ps p)"
proof (cases "p \<in> pages (lp_range (at q)) - pages (lp_range r)")
  case True
  then have "\<forall>s\<in>set ps. p \<notin> pages (lp_range ((at(q := r)) s))"
    using ordered_disjoint [OF assms(1,2)] by (auto split: if_splits)
  with True show ?thesis by (simp add: owner_of_None [THEN iffD2])
next
  case False
  have "owner_of (at(q := r)) ps p = owner_of at ps p"
    using assms False
    by (intro owner_of_eqI shrink_ordered) (auto split: if_splits)
  then show ?thesis by (simp only: False if_False)
qed

locale page_index =
  fixes ok :: "'e \<Rightarrow> bool"
    and look :: "(lp_ptr \<Rightarrow> log_page_struct) \<Rightarrow> page_ptr \<Rightarrow> 't \<Rightarrow> lp_ptr option"
    and ins :: "'e \<Rightarrow> (lp_ptr \<Rightarrow> log_page_struct) \<Rightarrow> lp_ptr \<Rightarrow> 't \<Rightarrow> 't"
    and del :: "'e \<Rightarrow> lp_ptr \<Rightarrow> 't \<Rightarrow> 't"
    and listed :: "'t \<Rightarrow> lp_ptr list"
  assumes look_iff: "ordered at (listed t) \<Longrightarrow>
      look at p t = Some q \<longleftrightarrow> q \<in> set (listed t) \<and> p \<in> pages (lp_range (at q))"
    and ins_set: "ok e \<Longrightarrow> set (listed (ins e at q t)) = insert q (set (listed t))"
    and ins_ordered: "ok e \<Longrightarrow> ordered at (listed t) \<Longrightarrow> nonempty (lp_range (at q)) \<Longrightarrow>
      (\<And>p. p \<in> set (listed t) \<Longrightarrow> pages (lp_range (at p)) \<inter> pages (lp_range (at q)) = {}) \<Longrightarrow>
      ordered at (listed (ins e at q t))"
    and del_listed: "ok e \<Longrightarrow> distinct (listed t) \<Longrightarrow> listed (del e q t) = remove1 q (listed t)"
begin

lemma look_None:
  "ordered at (listed t) \<Longrightarrow>
    look at p t = None \<longleftrightarrow> (\<forall>q\<in>set (listed t). p \<notin> pages (lp_range (at q)))"
  using look_iff [of at t p] by (cases "look at p t") auto

text \<open>The effect of each operation on the owners of the pages.\<close>

lemma owner_look:
  "ordered at (listed t) \<Longrightarrow>
    owner_of at (listed t) p = map_option (\<lambda>q. lp_info (at q)) (look at p t)"
proof (cases "look at p t")
  case None
  assume "ordered at (listed t)"
  with None have "owner_of at (listed t) p = None" by (simp add: look_None owner_of_None)
  with None show ?thesis by simp
next
  case (Some q)
  assume o: "ordered at (listed t)"
  with Some have "q \<in> set (listed t)" "p \<in> pages (lp_range (at q))" by (simp_all add: look_iff)
  with Some o show ?thesis by (simp add: owner_of_Some)
qed

lemma owner_ins:
  assumes "ok e" and "ordered at (listed t)" and "nonempty (lp_range (at q))"
    and "\<And>p. p \<in> pages (lp_range (at q)) \<Longrightarrow> owner_of at (listed t) p = None"
  shows "ordered at (listed (ins e at q t))"
    and "owner_of at (listed (ins e at q t)) p =
      (if p \<in> pages (lp_range (at q)) then Some (lp_info (at q)) else owner_of at (listed t) p)"
proof -
  from assms(4) show o: "ordered at (listed (ins e at q t))"
    by (intro ins_ordered assms(1-3)) (auto simp: owner_of_None)
  show "owner_of at (listed (ins e at q t)) p =
      (if p \<in> pages (lp_range (at q)) then Some (lp_info (at q)) else owner_of at (listed t) p)"
  proof (cases "p \<in> pages (lp_range (at q))")
    case True
    with o show ?thesis by (simp add: owner_of_Some ins_set assms(1))
  next
    case False
    have "owner_of at (listed (ins e at q t)) p = owner_of at (listed t) p"
      using False by (intro owner_of_eqI o assms(2)) (auto simp: ins_set assms(1))
    with False show ?thesis by simp
  qed
qed

lemma owner_del:
  assumes "ok e" and "ordered at (listed t)" and "q \<in> set (listed t)"
  shows "ordered at (listed (del e q t))"
    and "owner_of at (listed (del e q t)) p =
      (if p \<in> pages (lp_range (at q)) then None else owner_of at (listed t) p)"
proof -
  have d: "distinct (listed t)" by (rule ordered_distinct [OF assms(2)])
  have l: "listed (del e q t) = remove1 q (listed t)" by (rule del_listed [OF assms(1) d])
  show o: "ordered at (listed (del e q t))"
    using assms(2) by (auto simp: l ordered_def sorted_wrt_remove1 dest: notin_set_remove1)
  show "owner_of at (listed (del e q t)) p =
      (if p \<in> pages (lp_range (at q)) then None else owner_of at (listed t) p)"
  proof (cases "p \<in> pages (lp_range (at q))")
    case True
    then have "\<forall>r\<in>set (remove1 q (listed t)). p \<notin> pages (lp_range (at r))"
      using ordered_disjoint [OF assms(2,3)] d by auto
    with True show ?thesis by (simp add: l owner_of_None)
  next
    case False
    have "owner_of at (listed (del e q t)) p = owner_of at (listed t) p"
      using False d by (intro owner_of_eqI o assms(2)) (auto simp: l)
    with False show ?thesis by simp
  qed
qed

end

section \<open>The module's tree is a page index\<close>

lemma ordered_append:
  "ordered at (ps @ q # qs) \<longleftrightarrow> ordered at ps \<and> ordered at qs \<and> nonempty (lp_range (at q)) \<and>
    (\<forall>p\<in>set ps. lp_range (at p) < lp_range (at q)) \<and>
    (\<forall>r\<in>set qs. lp_range (at q) < lp_range (at r))"
  by (auto simp: ordered_def sorted_wrt_append intro: less_trans)

lemma lo_hi_lp_range [simp]: "lo (lp_range lp) = start_page lp" "hi (lp_range lp) = end_page lp"
  by (simp_all add: lp_range_def)

lemma find_lp_iff:
  "ordered at (inorder t) \<Longrightarrow>
    find_lp at p t = Some q \<longleftrightarrow> q \<in> set_tree t \<and> p \<in> pages (lp_range (at q))"
  by (induction t) (auto simp: ordered_append less_range_iff nonempty_def mem_pages)

lemma rb_link_set: "set_tree (rb_link at e q t) = insert q (set_tree t)"
  by (induction t) auto

lemma apart:
  assumes "nonempty (lp_range a)" and "nonempty (lp_range b)"
    and "pages (lp_range a) \<inter> pages (lp_range b) = {}"
  shows "end_page b \<le> start_page a \<and> lp_range b < lp_range a \<or>
    \<not> end_page b \<le> start_page a \<and> lp_range a < lp_range b"
proof -
  have "end_page b \<le> start_page a \<or> end_page a \<le> start_page b"
  proof (rule ccontr)
    assume "\<not> ?thesis"
    with assms(1,2) have "max (start_page a) (start_page b) \<in> pages (lp_range a) \<inter> pages (lp_range b)"
      by (auto simp: nonempty_def mem_pages)
    with assms(3) show False by blast
  qed
  with assms(1,2) show ?thesis by (auto simp: less_range_iff nonempty_def)
qed

lemma rb_link_ordered:
  assumes "ordered at (inorder t)" and "nonempty (lp_range (at q))"
    and "\<And>p. p \<in> set_tree t \<Longrightarrow> pages (lp_range (at p)) \<inter> pages (lp_range (at q)) = {}"
  shows "ordered at (inorder (rb_link at (end_page (at q)) q t))"
  using assms
proof (induction t)
  case Leaf
  then show ?case by (simp add: ordered_def)
next
  case (Node l this r)
  have "nonempty (lp_range (at this))" using Node.prems(1) by (simp add: ordered_append)
  from apart [OF this Node.prems(2)] Node.prems(3) [of this]
  consider "end_page (at q) \<le> start_page (at this)" "lp_range (at q) < lp_range (at this)"
    | "\<not> end_page (at q) \<le> start_page (at this)" "lp_range (at this) < lp_range (at q)" by auto
  then show ?case
  proof cases
    case 1
    moreover have "ordered at (inorder (rb_link at (end_page (at q)) q l))"
      using Node.IH(1) Node.prems by (simp add: ordered_append)
    ultimately show ?thesis using Node.prems(1) by (simp add: ordered_append rb_link_set)
  next
    case 2
    moreover have "ordered at (inorder (rb_link at (end_page (at q)) q r))"
      using Node.IH(2) Node.prems by (simp add: ordered_append)
    ultimately show ?thesis using Node.prems(1) by (simp add: ordered_append rb_link_set)
  qed
qed

interpretation tree: page_index rb_laws find_lp log_page_insert rb_erase inorder
  by unfold_locales
    (auto simp: find_lp_iff log_page_insert_def rb_laws_def rb_link_set rb_link_ordered)

end
