(* ===== verification/St_Pool.thy ===== *)
theory St_Pool
  imports Lp_Pool
begin

text \<open>
  The pool of trace descriptors (\<open>struct st\<close>) that \<open>get_lp_call_stack\<close> draws from,
  mem_leak/kerspace/huawei_log_page.c: the second instance of the pool interface. The
  pointer \<open>entries\<close> of a descriptor is the record whose \<open>entries\<close> array it points to.
\<close>

record st =
  nr_entries :: nat
  max_entries :: nat
  st_entries :: lp_ptr
  skip :: int
  st_next :: "nat option"

type_synonym st_ptr = nat

record st_pool_struct =
  nr_st :: nat
  st_area :: bool
  st_at :: "st_ptr \<Rightarrow> st"
  st_free :: "st_ptr option"

definition u_alloc_st :: "st_pool_struct \<Rightarrow> (st_ptr \<times> st_pool_struct) result" where
  "u_alloc_st pool =
     (case st_free pool of
        None \<Rightarrow> Inl NullDeref
      | Some st \<Rightarrow> Inr (st, pool\<lparr>st_free := st_next (st_at pool st)\<rparr>))"

definition alloc_st :: "st_pool_struct \<Rightarrow> (st_ptr \<times> st_pool_struct) result" where
  "alloc_st pool = u_alloc_st pool"

definition u_free_st :: "st_ptr \<Rightarrow> st_pool_struct \<Rightarrow> st_pool_struct" where
  "u_free_st st pool =
     pool\<lparr>st_at := (st_at pool)(st := (st_at pool st)\<lparr>st_next := st_free pool\<rparr>),
          st_free := Some st\<rparr>"

definition free_st :: "st_ptr \<Rightarrow> st_pool_struct \<Rightarrow> st_pool_struct" where
  "free_st st pool = u_free_st st pool"

text \<open>
  \<open>MAXACTIVE\<close> is -1, so the number of descriptors is the default of the kretprobe:
  \<open>max(10, 2 * NR_CPUS)\<close> with preemption, \<open>NR_CPUS\<close> without. Both are of the kernel's
  configuration and parameters here, as is \<open>vmalloc\<close>.
\<close>

definition MAXACTIVE :: int where
  "MAXACTIVE = -1"

definition sizeof_st :: nat where
  "sizeof_st = 32"

definition init_st_pool ::
  "bool \<Rightarrow> nat \<Rightarrow> (nat \<Rightarrow> (st_ptr \<Rightarrow> st) option) \<Rightarrow> st_pool_struct \<Rightarrow> int \<times> st_pool_struct"
where
  "init_st_pool CONFIG_PREEMPT NR_CPUS vmalloc pool =
     (let maxactive = MAXACTIVE;
          maxactive = (if maxactive \<le> 0
                       then (if CONFIG_PREEMPT then max 10 (2 * int NR_CPUS) else int NR_CPUS)
                       else maxactive)
      in case vmalloc (sizeof_st * nat maxactive) of
           None \<Rightarrow> (-1, pool)
         | Some addr \<Rightarrow>
             (0, fold free_st [0..<nat maxactive]
                   (pool\<lparr>nr_st := nat maxactive, st_area := True, st_at := addr,
                         st_free := None\<rparr>)))"

definition exit_st_pool :: "st_pool_struct \<Rightarrow> st_pool_struct" where
  "exit_st_pool pool = pool\<lparr>st_area := False\<rparr>"

section \<open>The pool is a pool\<close>

definition st_link :: "st_pool_struct \<Rightarrow> st_ptr \<Rightarrow> st_ptr option option" where
  "st_link pool p = Some (st_next (st_at pool p))"

definition st_slots :: "st_pool_struct \<Rightarrow> st_ptr set" where
  "st_slots pool = {..<nr_st pool}"

definition st_frees :: "st_pool_struct \<Rightarrow> st_ptr list \<Rightarrow> bool" where
  "st_frees pool ps \<longleftrightarrow>
     chain (st_link pool) (st_free pool) ps \<and> distinct ps \<and> set ps \<subseteq> st_slots pool"

lemma st_slots_cong [simp]:
  "st_slots (pool\<lparr>st_at := h, st_free := q\<rparr>) = st_slots pool"
  "st_slots (pool\<lparr>st_at := h\<rparr>) = st_slots pool"
  by (simp_all add: st_slots_def)

lemma st_frees_upd:
  assumes "p \<notin> set ps"
  shows "st_frees (pool\<lparr>st_at := (st_at pool)(p := st)\<rparr>) ps = st_frees pool ps"
proof -
  have "chain (st_link (pool\<lparr>st_at := (st_at pool)(p := st)\<rparr>)) h ps = chain (st_link pool) h ps"
    for h using assms by (rule chain_other) (simp add: st_link_def)
  then show ?thesis by (simp add: st_frees_def)
qed

interpretation stp: free_pool u_alloc_st u_free_st st_frees st_slots
proof (unfold_locales, goal_cases)
  case (1 s ps qs)
  then show ?case by (auto simp: st_frees_def dest: chain_unique)
next
  case (4 s)
  show ?case by (simp add: st_slots_def)
next
  case (5 s)
  then show ?case by (simp add: st_frees_def u_alloc_st_def)
next
  case (6 s p ps)
  have "chain (st_link (s\<lparr>st_free := n\<rparr>)) n ps = chain (st_link s) n ps" for n
    by (rule chain_cong) (simp add: st_link_def)
  with 6 show ?case
    by (auto simp: u_alloc_st_def st_frees_def st_slots_def st_link_def)
next
  case (7 s ps p)
  from \<open>p \<notin> set ps\<close> have "chain (st_link (u_free_st p s)) h ps = chain (st_link s) h ps" for h
    by (rule chain_other) (simp add: st_link_def u_free_st_def)
  moreover have "st_link (u_free_st p s) p = Some (st_free s)"
    by (simp add: st_link_def u_free_st_def)
  ultimately show ?case using 7 by (auto simp: st_frees_def st_slots_def u_free_st_def)
qed (auto simp: st_frees_def u_free_st_def st_slots_def)

text \<open>Initialisation: every descriptor of the area is free, and there is one.\<close>

lemma free_st_eq: "free_st = u_free_st"
  by (rule ext)+ (simp add: free_st_def)

lemma init_st_pool_accounted:
  assumes "init_st_pool preempt cpus vmalloc pool = (0, pool')" and "0 < cpus"
  shows "stp.accounted [] pool' \<and> st_slots pool' \<noteq> {}"
proof -
  define n where "n = nat (if preempt then max 10 (2 * int cpus) else int cpus)"
  have n: "0 < n" using assms(2) by (simp add: n_def less_max_iff_disj)
  from assms(1) obtain addr where pool': "pool' = fold u_free_st [0..<n]
      (pool\<lparr>nr_st := n, st_area := True, st_at := addr, st_free := None\<rparr>)"
    by (auto simp: init_st_pool_def free_st_eq Let_def MAXACTIVE_def n_def split: option.splits if_splits)
  have "st_frees (pool\<lparr>nr_st := n, st_area := True, st_at := addr, st_free := None\<rparr>) []"
    by (simp add: st_frees_def)
  from stp.init_accounted [OF this, of "[0..<n]"] n show ?thesis
    by (simp add: pool' st_slots_def atLeast0LessThan lessThan_empty_iff)
qed

end
