(* ===== verification/Call_Stack.thy ===== *)
theory Call_Stack
  imports St_Pool
begin

text \<open>
  Recording the call stack of an allocation in its record: the callback of the kernel's
  stack walker and \<open>get_lp_call_stack\<close>, mem_leak/kerspace/huawei_log_page.c. What the
  walker reports (\<open>frames\<close>, the addresses in order), and which module an address lies in
  (\<open>module_address\<close>, 0 for NULL, and \<open>module_name\<close>), are the kernel's.
\<close>

abbreviation (input) KPROBES_SKIP_NUM :: int where "KPROBES_SKIP_NUM \<equiv> 8"

record pools =
  lp_pool :: lp_pool_struct
  st_pool :: st_pool_struct

text \<open>The callback: \<open>data\<close> is the descriptor, whose array is that of a record.\<close>

definition hw_save_stack_address :: "st_ptr \<Rightarrow> u64 \<Rightarrow> pools \<Rightarrow> pools" where
  "hw_save_stack_address data addr s =
     (let trace = st_at (st_pool s) data in
      if skip trace > 0
      then s\<lparr>st_pool := (st_pool s)\<lparr>st_at := (st_at (st_pool s))
                (data := trace\<lparr>skip := skip trace - 1\<rparr>)\<rparr>\<rparr>
      else if nr_entries trace < max_entries trace
      then let lp = lp_at (lp_pool s) (st_entries trace) in
           s\<lparr>lp_pool := (lp_pool s)\<lparr>lp_at := (lp_at (lp_pool s))
                (st_entries trace := lp\<lparr>entries := (entries lp)[nr_entries trace := addr]\<rparr>)\<rparr>,
             st_pool := (st_pool s)\<lparr>st_at := (st_at (st_pool s))
                (data := trace\<lparr>nr_entries := nr_entries trace + 1\<rparr>)\<rparr>\<rparr>
      else s)"

text \<open>
  The loop that records the modules: \<open>last_mod\<close> is the module recorded last (0 before the
  first), the loop leaves once four are recorded.
\<close>

fun record_modules :: "(u64 \<Rightarrow> u64) \<Rightarrow> (u64 \<Rightarrow> string) \<Rightarrow> u64 list \<Rightarrow> u64 \<Rightarrow> nat \<Rightarrow>
    lp_module_info_struct list \<Rightarrow> lp_module_info_struct list" where
  "record_modules module_address module_name [] last_mod module_index info = info"
| "record_modules module_address module_name (entry # rest) last_mod module_index info =
     (let m = module_address entry in
      if m = 0 then record_modules module_address module_name rest last_mod module_index info
      else if m = last_mod
      then record_modules module_address module_name rest last_mod module_index info
      else let info' = info[module_index := \<lparr>mod_ptr = m, mod_name = module_name m\<rparr>] in
           if module_index + 1 = 4 then info'
           else record_modules module_address module_name rest m (module_index + 1) info')"

definition get_lp_call_stack ::
  "(u64 \<Rightarrow> u64) \<Rightarrow> (u64 \<Rightarrow> string) \<Rightarrow> u64 list \<Rightarrow> lp_ptr \<Rightarrow> pools \<Rightarrow> pools result"
where
  "get_lp_call_stack module_address module_name frames lp s =
     bind_result (alloc_st (st_pool s)) (\<lambda>(st, stp).
       let s = s\<lparr>st_pool := stp\<lparr>st_at := (st_at stp)(st := (st_at stp st)
                 \<lparr>nr_entries := 0, max_entries := LOG_PAGE_TRACE_LEVEL, st_entries := lp,
                  skip := KPROBES_SKIP_NUM\<rparr>)\<rparr>\<rparr>;
           s = fold (hw_save_stack_address st) frames s;
           r = lp_at (lp_pool s) lp;
           r = r\<lparr>lp_module_info :=
                 record_modules module_address module_name
                   (map (\<lambda>i. entries r ! i) [0..<LOG_PAGE_TRACE_LEVEL]) 0 0 (lp_module_info r)\<rparr>
       in Inr (s\<lparr>lp_pool := (lp_pool s)\<lparr>lp_at := (lp_at (lp_pool s))(lp := r)\<rparr>,
                 st_pool := free_st st (st_pool s)\<rparr>))"

section \<open>What the record ends up holding\<close>

text \<open>The trace: the frames after the first eight, cut to 26 and padded with zeros.\<close>

definition trace_of :: "u64 list \<Rightarrow> u64 list" where
  "trace_of frames =
     (let fs = take LOG_PAGE_TRACE_LEVEL (drop 8 frames)
      in fs @ replicate (LOG_PAGE_TRACE_LEVEL - length fs) 0)"

text \<open>The modules: those of the trace in order, adjacent repetitions once, the first four.\<close>

definition modules_of :: "(u64 \<Rightarrow> u64) \<Rightarrow> (u64 \<Rightarrow> string) \<Rightarrow> u64 list \<Rightarrow> lp_module_info_struct list" where
  "modules_of module_address module_name trace =
     (let ms = take 4 (remdups_adj (filter (\<lambda>m. m \<noteq> 0) (map module_address trace)))
      in map (\<lambda>m. \<lparr>mod_ptr = m, mod_name = module_name m\<rparr>) ms
         @ replicate (4 - length ms) no_module)"

text \<open>
  The walk, from any point of it: the descriptor has \<open>n\<close> entries stored and \<open>k\<close> still to skip.
\<close>

lemma fold_hw_save:
  assumes "st_at (st_pool s) d = \<lparr>nr_entries = n, max_entries = m, st_entries = lp, skip = int k, st_next = nx\<rparr>"
    and "length (entries (lp_at (lp_pool s) lp)) = m" and "n \<le> m"
  shows "\<exists>n' k'. fold (hw_save_stack_address d) frames s =
    (let e = entries (lp_at (lp_pool s) lp); w = take (m - n) (drop k frames) in
     s\<lparr>lp_pool := (lp_pool s)\<lparr>lp_at := (lp_at (lp_pool s))
          (lp := (lp_at (lp_pool s) lp)\<lparr>entries := take n e @ w @ drop (n + length w) e\<rparr>)\<rparr>,
       st_pool := (st_pool s)\<lparr>st_at := (st_at (st_pool s))
          (d := \<lparr>nr_entries = n', max_entries = m, st_entries = lp, skip = k', st_next = nx\<rparr>)\<rparr>\<rparr>)"
  using assms
proof (induction frames arbitrary: s n k)
  case Nil
  from Nil(1) have "st_at (st_pool s) =
      (st_at (st_pool s))(d := \<lparr>nr_entries = n, max_entries = m, st_entries = lp, skip = int k, st_next = nx\<rparr>)"
    by (simp add: fun_upd_idem)
  then show ?case
    by (intro exI [of _ n] exI [of _ "int k"])
      (simp only: Let_def list.size append_Nil add_0_right append_take_drop_id drop_Nil take_Nil
        fold_Nil id_apply, simp)
next
  case (Cons a frames)
  let ?e = "entries (lp_at (lp_pool s) lp)"
  consider (skip) k' where "k = Suc k'" | (store) "k = 0" "n < m" | (full) "k = 0" "n = m"
    using Cons.prems(3) by (metis le_neq_implies_less not0_implies_Suc)
  then show ?case
  proof cases
    case skip
    define t where "t = hw_save_stack_address d a s"
    have t: "t = s\<lparr>st_pool := (st_pool s)\<lparr>st_at := (st_at (st_pool s))
        (d := \<lparr>nr_entries = n, max_entries = m, st_entries = lp, skip = int k', st_next = nx\<rparr>)\<rparr>\<rparr>"
      using Cons.prems(1) skip by (simp add: t_def hw_save_stack_address_def)
    from Cons.IH [of t n k'] Cons.prems(2,3) skip show ?thesis
      by (simp add: t_def [symmetric] Let_def) (simp add: t cong: if_cong)
  next
    case store
    define t where "t = hw_save_stack_address d a s"
    have t: "t = s\<lparr>lp_pool := (lp_pool s)\<lparr>lp_at := (lp_at (lp_pool s))
        (lp := (lp_at (lp_pool s) lp)\<lparr>entries := ?e[n := a]\<rparr>)\<rparr>,
        st_pool := (st_pool s)\<lparr>st_at := (st_at (st_pool s))
        (d := \<lparr>nr_entries = Suc n, max_entries = m, st_entries = lp, skip = int 0, st_next = nx\<rparr>)\<rparr>\<rparr>"
      using Cons.prems(1) store by (simp add: t_def hw_save_stack_address_def Let_def)
    have "take (Suc n) (?e[n := a]) = take n ?e @ [a]"
      using store Cons.prems(2) by (simp add: take_Suc_conv_app_nth)
    moreover have "take (m - n) (a # frames) = a # take (m - Suc n) frames"
      using store by (simp add: take_Cons')
    ultimately show ?thesis using Cons.IH [of t "Suc n" 0] Cons.prems(2,3) store
      by (simp add: t_def [symmetric] Let_def) (simp add: t cong: if_cong)
  next
    case full
    then have "hw_save_stack_address d a s = s"
      using Cons.prems(1) by (simp add: hw_save_stack_address_def)
    with full Cons.IH [of s m 0] Cons.prems show ?thesis by simp
  qed
qed

text \<open>The module loop, from any point of it.\<close>

lemma record_modules_eq:
  assumes "idx < 4" and "length info = 4"
  shows "record_modules ma mn es lst idx info =
    (let ms = take (4 - idx) (tl (remdups_adj (lst # filter (\<lambda>m. m \<noteq> 0) (map ma es))))
     in take idx info @ map (\<lambda>m. \<lparr>mod_ptr = m, mod_name = mn m\<rparr>) ms @ drop (idx + length ms) info)"
  using assms
proof (induction ma mn es lst idx info rule: record_modules.induct)
  case (1 ma mn lst idx info)
  then show ?case by simp
next
  case (2 ma mn e es lst idx info)
  let ?rest = "filter (\<lambda>m. m \<noteq> 0) (map ma es)"
  consider "ma e = 0" | "ma e \<noteq> 0" "ma e = lst" | "ma e \<noteq> 0" "ma e \<noteq> lst" by blast
  then show ?case
  proof cases
    case 1
    with 2 show ?thesis by simp
  next
    case 2
    with "2.IH"(2) [OF refl] "2.prems" show ?thesis by simp
  next
    case 3
    let ?mk = "\<lambda>m. \<lparr>mod_ptr = m, mod_name = mn m\<rparr>"
    have step: "tl (remdups_adj (lst # filter (\<lambda>m. m \<noteq> 0) (map ma (e # es)))) =
        ma e # tl (remdups_adj (ma e # ?rest))"
      using 3 by (simp add: remdups_adj_Cons_alt)
    have upd: "take (Suc idx) (info[idx := ?mk (ma e)]) = take idx info @ [?mk (ma e)]"
      using "2.prems" by (simp add: take_Suc_conv_app_nth)
    let ?info = "info[idx := ?mk (ma e)]"
    let ?tail = "tl (remdups_adj (ma e # ?rest))"
    have rec: "record_modules ma mn (e # es) lst idx info =
        (if idx + 1 = 4 then ?info else record_modules ma mn es (ma e) (idx + 1) ?info)"
      using 3 by (simp add: Let_def)
    show ?thesis
    proof (cases "idx + 1 = 4")
      case True
      then have "?info = take idx info @ [?mk (ma e)] @ drop (Suc idx) info"
        using "2.prems" by (simp add: upd_conv_take_nth_drop)
      moreover have "4 - idx = Suc 0" using True by simp
      ultimately show ?thesis using True unfolding rec step Let_def by (simp del: remdups_adj_Cons_alt)
    next
      case False
      then have "record_modules ma mn es (ma e) (idx + 1) ?info =
          take (Suc idx) ?info @ map ?mk (take (4 - Suc idx) ?tail) @
          drop (Suc idx + length (take (4 - Suc idx) ?tail)) ?info"
        using "2.IH"(3) [OF refl 3 refl] "2.prems" by (simp only: Let_def) simp
      moreover have "4 - idx = Suc (4 - Suc idx)" using False "2.prems" by simp
      ultimately show ?thesis using False "2.prems" upd unfolding rec step Let_def by (simp del: remdups_adj_Cons_alt)
    qed
  qed
qed

text \<open>
  The whole operation on a fresh record: the trace and the modules are filled in, nothing else
  of the record pool changes, and the descriptor is back in its pool.
\<close>

lemma tl_remdups_adj_zero: "0 \<notin> set xs \<Longrightarrow> tl (remdups_adj (0 # xs)) = remdups_adj (xs :: u64 list)"
  by (cases xs) auto

lemma trace_of_length [simp]: "length (trace_of frames) = LOG_PAGE_TRACE_LEVEL"
  by (simp add: trace_of_def Let_def)

lemma modules_of_length [simp]: "length (modules_of ma mn tr) = LOG_MODULE_MAX_NUM"
  by (simp add: modules_of_def Let_def)

lemma record_modules_fresh:
  "record_modules ma mn tr 0 0 (replicate LOG_MODULE_MAX_NUM no_module) = modules_of ma mn tr"
proof -
  let ?ms = "filter (\<lambda>m. m \<noteq> 0) (map ma tr)"
  have "tl (remdups_adj (0 # ?ms)) = remdups_adj ?ms"
    by (rule tl_remdups_adj_zero) simp
  then show ?thesis
    by (simp add: record_modules_eq modules_of_def Let_def)
qed

lemma get_lp_call_stack_fresh:
  assumes "st_frees (st_pool s) sts" and "sts \<noteq> []"
    and "lp_at (lp_pool s) lp = r"
    and "entries r = replicate LOG_PAGE_TRACE_LEVEL 0"
    and "lp_module_info r = replicate LOG_MODULE_MAX_NUM no_module"
  shows "\<exists>s'. get_lp_call_stack ma mn frames lp s = Inr s' \<and> st_frees (st_pool s') sts \<and>
    st_slots (st_pool s') = st_slots (st_pool s) \<and>
    lp_pool s' = (lp_pool s)\<lparr>lp_at := (lp_at (lp_pool s))(lp :=
      r\<lparr>entries := trace_of frames, lp_module_info := modules_of ma mn (trace_of frames)\<rparr>)\<rparr>"
proof -
  from assms(2) obtain d ds where sts: "sts = d # ds" by (cases sts) auto
  with assms(1) stp.alloc_Cons [of "st_pool s" d ds] obtain p1 where
    p1: "alloc_st (st_pool s) = Inr (d, p1)" "st_frees p1 ds" "st_slots p1 = st_slots (st_pool s)"
    by (auto simp: alloc_st_def)
  have d: "d \<notin> set ds" "d \<in> st_slots p1" using assms(1) sts p1(3) by (auto simp: st_frees_def)
  let ?d = "(st_at p1 d)\<lparr>nr_entries := 0, max_entries := LOG_PAGE_TRACE_LEVEL, st_entries := lp,
    skip := KPROBES_SKIP_NUM\<rparr>"
  define t where "t = s\<lparr>st_pool := p1\<lparr>st_at := (st_at p1)(d := ?d)\<rparr>\<rparr>"
  have at: "st_at (st_pool t) d = \<lparr>nr_entries = 0, max_entries = LOG_PAGE_TRACE_LEVEL, st_entries = lp,
      skip = int 8, st_next = st_next (st_at p1 d)\<rparr>" by (simp add: t_def)
  let ?w = "take LOG_PAGE_TRACE_LEVEL (drop 8 frames)"
  have tr: "?w @ drop (length ?w) (replicate LOG_PAGE_TRACE_LEVEL 0) = trace_of frames"
    by (simp add: trace_of_def Let_def)
  obtain e where walk: "fold (hw_save_stack_address d) frames t =
      t\<lparr>lp_pool := (lp_pool s)\<lparr>lp_at := (lp_at (lp_pool s))(lp := r\<lparr>entries := trace_of frames\<rparr>)\<rparr>,
        st_pool := (st_pool t)\<lparr>st_at := (st_at (st_pool t))(d := e)\<rparr>\<rparr>"
    using fold_hw_save [OF at, of frames] assms(3,4) tr
    by (fastforce simp: Let_def t_def simp del: length_take)
  let ?s' = "t\<lparr>lp_pool := (lp_pool s)\<lparr>lp_at := (lp_at (lp_pool s))(lp := r\<lparr>entries := trace_of frames,
      lp_module_info := modules_of ma mn (trace_of frames)\<rparr>)\<rparr>,
      st_pool := free_st d ((st_pool t)\<lparr>st_at := (st_at (st_pool t))(d := e)\<rparr>)\<rparr>"
  have "map (\<lambda>i. trace_of frames ! i) [0..<LOG_PAGE_TRACE_LEVEL] = trace_of frames"
    by (metis map_nth trace_of_length)
  then have "get_lp_call_stack ma mn frames lp s = Inr ?s'"
    using p1(1) assms(5)
    by (simp add: get_lp_call_stack_def t_def [symmetric] walk record_modules_fresh)
  moreover have "st_frees (st_pool ?s') sts"
    using d p1(2) sts by (auto simp: free_st_def t_def st_frees_upd intro!: stp.rel_frees)
  moreover have "st_slots (st_pool ?s') = st_slots (st_pool s)"
    using p1(3) by (simp add: free_st_def stp.rel_slots t_def)
  ultimately show ?thesis by (intro exI [of _ ?s']) simp
qed

end
