(* ===== verification/Log_Page.thy ===== *)
theory Log_Page
  imports Page_Index Call_Stack
begin

text \<open>
  The page log itself, mem_leak/kerspace/huawei_log_page.c: recording an allocation, taking a
  freed block out of the records, the lookup and the printing, and the kretprobe handlers.
\<close>

section \<open>State and kernel interface\<close>

text \<open>
  \<open>lp_root\<close> is the tree, \<open>ri_data\<close> the private data of the kretprobe instances in flight,
  \<open>console\<close> what was printed, oldest first.
\<close>

datatype log_line =
    Banner
  | Untracked
  | StartAddr u64
  | EndAddr u64
  | CallTrace
  | FrameLine nat u64
  | ModuleLine nat u64 string

record page_log =
  pl_pools :: pools
  lp_root :: "lp_ptr tree"
  ri_data :: "nat \<Rightarrow> lp_ptr option"
  console :: "log_line list"

record kernel =
  k_rb :: rb_ops
  module_address :: "u64 \<Rightarrow> u64"
  name_of_module :: "u64 \<Rightarrow> string"
  page_address :: "page_ptr \<Rightarrow> u64"
  PAGE_OFFSET :: u64

abbreviation records :: "page_log \<Rightarrow> lp_ptr \<Rightarrow> log_page_struct" where
  "records s \<equiv> lp_at (lp_pool (pl_pools s))"

definition put_pool :: "lp_pool_struct \<Rightarrow> page_log \<Rightarrow> page_log" where
  "put_pool p s = s\<lparr>pl_pools := (pl_pools s)\<lparr>lp_pool := p\<rparr>\<rparr>"

definition put_lp :: "lp_ptr \<Rightarrow> log_page_struct \<Rightarrow> page_log \<Rightarrow> page_log" where
  "put_lp lp r s =
     put_pool ((lp_pool (pl_pools s))\<lparr>lp_at := (records s)(lp := r)\<rparr>) s"

text \<open>\<open>page + (1 << order)\<close>: the shift is done in 32-bit \<open>int\<close>.\<close>

definition page_end :: "page_ptr \<Rightarrow> u32 \<Rightarrow> page_ptr" where
  "page_end page order = page + sint (push_bit (unat order) (1 :: 32 word))"

section \<open>Printing\<close>

definition print_log_page :: "kernel \<Rightarrow> log_page_struct option \<Rightarrow> log_line list" where
  "print_log_page K lp =
     (case lp of
        None \<Rightarrow> [Untracked]
      | Some lp \<Rightarrow>
          [StartAddr (page_address K (start_page lp) - PAGE_OFFSET K),
           EndAddr (page_address K (end_page lp) - PAGE_OFFSET K), CallTrace]
          @ map (\<lambda>i. FrameLine i (entries lp ! i)) [0..<LOG_PAGE_TRACE_LEVEL]
          @ map (\<lambda>i. ModuleLine i (mod_ptr (lp_module_info lp ! i)) (mod_name (lp_module_info lp ! i)))
              [0..<LOG_MODULE_MAX_NUM])"

definition printk :: "log_line list \<Rightarrow> page_log \<Rightarrow> page_log" where
  "printk ls s = s\<lparr>console := console s @ ls\<rparr>"

definition print_page :: "kernel \<Rightarrow> page_ptr \<Rightarrow> page_log \<Rightarrow> page_log" where
  "print_page K page s =
     printk (print_log_page K (map_option (records s) (find_lp (records s) page (lp_root s)))) s"

text \<open>
  \<open>rb_entry\<close> of the null pointer is not null, so the loop of \<open>print_log_page_all\<close> prints
  through an invalid pointer when the tree is empty.
\<close>

partial_function (option) print_loop :: "kernel \<Rightarrow> lp_ptr \<Rightarrow> page_log \<Rightarrow> page_log option" where
  "print_loop K lp s =
     (let s' = printk (print_log_page K (Some (records s lp))) s in
      case rb_next (k_rb K) lp (lp_root s) of
        None \<Rightarrow> Some s'
      | Some node \<Rightarrow> print_loop K node s')"

definition print_log_page_all :: "kernel \<Rightarrow> page_log \<Rightarrow> page_log result option" where
  "print_log_page_all K s =
     (case rb_first (k_rb K) (lp_root s) of
        None \<Rightarrow> Some (Inl NullDeref)
      | Some lp \<Rightarrow> map_option Inr (print_loop K lp s))"

section \<open>Recording an allocation\<close>

definition log_insert :: "kernel \<Rightarrow> lp_ptr \<Rightarrow> page_log \<Rightarrow> page_log" where
  "log_insert K lp s = s\<lparr>lp_root := log_page_insert (k_rb K) (records s) lp (lp_root s)\<rparr>"

definition do_log_page_alloc ::
  "kernel \<Rightarrow> u64 list \<Rightarrow> page_ptr \<Rightarrow> u32 \<Rightarrow> page_log \<Rightarrow> page_log result" where
  "do_log_page_alloc K frames page order s =
     (if page = 0 then Inr s
      else bind_result (alloc_lp (lp_pool (pl_pools s))) (\<lambda>(lp, pool).
           bind_result (get_lp_call_stack (module_address K) (name_of_module K) frames lp
                          ((pl_pools s)\<lparr>lp_pool := pool\<rparr>)) (\<lambda>ps.
             let s = s\<lparr>pl_pools := ps\<rparr>;
                 s = put_lp lp ((records s lp)\<lparr>start_page := page, end_page := page_end page order\<rparr>) s;
                 s = printk ([Banner] @ print_log_page K (Some (records s lp)) @ [Banner]) s
             in Inr (log_insert K lp s))))"

definition log_page_alloc ::
  "kernel \<Rightarrow> u64 list \<Rightarrow> page_ptr \<Rightarrow> u32 \<Rightarrow> page_log \<Rightarrow> page_log result" where
  "log_page_alloc K frames page order s = do_log_page_alloc K frames page order s"

text \<open>
  The entry handler of the kretprobe: the order is in the register \<open>si\<close>, of which the
  record keeps 32 bits.
\<close>

definition alloc_pages_nodemask_entry_handler ::
  "kernel \<Rightarrow> u64 list \<Rightarrow> nat \<Rightarrow> u64 \<Rightarrow> page_log \<Rightarrow> page_log result" where
  "alloc_pages_nodemask_entry_handler K frames ri si s =
     bind_result (alloc_lp (lp_pool (pl_pools s))) (\<lambda>(lp, pool).
       let pool = pool\<lparr>lp_at := (lp_at pool)(lp := (lp_at pool lp)\<lparr>lp_u := Order (ucast si)\<rparr>)\<rparr> in
       bind_result (get_lp_call_stack (module_address K) (name_of_module K) frames lp
                      ((pl_pools s)\<lparr>lp_pool := pool\<rparr>)) (\<lambda>ps.
         Inr (s\<lparr>pl_pools := ps, ri_data := (ri_data s)(ri := Some lp)\<rparr>)))"

definition log_page_alloc_with_lp :: "kernel \<Rightarrow> page_ptr \<Rightarrow> u32 \<Rightarrow> lp_ptr \<Rightarrow> page_log \<Rightarrow> page_log" where
  "log_page_alloc_with_lp K page order lp s =
     log_insert K lp
       (put_lp lp ((records s lp)\<lparr>start_page := page, end_page := page_end page order\<rparr>) s)"

definition alloc_pages_nodemask_ret_handler ::
  "kernel \<Rightarrow> nat \<Rightarrow> page_ptr \<Rightarrow> page_log \<Rightarrow> page_log result" where
  "alloc_pages_nodemask_ret_handler K ri retval s =
     (case ri_data s ri of
        None \<Rightarrow> Inl NullDeref
      | Some lp \<Rightarrow>
          if retval = 0 then Inr (put_pool (free_lp lp (lp_pool (pl_pools s))) s)
          else (case lp_u (records s lp) of
                  Next _ \<Rightarrow> Inl BadUnion
                | Order order \<Rightarrow> Inr (log_page_alloc_with_lp K retval order lp s)))"

definition log_alloc_pages_nodemask ::
  "kernel \<Rightarrow> u64 list \<Rightarrow> page_ptr \<Rightarrow> u32 \<Rightarrow> page_log \<Rightarrow> page_log result" where
  "log_alloc_pages_nodemask K frames page order s = log_page_alloc K frames page order s"

section \<open>Taking a freed block out\<close>

definition erase_lp :: "rb_ops \<Rightarrow> lp_ptr \<Rightarrow> page_log \<Rightarrow> page_log" where
  "erase_lp rb lp s =
     put_pool (free_lp lp (lp_pool (pl_pools s))) (s\<lparr>lp_root := rb_erase rb lp (lp_root s)\<rparr>)"

text \<open>
  One round of the loop: the new \<open>start\<close> and the new state. In case 2.3 the end of the range
  is read after the record went back to the pool.
\<close>

definition free_step :: "kernel \<Rightarrow> page_ptr \<Rightarrow> page_ptr \<Rightarrow> page_log \<Rightarrow> (page_ptr \<times> page_log) result" where
  "free_step K end start s =
     (case find_lp (records s) start (lp_root s) of
        None \<Rightarrow> Inr (start + 1, s)
      | Some lp \<Rightarrow>
          if start = start_page (records s lp) then
            (if end < end_page (records s lp) then
               Inr (end, put_lp lp ((records s lp)\<lparr>start_page := end\<rparr>) s)
             else if end = end_page (records s lp) then
               Inr (end, erase_lp (k_rb K) lp s)
             else
               (let s' = erase_lp (k_rb K) lp s in Inr (end_page (records s' lp), s')))
          else
            (if end < end_page (records s lp) then
               bind_result (alloc_lp (lp_pool (pl_pools s))) (\<lambda>(new_lp, pool).
                 let s = put_pool pool s;
                     s = put_lp new_lp (records s lp) s;
                     s = put_lp new_lp ((records s new_lp)
                           \<lparr>start_page := end, end_page := end_page (records s lp)\<rparr>) s;
                     s = put_lp lp ((records s lp)\<lparr>end_page := start\<rparr>) s
                 in Inr (start, log_insert K new_lp s))
             else if end = end_page (records s lp) then
               Inr (end, put_lp lp ((records s lp)\<lparr>end_page := start\<rparr>) s)
             else
               Inr (end_page (records s lp), put_lp lp ((records s lp)\<lparr>end_page := start\<rparr>) s)))"

partial_function (option) free_loop ::
  "kernel \<Rightarrow> page_ptr \<Rightarrow> page_ptr \<Rightarrow> page_log \<Rightarrow> page_log result option" where
  "free_loop K end start s =
     (case free_step K end start s of
        Inl e \<Rightarrow> Some (Inl e)
      | Inr (start', s') \<Rightarrow>
          if start' = end then Some (Inr s') else free_loop K end start' s')"

definition do_log_page_free ::
  "kernel \<Rightarrow> page_ptr \<Rightarrow> u32 \<Rightarrow> page_log \<Rightarrow> page_log result option" where
  "do_log_page_free K page order s = free_loop K (page_end page order) page s"

definition log_page_free :: "kernel \<Rightarrow> page_ptr \<Rightarrow> u32 \<Rightarrow> page_log \<Rightarrow> page_log result option" where
  "log_page_free K page order s = do_log_page_free K page order s"

text \<open>\<open>log_page\<close> dispatches on its action: \<open>ALLOC\<close> is 0, anything else frees.\<close>

definition log_page ::
  "kernel \<Rightarrow> u64 list \<Rightarrow> page_ptr \<Rightarrow> u32 \<Rightarrow> int \<Rightarrow> page_log \<Rightarrow> page_log result option" where
  "log_page K frames page order action s =
     (if action = 0 then Some (log_page_alloc K frames page order s)
      else log_page_free K page order s)"

text \<open>The handlers of the two jprobes, on \<open>__free_pages_ok\<close> and \<open>free_hot_cold_page\<close>.\<close>

definition jfree_pages_ok :: "kernel \<Rightarrow> page_ptr \<Rightarrow> u32 \<Rightarrow> page_log \<Rightarrow> page_log result option" where
  "jfree_pages_ok K page order s = log_page_free K page order s"

definition jfree_hot_cold_page :: "kernel \<Rightarrow> page_ptr \<Rightarrow> u32 \<Rightarrow> page_log \<Rightarrow> page_log result option" where
  "jfree_hot_cold_page K page order s = log_page_free K page order s"

end
