(* ===== verification/Log_Inv.thy ===== *)
theory Log_Inv
  imports Log_Page
begin

text \<open>
  The invariant of the page log and what its operations do to the owners of pages: the
  concrete records, tree and pools refine a map from pages to owners.
\<close>

section \<open>Invariant and abstraction\<close>

text \<open>
  \<open>held\<close> are the records that probe instances in flight have taken and not yet inserted.
  Every record is in the tree, held, or on the free list, once; a held record carries its
  order; no descriptor is out between operations.
\<close>

definition log_wf :: "lp_ptr list \<Rightarrow> page_log \<Rightarrow> bool" where
  "log_wf held s \<longleftrightarrow>
     ordered (records s) (inorder (lp_root s)) \<and>
     lpp.accounted (inorder (lp_root s) @ held) (lp_pool (pl_pools s)) \<and>
     stp.accounted [] (st_pool (pl_pools s)) \<and> st_slots (st_pool (pl_pools s)) \<noteq> {}"

definition log_inv :: "lp_ptr list \<Rightarrow> page_log \<Rightarrow> bool" where
  "log_inv held s \<longleftrightarrow>
     log_wf held s \<and> (\<forall>lp\<in>set held. \<exists>ord. lp_u (records s lp) = Order ord)"

definition owner :: "page_log \<Rightarrow> page_ptr \<Rightarrow> owner_info option" where
  "owner s = owner_of (records s) (inorder (lp_root s))"

text \<open>The pool has a record left.\<close>

definition pool_left :: "page_log \<Rightarrow> bool" where
  "pool_left s \<longleftrightarrow> (\<exists>p ps. lp_frees (lp_pool (pl_pools s)) (p # ps))"

section \<open>Writing records\<close>

lemma put_simps [simp]:
  "lp_pool (pl_pools (put_pool p s)) = p"
  "lp_root (put_pool p s) = lp_root s"
  "st_pool (pl_pools (put_pool p s)) = st_pool (pl_pools s)"
  "ri_data (put_pool p s) = ri_data s"
  "console (put_pool p s) = console s"
  "lp_pool (pl_pools (put_lp lp r s)) = (lp_pool (pl_pools s))\<lparr>lp_at := (records s)(lp := r)\<rparr>"
  "lp_root (put_lp lp r s) = lp_root s"
  "st_pool (pl_pools (put_lp lp r s)) = st_pool (pl_pools s)"
  "ri_data (put_lp lp r s) = ri_data s"
  "console (put_lp lp r s) = console s"
  by (simp_all add: put_pool_def put_lp_def)

lemma accounted_upd:
  assumes "p \<in> set out"
  shows "lpp.accounted out (pool\<lparr>lp_at := (lp_at pool)(p := r)\<rparr>) = lpp.accounted out pool"
proof -
  have "lp_frees (pool\<lparr>lp_at := (lp_at pool)(p := r)\<rparr>) ps = lp_frees pool ps"
    if "distinct (out @ ps)" for ps using assms that by (intro lp_frees_upd) auto
  then show ?thesis unfolding lpp.accounted_def by auto
qed

lemma u_alloc_lp_effect:
  "u_alloc_lp pool = Inr (lp, pool') \<Longrightarrow> lp_at pool' = (lp_at pool)(lp := zero_lp)"
  by (auto simp: u_alloc_lp_def split: option.splits lp_union.splits)

lemma u_free_lp_effect:
  "lp_at (u_free_lp lp pool) = (lp_at pool)(lp := (lp_at pool lp)\<lparr>lp_u := Next (lp_free pool)\<rparr>)"
  by (simp add: u_free_lp_def)

text \<open>Only ranges and contents of the listed records matter to the view of a list.\<close>

lemma ordered_cong:
  "(\<And>q. q \<in> set ps \<Longrightarrow> lp_range (at' q) = lp_range (at q)) \<Longrightarrow> ordered at' ps = ordered at ps"
  by (induction ps) (auto simp: ordered_Cons ordered_def)

lemma owner_of_cong:
  assumes "\<And>q. q \<in> set ps \<Longrightarrow> lp_range (at' q) = lp_range (at q) \<and> lp_info (at' q) = lp_info (at q)"
  shows "owner_of at' ps p = owner_of at ps p"
  using assms by (induction ps) (auto simp: owner_of_def)

section \<open>The rounds of the freeing loop\<close>

text \<open>Shrinking a record of the tree in place.\<close>

lemma log_wfD:
  assumes "log_wf held s"
  shows "ordered (records s) (inorder (lp_root s))"
    and "lpp.accounted (inorder (lp_root s) @ held) (lp_pool (pl_pools s))"
    and "distinct (inorder (lp_root s) @ held)"
    and "stp.accounted [] (st_pool (pl_pools s))"
    and "st_slots (st_pool (pl_pools s)) \<noteq> {}"
  using assms lpp.accounted_distinct [of "inorder (lp_root s) @ held" "lp_pool (pl_pools s)"]
  by (simp_all add: log_wf_def)

lemma shrink_log:
  assumes "log_wf held s" and "lp \<in> set_tree (lp_root s)" and "nonempty (lp_range r)"
    and "pages (lp_range r) \<subseteq> pages (lp_range (records s lp))" and "lp_info r = lp_info (records s lp)"
  shows "log_wf held (put_lp lp r s)"
    and "owner (put_lp lp r s) p =
      (if p \<in> pages (lp_range (records s lp)) - pages (lp_range r) then None else owner s p)"
proof -
  note wf = log_wfD [OF assms(1)]
  have "lpp.accounted (inorder (lp_root s) @ held)
      ((lp_pool (pl_pools s))\<lparr>lp_at := (records s)(lp := r)\<rparr>)"
    using wf(2) assms(2) by (subst accounted_upd) auto
  moreover have "ordered ((records s)(lp := r)) (inorder (lp_root s))"
    by (rule shrink_ordered [OF wf(1) assms(3)]) (rule assms(4))
  ultimately show "log_wf held (put_lp lp r s)"
    using wf(4,5) by (simp add: log_wf_def)
  show "owner (put_lp lp r s) p =
      (if p \<in> pages (lp_range (records s lp)) - pages (lp_range r) then None else owner s p)"
    using shrink_owner [OF wf(1), of lp r p] assms by (simp add: owner_def)
qed

lemma log_inv_put:
  assumes "log_inv held s" and "lp \<in> set_tree (lp_root s)" and "log_wf held (put_lp lp r s)"
  shows "log_inv held (put_lp lp r s)"
proof -
  have "lp \<notin> set held" using log_wfD(3) [of held s] assms(1,2) by (auto simp: log_inv_def)
  with assms(1,3) show ?thesis by (auto simp: log_inv_def)
qed

text \<open>Erasing a record and giving it back.\<close>

lemma erase_log:
  assumes "rb_laws rb" and "log_inv held s" and "lp \<in> set_tree (lp_root s)"
  shows "log_inv held (erase_lp rb lp s)"
    and "owner (erase_lp rb lp s) p =
      (if p \<in> pages (lp_range (records s lp)) then None else owner s p)"
    and "end_page (records (erase_lp rb lp s) lp) = end_page (records s lp)"
proof -
  let ?xs = "inorder (lp_root s)" and ?ys = "inorder (rb_erase rb lp (lp_root s))"
  let ?pool = "u_free_lp lp (lp_pool (pl_pools s))"
  have o: "ordered (records s) ?xs" and
    a: "lpp.accounted (?xs @ held) (lp_pool (pl_pools s))" and
    h: "\<forall>lp\<in>set held. \<exists>ord. lp_u (records s lp) = Order ord"
    using assms(2) by (auto simp: log_inv_def log_wf_def)
  have d: "distinct (?xs @ held)" by (rule lpp.accounted_distinct [OF a])
  then have ys: "?ys = remove1 lp ?xs" by (intro tree.del_listed [OF assms(1)]) auto
  have same: "lp_range (lp_at ?pool q) = lp_range (records s q) \<and> lp_info (lp_at ?pool q) = lp_info (records s q)" for q
    by (simp add: u_free_lp_def lp_range_def lp_info_def)
  have "ordered (records s) ?ys"
    by (rule tree.owner_del(1) [OF assms(1) o]) (use assms(3) in simp)
  moreover have "ordered (lp_at ?pool) ?ys \<longleftrightarrow> ordered (records s) ?ys"
    by (rule ordered_cong) (simp add: same)
  moreover have "lpp.accounted (remove1 lp (?xs @ held)) ?pool"
    using a assms(3) by (intro lpp.rel_accounted) auto
  then have "lpp.accounted (?ys @ held) ?pool"
    using assms(3) by (simp add: ys remove1_append)
  moreover have "lp \<notin> set held" using d assms(3) by auto
  ultimately show "log_inv held (erase_lp rb lp s)"
    using assms(2) h by (auto simp: log_inv_def log_wf_def erase_lp_def free_lp_def u_free_lp_effect)
  have "owner_of (lp_at ?pool) ?ys p = owner_of (records s) ?ys p"
    by (rule owner_of_cong) (simp add: same)
  with tree.owner_del(2) [OF assms(1) o, of lp p] assms(3)
  show "owner (erase_lp rb lp s) p =
      (if p \<in> pages (lp_range (records s lp)) then None else owner s p)"
    by (simp add: owner_def erase_lp_def free_lp_def)
  show "end_page (records (erase_lp rb lp s) lp) = end_page (records s lp)"
    by (simp add: erase_lp_def free_lp_def u_free_lp_def)
qed

text \<open>Taking a record from the pool.\<close>

lemma alloc_log:
  assumes "log_wf held s" and "pool_left s"
  shows "\<exists>lp pool. alloc_lp (lp_pool (pl_pools s)) = Inr (lp, pool) \<and>
    lp \<notin> set_tree (lp_root s) \<and> lp \<notin> set held \<and> lp_at pool = (records s)(lp := zero_lp) \<and>
    lpp.accounted (inorder (lp_root s) @ lp # held) pool"
proof -
  have a: "lpp.accounted (inorder (lp_root s) @ held) (lp_pool (pl_pools s))"
    using assms(1) by (simp add: log_wf_def)
  from assms(2) have "u_alloc_lp (lp_pool (pl_pools s)) \<noteq> Inl NullDeref"
    by (auto simp: pool_left_def dest: lpp.alloc_Cons)
  with a have "set (inorder (lp_root s) @ held) \<noteq> lp_slots (lp_pool (pl_pools s))"
    by (simp add: lpp.alloc_fails_iff)
  from lpp.alloc_accounted [OF a this] obtain lp pool where
    al: "u_alloc_lp (lp_pool (pl_pools s)) = Inr (lp, pool)" and
    lp: "lp \<notin> set_tree (lp_root s)" "lp \<notin> set held" and
    acc: "lpp.accounted (lp # inorder (lp_root s) @ held) pool" by auto
  from lpp.accounted_cong [OF acc, of "inorder (lp_root s) @ lp # held"]
    lpp.accounted_distinct [OF acc]
  have "lpp.accounted (inorder (lp_root s) @ lp # held) pool" by auto
  with al lp u_alloc_lp_effect [OF al] show ?thesis by (auto simp: alloc_lp_def)
qed

lemma pool_left_iff:
  "log_wf held s \<Longrightarrow>
    pool_left s \<longleftrightarrow> set_tree (lp_root s) \<union> set held \<noteq> lp_slots (lp_pool (pl_pools s))"
proof -
  assume "log_wf held s"
  then have a: "lpp.accounted (inorder (lp_root s) @ held) (lp_pool (pl_pools s))"
    by (simp add: log_wf_def)
  then obtain ps where ps: "lp_frees (lp_pool (pl_pools s)) ps" by (auto simp: lpp.accounted_def)
  have "pool_left s \<longleftrightarrow> u_alloc_lp (lp_pool (pl_pools s)) \<noteq> Inl NullDeref"
  proof (cases ps)
    case Nil
    with ps have "\<not> pool_left s" using lpp.frees_unique by (fastforce simp: pool_left_def)
    with Nil ps show ?thesis by (simp add: lpp.alloc_Nil)
  next
    case (Cons q qs)
    with ps have "lp_frees (lp_pool (pl_pools s)) (q # qs)" by simp
    from lpp.alloc_Cons [OF this] this show ?thesis by (auto simp: pool_left_def)
  qed
  then show ?thesis using lpp.alloc_fails_iff [OF a] by simp
qed

text \<open>Linking a prepared record into the tree.\<close>

lemma insert_log:
  assumes "rb_laws (k_rb K)" and "log_wf (lp # held) s" and "nonempty (lp_range (records s lp))"
    and "\<And>p. p \<in> pages (lp_range (records s lp)) \<Longrightarrow> owner s p = None"
  shows "log_wf held (log_insert K lp s)"
    and "owner (log_insert K lp s) p =
      (if p \<in> pages (lp_range (records s lp)) then Some (lp_info (records s lp)) else owner s p)"
proof -
  let ?t = "lp_root s" and ?t' = "log_page_insert (k_rb K) (records s) lp (lp_root s)"
  have o: "ordered (records s) (inorder ?t)" and
    a: "lpp.accounted (inorder ?t @ lp # held) (lp_pool (pl_pools s))"
    using assms(2) by (auto simp: log_wf_def)
  note ins = tree.owner_ins [where e = "k_rb K" and t = ?t and q = lp, OF assms(1) o assms(3)]
  have "ordered (records s) (inorder ?t')"
    by (rule ins(1)) (use assms(4) in \<open>simp add: owner_def\<close>)
  moreover from this have "distinct (inorder ?t')" by (rule ordered_distinct)
  moreover have "set_tree ?t' = insert lp (set_tree ?t)"
    using tree.ins_set [OF assms(1), of "records s" lp ?t] by simp
  ultimately show "log_wf held (log_insert K lp s)"
    using assms(2) a lpp.accounted_distinct [OF a]
    by (auto simp: log_wf_def log_insert_def intro!: lpp.accounted_cong [OF a])
  show "owner (log_insert K lp s) p =
      (if p \<in> pages (lp_range (records s lp)) then Some (lp_info (records s lp)) else owner s p)"
    using ins(2) [of p] assms(4) by (simp add: owner_def log_insert_def)
qed

text \<open>
  Case 3.1 of the loop: the block is cut out of the middle of a record. The record keeps the
  part before it, a new record takes the part after it.
\<close>

lemma split_log:
  assumes "rb_laws (k_rb K)" and "log_inv held s" and "pool_left s"
    and "lp \<in> set_tree (lp_root s)"
    and "start_page (records s lp) < start" and "start < end" and "end < end_page (records s lp)"
  shows "\<exists>s'. free_step K end start s = Inr (start, s') \<and> log_inv held s' \<and>
    (\<forall>p. owner s' p = (if start \<le> p \<and> p < end then None else owner s p))"
proof -
  let ?r = "records s lp"
  have wf: "log_wf held s" and h: "\<forall>lp\<in>set held. \<exists>ord. lp_u (records s lp) = Order ord"
    using assms(2) by (auto simp: log_inv_def)
  from alloc_log [OF wf assms(3)] obtain new pool where
    al: "alloc_lp (lp_pool (pl_pools s)) = Inr (new, pool)" and
    new: "new \<notin> set_tree (lp_root s)" "new \<notin> set held" and
    at: "lp_at pool = (records s)(new := zero_lp)" and
    acc: "lpp.accounted (inorder (lp_root s) @ new # held) pool" by blast
  have ne: "new \<noteq> lp" using new(1) assms(4) by auto
  define s1 where "s1 = put_lp new (?r\<lparr>start_page := end\<rparr>) (put_pool pool s)"
  define s2 where "s2 = put_lp lp (?r\<lparr>end_page := start\<rparr>) s1"
  have same: "records s1 q = records s q" if "q \<in> set_tree (lp_root s)" for q
    using that new(1) by (auto simp: s1_def at)
  have root1: "lp_root s1 = lp_root s" by (simp add: s1_def)
  have "ordered (records s1) (inorder (lp_root s)) \<longleftrightarrow> ordered (records s) (inorder (lp_root s))"
    by (rule ordered_cong) (simp add: same)
  moreover have "lpp.accounted (inorder (lp_root s1) @ new # held) (lp_pool (pl_pools s1))"
    using acc by (simp add: s1_def accounted_upd)
  ultimately have wf1: "log_wf (new # held) s1"
    using log_wfD(1,4,5) [OF wf] by (simp add: log_wf_def root1) (simp add: s1_def)
  have own1: "owner s1 p = owner s p" for p
    unfolding owner_def root1 by (rule owner_of_cong) (simp add: same)
  have rng: "lp_range (records s1 lp) = lp_range ?r" "lp_info (records s1 lp) = lp_info ?r"
    using same [OF assms(4)] by simp_all
  note shr = shrink_log [where r = "?r\<lparr>end_page := start\<rparr>" and lp = lp, OF wf1]
  have wf2: "log_wf (new # held) s2" unfolding s2_def
    by (rule shr(1)) (use assms(4-7) rng in \<open>auto simp: root1 nonempty_def mem_pages lp_info_def\<close>)
  have own2: "owner s2 p = (if start \<le> p \<and> p < end_page ?r then None else owner s p)" for p
    unfolding s2_def
    by (subst shr(2)) (use assms(4-7) rng own1 in \<open>auto simp: root1 nonempty_def mem_pages lp_info_def\<close>)
  have new2: "records s2 new = ?r\<lparr>start_page := end\<rparr>"
    using ne by (simp add: s2_def s1_def)
  have own_lp: "owner s p = Some (lp_info ?r)" if "p \<in> pages (lp_range ?r)" for p
    unfolding owner_def by (rule owner_of_Some [OF log_wfD(1) [OF wf]]) (use assms(4) that in auto)
  note ins = insert_log [OF assms(1) wf2]
  have wf3: "log_wf held (log_insert K new s2)"
    by (rule ins(1)) (use assms(7) own2 assms(6) in \<open>auto simp: new2 nonempty_def mem_pages\<close>)
  have own3: "owner (log_insert K new s2) p = (if start \<le> p \<and> p < end then None else owner s p)" for p
    by (subst ins(2)) (use assms(5-7) own2 own_lp in \<open>auto simp: new2 nonempty_def mem_pages lp_info_def\<close>)
  have "lp \<notin> set held" using log_wfD(3) [OF wf] assms(4) by auto
  then have inv3: "log_inv held (log_insert K new s2)"
    using wf3 h new(2) by (auto simp: log_inv_def log_insert_def s2_def s1_def at)
  have fnd: "find_lp (records s) start (lp_root s) = Some lp"
    using assms(4-7) by (simp add: find_lp_iff [OF log_wfD(1) [OF wf]] mem_pages)
  have "free_step K end start s = Inr (start, log_insert K new s2)"
    using assms(5-7) al ne at
    by (simp add: free_step_def fnd s2_def s1_def put_lp_def put_pool_def fun_upd_twist)
  with inv3 own3 show ?thesis by blast
qed

text \<open>What a round leaves alone: the records in flight, the descriptors, the console.\<close>

definition frame :: "lp_ptr list \<Rightarrow> page_log \<Rightarrow> page_log \<Rightarrow> bool" where
  "frame held s s' \<longleftrightarrow>
     (\<forall>q\<in>set held. records s' q = records s q) \<and> ri_data s' = ri_data s \<and> console s' = console s \<and>
     st_pool (pl_pools s') = st_pool (pl_pools s) \<and>
     lp_slots (lp_pool (pl_pools s')) = lp_slots (lp_pool (pl_pools s))"

lemma frame_refl [simp]: "frame held s s"
  by (simp add: frame_def)

lemma frame_trans: "frame held s s' \<Longrightarrow> frame held s' s'' \<Longrightarrow> frame held s s''"
  by (simp add: frame_def)

lemma frame_put: "lp \<notin> set held \<Longrightarrow> frame held s (put_lp lp r s)"
  by (simp add: frame_def lp_slots_def)

lemma frame_erase: "lp \<notin> set held \<Longrightarrow> frame held s (erase_lp rb lp s)"
  by (simp add: frame_def erase_lp_def free_lp_def u_free_lp_def put_pool_def lp_slots_def)

lemma frame_insert: "frame held s (log_insert K lp s)"
  by (simp add: frame_def log_insert_def)

lemma frame_alloc: "alloc_lp (lp_pool (pl_pools s)) = Inr (lp, pool) \<Longrightarrow> lp \<notin> set held \<Longrightarrow>
    frame held s (put_pool pool s)"
  by (auto simp: frame_def alloc_lp_def u_alloc_lp_def lp_slots_def split: option.splits lp_union.splits)

lemma alloc_not_held:
  assumes "log_wf held s" and "alloc_lp (lp_pool (pl_pools s)) = Inr (lp, pool)"
  shows "lp \<notin> set held"
proof -
  note acc = log_wfD(2) [OF assms(1)]
  have "u_alloc_lp (lp_pool (pl_pools s)) \<noteq> Inl NullDeref"
    using assms(2) by (simp add: alloc_lp_def)
  then have "set (inorder (lp_root s) @ held) \<noteq> lp_slots (lp_pool (pl_pools s))"
    by (simp only: lpp.alloc_fails_iff [OF acc] not_False_eq_True)
  with acc show ?thesis using lpp.alloc_accounted assms(2) by (fastforce simp: alloc_lp_def)
qed

lemma free_step_frame:
  assumes "log_wf held s" and "free_step K end start s = Inr (start', s')"
  shows "frame held s s'"
proof (cases "find_lp (records s) start (lp_root s)")
  case None
  with assms(2) show ?thesis by (simp add: free_step_def)
next
  case (Some lp)
  then have "lp \<in> set_tree (lp_root s)" by (simp add: find_lp_iff [OF log_wfD(1) [OF assms(1)]])
  with log_wfD(3) [OF assms(1)] have lp: "lp \<notin> set held" by auto
  from Some assms(2) lp show ?thesis
    by (auto simp: free_step_def Let_def frame_put frame_erase bind_result_Inr
        dest: alloc_not_held [OF assms(1)] split: if_splits
        intro!: frame_trans [OF _ frame_insert] frame_trans [OF _ frame_put] frame_alloc)
qed

text \<open>The block lies strictly inside one record, so that freeing it splits the record.\<close>

definition inside_one :: "page_log \<Rightarrow> page_ptr \<Rightarrow> page_ptr \<Rightarrow> bool" where
  "inside_one s start end \<longleftrightarrow>
     (\<exists>q\<in>set_tree (lp_root s). start_page (records s q) < start \<and> end < end_page (records s q))"

text \<open>One round in the cases that do not split (1, 2.1, 2.2, 2.3, 3.2 and 3.3 of the source).\<close>

text \<open>The three ways a record found at \<open>start\<close> loses pages: at its front, at its back, altogether.\<close>

lemma round_front:
  assumes "log_inv held s" and lp: "lp \<in> set_tree (lp_root s)" and "start = start_page (records s lp)"
    and "start < end" and "end < end_page (records s lp)"
  shows "log_inv held (put_lp lp (records s lp\<lparr>start_page := end\<rparr>) s)"
    and "owner (put_lp lp (records s lp\<lparr>start_page := end\<rparr>) s) p =
      (if start \<le> p \<and> p < end then None else owner s p)"
proof -
  let ?r = "records s lp\<lparr>start_page := end\<rparr>"
  have "log_wf held s" using assms(1) by (simp add: log_inv_def)
  note shr = shrink_log [where r = ?r and lp = lp, OF this lp]
  have "log_wf held (put_lp lp ?r s)"
    by (rule shr(1)) (use assms(3-5) in \<open>auto simp: nonempty_def mem_pages lp_info_def\<close>)
  then show "log_inv held (put_lp lp ?r s)" by (rule log_inv_put [OF assms(1) lp])
  show "owner (put_lp lp ?r s) p = (if start \<le> p \<and> p < end then None else owner s p)"
    by (subst shr(2)) (use assms(3-5) in \<open>auto simp: nonempty_def mem_pages lp_info_def\<close>)
qed

lemma round_back:
  assumes "log_inv held s" and lp: "lp \<in> set_tree (lp_root s)" and "start_page (records s lp) < start"
    and "start < end_page (records s lp)"
  shows "log_inv held (put_lp lp (records s lp\<lparr>end_page := start\<rparr>) s)"
    and "owner (put_lp lp (records s lp\<lparr>end_page := start\<rparr>) s) p =
      (if start \<le> p \<and> p < end_page (records s lp) then None else owner s p)"
proof -
  let ?r = "records s lp\<lparr>end_page := start\<rparr>"
  have "log_wf held s" using assms(1) by (simp add: log_inv_def)
  note shr = shrink_log [where r = ?r and lp = lp, OF this lp]
  have "log_wf held (put_lp lp ?r s)"
    by (rule shr(1)) (use assms(3,4) in \<open>auto simp: nonempty_def mem_pages lp_info_def\<close>)
  then show "log_inv held (put_lp lp ?r s)" by (rule log_inv_put [OF assms(1) lp])
  show "owner (put_lp lp ?r s) p = (if start \<le> p \<and> p < end_page (records s lp) then None else owner s p)"
    by (subst shr(2)) (use assms(3,4) in \<open>auto simp: nonempty_def mem_pages lp_info_def\<close>)
qed

lemma round_whole:
  assumes "rb_laws (k_rb K)" and "log_inv held s" and "lp \<in> set_tree (lp_root s)"
    and "start = start_page (records s lp)"
  shows "owner (erase_lp (k_rb K) lp s) p =
    (if start \<le> p \<and> p < end_page (records s lp) then None else owner s p)"
  by (subst erase_log(2) [OF assms(1-3)]) (use assms(4) in \<open>auto simp: mem_pages\<close>)

lemma round_log:
  assumes "rb_laws (k_rb K)" and "log_inv held s" and "start < end"
    and "\<not> inside_one s start end"
  shows "\<exists>start' s'. free_step K end start s = Inr (start', s') \<and> log_inv held s' \<and>
    start < start' \<and> start' \<le> end \<and>
    (\<forall>p. owner s' p = (if start \<le> p \<and> p < start' then None else owner s p))"
proof (cases "find_lp (records s) start (lp_root s)")
  case None
  have "log_wf held s" using assms(2) by (simp add: log_inv_def)
  note o = log_wfD(1) [OF this]
  from None have "owner s start = None"
    by (simp add: owner_def tree.owner_look [OF o])
  then have "owner s p = (if start \<le> p \<and> p < start + 1 then None else owner s p)" for p
    by (cases "p = start") auto
  with None assms(2,3) show ?thesis
    by (intro exI [of _ "start + 1"] exI [of _ s]) (auto simp: free_step_def)
next
  case (Some lp)
  let ?r = "records s lp"
  have wf: "log_wf held s" using assms(2) by (simp add: log_inv_def)
  from Some have lp: "lp \<in> set_tree (lp_root s)" and
    range: "start_page ?r \<le> start" "start < end_page ?r"
    by (simp_all add: find_lp_iff [OF log_wfD(1) [OF wf]] mem_pages)
  have cut: "\<not> (start_page ?r < start \<and> end < end_page ?r)"
    using assms(4) lp by (auto simp: inside_one_def)
  consider (front) "start = start_page ?r" "end < end_page ?r"
    | (whole) "start = start_page ?r" "end = end_page ?r"
    | (more) "start = start_page ?r" "end_page ?r < end"
    | (rear) "start_page ?r < start" "end_page ?r \<le> end"
    using range cut by force
  then show ?thesis
  proof cases
    case front
    note fr = round_front [OF assms(2) lp front(1) assms(3) front(2)]
    from fr Some front assms(3) show ?thesis
      by (intro exI [of _ "end"] exI [of _ "put_lp lp (?r\<lparr>start_page := end\<rparr>) s"]) (simp add: free_step_def)
  next
    case whole
    from round_whole [OF assms(1,2) lp whole(1)] erase_log(1) [OF assms(1,2) lp] Some whole assms(3) show ?thesis
      by (intro exI [of _ "end"] exI [of _ "erase_lp (k_rb K) lp s"]) (simp add: free_step_def)
  next
    case more
    from round_whole [OF assms(1,2) lp more(1)] erase_log(1,3) [OF assms(1,2) lp] Some more range(2) show ?thesis
      by (intro exI [of _ "end_page ?r"] exI [of _ "erase_lp (k_rb K) lp s"]) (auto simp: free_step_def Let_def)
  next
    case rear
    note bk = round_back [OF assms(2) lp rear(1) range(2)]
    from bk Some rear range(2) show ?thesis
      by (intro exI [of _ "end_page ?r"] exI [of _ "put_lp lp (?r\<lparr>end_page := start\<rparr>) s"])
        (auto simp: free_step_def)
  qed
qed

section \<open>The whole loop\<close>

text \<open>
  From a start whose page before is not in the same record (always so after the first round)
  no record is split, so the loop needs nothing from the pool.
\<close>

lemma not_inside_one:
  assumes "log_wf held s" and "start < end"
    and "\<And>q. q \<in> set_tree (lp_root s) \<Longrightarrow> start \<in> pages (lp_range (records s q)) \<Longrightarrow>
      start - 1 \<notin> pages (lp_range (records s q))"
  shows "\<not> inside_one s start end"
proof
  assume "inside_one s start end"
  then obtain q where "q \<in> set_tree (lp_root s)" "start_page (records s q) < start"
    "end < end_page (records s q)" by (auto simp: inside_one_def)
  with assms(2) assms(3) [of q] show False by (auto simp: mem_pages)
qed

lemma owner_None_iff:
  "log_wf held s \<Longrightarrow>
    owner s p = None \<longleftrightarrow> (\<forall>q\<in>set_tree (lp_root s). p \<notin> pages (lp_range (records s q)))"
  by (simp add: owner_def owner_of_None)

lemma free_loop_owner:
  assumes "rb_laws (k_rb K)" and "log_inv held s" and "start < end"
    and "\<not> inside_one s start end"
  shows "\<exists>s'. free_loop K end start s = Some (Inr s') \<and> log_inv held s' \<and> frame held s s' \<and>
    (\<forall>p. owner s' p = (if start \<le> p \<and> p < end then None else owner s p))"
  using assms(2-)
proof (induction "nat (end - start)" arbitrary: start s rule: less_induct)
  case less
  from round_log [OF assms(1) less.prems] obtain start' s' where
    step: "free_step K end start s = Inr (start', s')" "log_inv held s'" "start < start'" "start' \<le> end" and
    own: "\<And>p. owner s' p = (if start \<le> p \<and> p < start' then None else owner s p)" by blast
  have "log_wf held s" using less.prems(1) by (simp add: log_inv_def)
  then have fr: "frame held s s'" using step(1) by (rule free_step_frame)
  show ?case
  proof (cases "start' = end")
    case True
    with step own fr show ?thesis by (subst free_loop.simps) auto
  next
    case False
    have wf: "log_wf held s'" using step(2) by (simp add: log_inv_def)
    have "owner s' (start' - 1) = None" using own step(3) by auto
    then have "\<not> inside_one s' start' end"
      using step(4) False by (intro not_inside_one [OF wf]) (auto simp: owner_None_iff [OF wf])
    with less.hyps [of start' s'] step False obtain s'' where
      "free_loop K end start' s' = Some (Inr s'')" "log_inv held s''" "frame held s' s''"
      "\<forall>p. owner s'' p = (if start' \<le> p \<and> p < end then None else owner s' p)" by auto
    with step own False frame_trans [OF fr] show ?thesis by (subst free_loop.simps) auto
  qed
qed

lemma free_block_owner:
  assumes "rb_laws (k_rb K)" and "log_inv held s" and "start < end"
    and "inside_one s start end \<Longrightarrow> pool_left s"
  shows "\<exists>s'. free_loop K end start s = Some (Inr s') \<and> log_inv held s' \<and> frame held s s' \<and>
    (\<forall>p. owner s' p = (if start \<le> p \<and> p < end then None else owner s p))"
proof (cases "inside_one s start end")
  case False
  with assms free_loop_owner show ?thesis by blast
next
  case True
  then obtain lp where lp: "lp \<in> set_tree (lp_root s)" "start_page (records s lp) < start"
    "end < end_page (records s lp)" by (auto simp: inside_one_def)
  from split_log [OF assms(1,2) assms(4) [OF True] lp(1,2) assms(3) lp(3)] obtain s1 where
    s1: "free_step K end start s = Inr (start, s1)" "log_inv held s1"
      "\<forall>p. owner s1 p = (if start \<le> p \<and> p < end then None else owner s p)" by blast
  then have wf: "log_wf held s1" by (simp add: log_inv_def)
  have "owner s1 start = None" using s1(3) assms(3) by simp
  then have "\<not> inside_one s1 start end"
    using assms(3) by (auto simp: owner_None_iff [OF wf] inside_one_def mem_pages)
  have "log_wf held s" using assms(2) by (simp add: log_inv_def)
  then have fr: "frame held s s1" using s1(1) by (rule free_step_frame)
  from free_loop_owner [OF assms(1) s1(2) assms(3) \<open>\<not> inside_one s1 start end\<close>] obtain s2 where
    "free_loop K end start s1 = Some (Inr s2)" "log_inv held s2" "frame held s1 s2"
    "\<forall>p. owner s2 p = (if start \<le> p \<and> p < end then None else owner s1 p)" by blast
  with s1 assms(3) frame_trans [OF fr] show ?thesis
    by (subst free_loop.simps) auto
qed

text \<open>An exhausted pool makes the split dereference the null pointer.\<close>

lemma free_step_exhausted:
  assumes "log_inv held s" and "start < end" and "inside_one s start end" and "\<not> pool_left s"
  shows "free_step K end start s = Inl NullDeref"
proof -
  have wf: "log_wf held s" using assms(1) by (simp add: log_inv_def)
  from assms(3) obtain lp where lp: "lp \<in> set_tree (lp_root s)" "start_page (records s lp) < start"
    "end < end_page (records s lp)" by (auto simp: inside_one_def)
  with assms(2) have "find_lp (records s) start (lp_root s) = Some lp"
    by (simp add: find_lp_iff [OF log_wfD(1) [OF wf]] mem_pages)
  moreover have "u_alloc_lp (lp_pool (pl_pools s)) = Inl NullDeref"
    using lpp.alloc_fails_iff [OF log_wfD(2) [OF wf]] pool_left_iff [OF wf] assms(4) by simp
  ultimately show ?thesis using lp(2,3) by (simp add: free_step_def alloc_lp_def)
qed

lemma free_block_exhausted:
  assumes "log_inv held s" and "start < end" and "inside_one s start end" and "\<not> pool_left s"
  shows "free_loop K end start s = Some (Inl NullDeref)"
  by (subst free_loop.simps) (simp add: free_step_exhausted [OF assms])

end
