(* ===== verification/Log_Probe.thy ===== *)
theory Log_Probe
  imports Log_Inv
begin

text \<open>
  The kprobe handlers of the page log as the steps of a machine, mem_leak/kerspace/
  huawei_log_page.c: a kretprobe instance takes a record when \<open>__alloc_pages_nodemask\<close> is
  entered and hands it to the tree (or back to the pool) when it returns; the jprobes on the
  freeing functions take freed blocks out. The machine refines a map from pages to owners.
\<close>

section \<open>The size of a block\<close>

lemma sint_shift: "n < 31 \<Longrightarrow> sint (2 ^ n :: 32 word) = 2 ^ n"
proof -
  assume n: "n < 31"
  have "(2::int) ^ n < 2 ^ 31" by (rule power_strict_increasing) (use n in auto)
  then have "signed_take_bit 31 ((2::int) ^ n) = 2 ^ n"
    by (simp add: signed_take_bit_int_eq_self_iff order_trans [OF _ zero_le_power])
  moreover have "sint (word_of_int (2 ^ n) :: 32 word) = signed_take_bit 31 (2 ^ n)"
    by (subst signed_of_int) simp
  ultimately show ?thesis by simp
qed

lemma page_end_eq: "unat order < 31 \<Longrightarrow> page_end page order = page + 2 ^ unat order"
  by (simp add: page_end_def sint_shift)

lemma page_end_gt: "unat order < 31 \<Longrightarrow> page < page_end page order"
  by (simp add: page_end_eq)

section \<open>The handlers\<close>

text \<open>A free descriptor is there between operations, so the trace can be taken.\<close>

lemma st_left:
  assumes "stp.accounted [] p" and "st_slots p \<noteq> {}"
  shows "\<exists>sts. st_frees p sts \<and> sts \<noteq> []"
  using assms by (fastforce simp: stp.accounted_def)

lemma get_trace:
  assumes "stp.accounted [] (st_pool ps)" and "st_slots (st_pool ps) \<noteq> {}"
    and "lp_at (lp_pool ps) lp = r"
    and "entries r = replicate LOG_PAGE_TRACE_LEVEL 0"
    and "lp_module_info r = replicate LOG_MODULE_MAX_NUM no_module"
  shows "\<exists>ps'. get_lp_call_stack ma mn frames lp ps = Inr ps' \<and>
    stp.accounted [] (st_pool ps') \<and> st_slots (st_pool ps') = st_slots (st_pool ps) \<and>
    lp_pool ps' = (lp_pool ps)\<lparr>lp_at := (lp_at (lp_pool ps))(lp :=
      r\<lparr>entries := trace_of frames, lp_module_info := modules_of ma mn (trace_of frames)\<rparr>)\<rparr>"
proof -
  from assms(1) obtain sts where
    sts: "st_frees (st_pool ps) sts" "distinct sts" "set sts = st_slots (st_pool ps)"
    by (auto simp: stp.accounted_def)
  with assms(2) have "sts \<noteq> []" by auto
  from get_lp_call_stack_fresh [OF sts(1) this assms(3-5)] obtain ps' where
    "get_lp_call_stack ma mn frames lp ps = Inr ps'" "st_frees (st_pool ps') sts"
    "st_slots (st_pool ps') = st_slots (st_pool ps)"
    "lp_pool ps' = (lp_pool ps)\<lparr>lp_at := (lp_at (lp_pool ps))(lp :=
      r\<lparr>entries := trace_of frames, lp_module_info := modules_of ma mn (trace_of frames)\<rparr>)\<rparr>"
    by blast
  with sts show ?thesis by (auto intro!: exI [of _ ps'] stp.accountedI)
qed

abbreviation trace_info :: "kernel \<Rightarrow> u64 list \<Rightarrow> owner_info" where
  "trace_info K frames \<equiv>
     (trace_of frames, modules_of (module_address K) (name_of_module K) (trace_of frames))"

text \<open>On entry a record is taken, and it carries the order and the trace of the caller.\<close>

lemma record_taken:
  assumes wf: "log_wf held s"
    and lp: "lp \<notin> set_tree (lp_root s)" "lp \<notin> set held"
    and acc: "lpp.accounted (inorder (lp_root s) @ lp # held) pool"
    and pool: "lp_at pool = (records s)(lp := zero_lp)" "lp_pool ps = pool\<lparr>lp_at := (records s)(lp := r)\<rparr>"
    and st: "stp.accounted [] (st_pool ps)" "st_slots (st_pool ps) = st_slots (st_pool (pl_pools s))"
    and s': "s' = s\<lparr>pl_pools := ps, ri_data := d\<rparr>"
  shows "log_wf (lp # held) s'" and "owner s' = owner s"
proof -
  have at: "records s' = (records s)(lp := r)" by (simp add: s' pool)
  have "ordered (records s') (inorder (lp_root s)) = ordered (records s) (inorder (lp_root s))"
    by (rule ordered_cong) (use lp(1) in \<open>auto simp: at\<close>)
  moreover have "lp_pool (pl_pools s') = pool\<lparr>lp_at := (lp_at pool)(lp := r)\<rparr>" by (simp add: s' pool)
  then have "lpp.accounted (inorder (lp_root s) @ lp # held) (lp_pool (pl_pools s'))"
    using acc by (simp add: accounted_upd)
  ultimately show "log_wf (lp # held) s'"
    using log_wfD(1,5) [OF wf] st by (simp add: log_wf_def s')
  have "owner_of (records s') (inorder (lp_root s)) p = owner_of (records s) (inorder (lp_root s)) p" for p
    by (rule owner_of_cong) (use lp(1) in \<open>auto simp: at\<close>)
  then show "owner s' = owner s" by (simp add: owner_def fun_eq_iff) (simp add: s')
qed

lemma entry_handler_log:
  assumes "log_inv held s" and "pool_left s"
  shows "\<exists>lp s'. alloc_pages_nodemask_entry_handler K frames ri si s = Inr s' \<and>
    log_inv (lp # held) s' \<and> lp \<notin> set held \<and>
    ri_data s' = (ri_data s)(ri := Some lp) \<and> owner s' = owner s \<and>
    (\<forall>q\<in>set held. records s' q = records s q) \<and>
    lp_u (records s' lp) = Order (ucast si) \<and> lp_info (records s' lp) = trace_info K frames \<and>
    end_page (records s' lp) = 0 \<and> (\<exists>pool. alloc_lp (lp_pool (pl_pools s)) = Inr (lp, pool)) \<and>
    lp_slots (lp_pool (pl_pools s')) = lp_slots (lp_pool (pl_pools s))"
proof -
  have wf: "log_wf held s" and h: "\<forall>lp\<in>set held. \<exists>ord. lp_u (records s lp) = Order ord"
    using assms(1) by (auto simp: log_inv_def)
  from alloc_log [OF wf assms(2)] obtain lp pool where
    al: "alloc_lp (lp_pool (pl_pools s)) = Inr (lp, pool)" and
    lp: "lp \<notin> set_tree (lp_root s)" "lp \<notin> set held" and
    at: "lp_at pool = (records s)(lp := zero_lp)" and
    acc: "lpp.accounted (inorder (lp_root s) @ lp # held) pool" by blast
  let ?pool = "pool\<lparr>lp_at := (lp_at pool)(lp := zero_lp\<lparr>lp_u := Order (ucast si)\<rparr>)\<rparr>"
  let ?lp = "zero_lp\<lparr>lp_u := Order (ucast si), entries := trace_of frames,
    lp_module_info := modules_of (module_address K) (name_of_module K) (trace_of frames)\<rparr>"
  have "\<exists>ps'. get_lp_call_stack (module_address K) (name_of_module K) frames lp
        ((pl_pools s)\<lparr>lp_pool := ?pool\<rparr>) = Inr ps' \<and>
      stp.accounted [] (st_pool ps') \<and> st_slots (st_pool ps') = st_slots (st_pool (pl_pools s)) \<and>
      lp_pool ps' = pool\<lparr>lp_at := (records s)(lp := ?lp)\<rparr>"
    using get_trace [of "(pl_pools s)\<lparr>lp_pool := ?pool\<rparr>" lp "zero_lp\<lparr>lp_u := Order (ucast si)\<rparr>"]
      log_wfD(4,5) [OF wf] at by (simp add: zero_lp_def)
  then obtain ps' where
    trace: "get_lp_call_stack (module_address K) (name_of_module K) frames lp
        ((pl_pools s)\<lparr>lp_pool := ?pool\<rparr>) = Inr ps'" and
    st: "stp.accounted [] (st_pool ps')" "st_slots (st_pool ps') = st_slots (st_pool (pl_pools s))" and
    pool': "lp_pool ps' = pool\<lparr>lp_at := (records s)(lp := ?lp)\<rparr>" by blast
  define s' where "s' = s\<lparr>pl_pools := ps', ri_data := (ri_data s)(ri := Some lp)\<rparr>"
  have at': "records s' = (records s)(lp := ?lp)" by (simp add: s'_def pool')
  have ok: "alloc_pages_nodemask_entry_handler K frames ri si s = Inr s'"
    using al at trace by (simp add: alloc_pages_nodemask_entry_handler_def s'_def)
  note taken = record_taken [OF wf lp acc at pool' st s'_def]
  have "log_inv (lp # held) s'" using taken(1) h lp(2) by (auto simp: log_inv_def at')
  moreover have "lp_slots (lp_pool (pl_pools s')) = lp_slots (lp_pool (pl_pools s))"
    using al by (auto simp: s'_def pool' alloc_lp_def u_alloc_lp_def lp_slots_def
        split: option.splits lp_union.splits)
  moreover have "end_page (records s' lp) = 0" by (simp add: at' zero_lp_def)
  ultimately show ?thesis using ok lp(2) al taken(2)
    by (intro exI [of _ lp] exI [of _ s']) (auto simp: at' lp_info_def, simp_all add: s'_def)
qed

text \<open>On return the record goes back to the pool, or into the tree with the block's pages.\<close>

lemma ret_handler_null:
  assumes "log_inv held s" and "lp \<in> set held" and "ri_data s ri = Some lp"
  shows "\<exists>s'. alloc_pages_nodemask_ret_handler K ri 0 s = Inr s' \<and>
    log_inv (remove1 lp held) s' \<and> ri_data s' = ri_data s \<and> owner s' = owner s \<and>
    (\<forall>q. q \<noteq> lp \<longrightarrow> records s' q = records s q) \<and>
    lp_slots (lp_pool (pl_pools s')) = lp_slots (lp_pool (pl_pools s))"
proof -
  define s' where "s' = put_pool (u_free_lp lp (lp_pool (pl_pools s))) s"
  have wf: "log_wf held s" and h: "\<forall>lp\<in>set held. \<exists>ord. lp_u (records s lp) = Order ord"
    using assms(1) by (auto simp: log_inv_def)
  have d: "distinct held" and lp: "lp \<notin> set_tree (lp_root s)"
    using log_wfD(3) [OF wf] assms(2) by auto
  have at: "records s' q = records s q" if "q \<noteq> lp" for q
    using that by (simp add: s'_def u_free_lp_def)
  have root: "lp_root s' = lp_root s" by (simp add: s'_def)
  have "ordered (records s') (inorder (lp_root s)) = ordered (records s) (inorder (lp_root s))"
    by (rule ordered_cong) (metis at lp set_inorder)
  moreover have "lpp.accounted (remove1 lp (inorder (lp_root s) @ held)) (lp_pool (pl_pools s'))"
    using log_wfD(2) [OF wf] assms(2) by (simp only: s'_def put_simps) (intro lpp.rel_accounted, auto)
  then have "lpp.accounted (inorder (lp_root s) @ remove1 lp held) (lp_pool (pl_pools s'))"
    using lp by (simp add: remove1_append)
  ultimately have "log_wf (remove1 lp held) s'"
    using log_wfD(1,4,5) [OF wf] by (simp add: log_wf_def root) (simp add: s'_def)
  then have "log_inv (remove1 lp held) s'" using h at d by (auto simp: log_inv_def)
  moreover have "owner_of (records s') (inorder (lp_root s)) p = owner_of (records s) (inorder (lp_root s)) p" for p
    by (rule owner_of_cong) (metis at lp set_inorder)
  then have "owner s' = owner s" by (simp add: owner_def root fun_eq_iff)
  moreover have "alloc_pages_nodemask_ret_handler K ri 0 s = Inr s'"
    using assms(3) by (simp add: alloc_pages_nodemask_ret_handler_def s'_def free_lp_def)
  ultimately show ?thesis using at
    by (intro exI [of _ s']) (auto simp: s'_def lpp.rel_slots)
qed

lemma ret_handler_page:
  assumes "rb_laws (k_rb K)" and "log_inv held s" and "lp \<in> set held" and "ri_data s ri = Some lp"
    and "lp_u (records s lp) = Order order" and "page \<noteq> 0" and "unat order < 31"
    and "\<And>p. page \<le> p \<Longrightarrow> p < page_end page order \<Longrightarrow> owner s p = None"
  shows "\<exists>s'. alloc_pages_nodemask_ret_handler K ri page s = Inr s' \<and>
    log_inv (remove1 lp held) s' \<and> ri_data s' = ri_data s \<and>
    (\<forall>p. owner s' p =
      (if page \<le> p \<and> p < page_end page order then Some (lp_info (records s lp)) else owner s p)) \<and>
    (\<forall>q. q \<noteq> lp \<longrightarrow> records s' q = records s q) \<and>
    lp \<in> set_tree (lp_root s') \<and> start_page (records s' lp) = page \<and>
    end_page (records s' lp) = page_end page order \<and>
    lp_slots (lp_pool (pl_pools s')) = lp_slots (lp_pool (pl_pools s))"
proof -
  let ?r = "(records s lp)\<lparr>start_page := page, end_page := page_end page order\<rparr>"
  let ?held = "remove1 lp held"
  define s1 where "s1 = put_lp lp ?r s"
  have wf: "log_wf held s" and h: "\<forall>lp\<in>set held. \<exists>ord. lp_u (records s lp) = Order ord"
    using assms(2) by (auto simp: log_inv_def)
  have d: "distinct held" and lp: "lp \<notin> set_tree (lp_root s)"
    using log_wfD(3) [OF wf] assms(3) by auto
  have acc: "lpp.accounted (inorder (lp_root s) @ lp # ?held) (lp_pool (pl_pools s))"
    by (rule lpp.accounted_cong [OF log_wfD(2) [OF wf]])
      (use log_wfD(3) [OF wf] assms(3) lp d in \<open>auto dest: notin_set_remove1\<close>)
  have at: "records s1 q = records s q" if "q \<noteq> lp" for q using that by (simp add: s1_def)
  have root: "lp_root s1 = lp_root s" by (simp add: s1_def)
  have "ordered (records s1) (inorder (lp_root s)) = ordered (records s) (inorder (lp_root s))"
    by (rule ordered_cong) (metis at lp set_inorder)
  moreover have "lpp.accounted (inorder (lp_root s) @ lp # ?held) (lp_pool (pl_pools s1))"
    using acc by (simp add: s1_def accounted_upd)
  ultimately have wf1: "log_wf (lp # ?held) s1"
    using log_wfD(1,4,5) [OF wf] by (simp add: log_wf_def root) (simp add: s1_def)
  have "owner_of (records s1) (inorder (lp_root s)) p = owner_of (records s) (inorder (lp_root s)) p" for p
    by (rule owner_of_cong) (metis at lp set_inorder)
  then have own1: "owner s1 p = owner s p" for p by (simp add: owner_def root)
  have r1: "records s1 lp = ?r" by (simp add: s1_def)
  note ins = insert_log [OF assms(1) wf1]
  define s' where "s' = log_insert K lp s1"
  have "log_wf ?held s'" unfolding s'_def
    by (rule ins(1)) (use assms(8) own1 page_end_gt [OF assms(7)] in \<open>auto simp: r1 nonempty_def mem_pages\<close>)
  then have "log_inv ?held s'" using h d at by (auto simp: log_inv_def s'_def log_insert_def)
  moreover have "owner s' p = (if page \<le> p \<and> p < page_end page order
      then Some (lp_info (records s lp)) else owner s p)" for p unfolding s'_def
    by (subst ins(2))
      (use assms(8) own1 page_end_gt [OF assms(7)] in \<open>auto simp: r1 nonempty_def mem_pages lp_info_def\<close>)
  moreover have "alloc_pages_nodemask_ret_handler K ri page s = Inr s'"
    using assms(4-6) by (simp add: alloc_pages_nodemask_ret_handler_def log_page_alloc_with_lp_def s'_def s1_def)
  moreover have "lp \<in> set_tree (lp_root s')"
    using tree.ins_set [OF assms(1), of "records s1" lp "lp_root s1"] by (simp add: s'_def log_insert_def)
  moreover have "records s' = records s1" by (simp add: s'_def log_insert_def)
  ultimately show ?thesis using at r1
    by (intro exI [of _ s']) (simp add: s'_def log_insert_def s1_def)
qed

end
