(* ===== verification/Log_Machine.thy ===== *)
theory Log_Machine
  imports Log_Probe
begin

text \<open>
  The page log as a machine: the probes fire in any order, for any number of instances. The
  machine keeps its invariant, and each of its steps is a step of the specification, a map
  from pages to owners with the allocations in flight.
\<close>

section \<open>The specification\<close>

type_synonym spec_state = "(page_ptr \<Rightarrow> owner_info option) \<times> (nat \<Rightarrow> (u32 \<times> owner_info) option)"

definition block :: "page_ptr \<Rightarrow> u32 \<Rightarrow> page_ptr set" where
  "block page order = {page..<page + 2 ^ unat order}"

inductive spec_step :: "spec_state \<Rightarrow> spec_state \<Rightarrow> bool" where
  spec_enter: "m ri = None \<Longrightarrow> spec_step (ow, m) (ow, m(ri := Some (order, i)))"
| spec_fail: "m ri = Some (order, i) \<Longrightarrow> spec_step (ow, m) (ow, m(ri := None))"
| spec_return: "m ri = Some (order, i) \<Longrightarrow> \<forall>p\<in>block page order. ow p = None \<Longrightarrow>
    spec_step (ow, m) (\<lambda>p. if p \<in> block page order then Some i else ow p, m(ri := None))"
| spec_freed: "spec_step (ow, m) (\<lambda>p. if p \<in> block page order then None else ow p, m)"

section \<open>The machine\<close>

text \<open>
  The kernel starts an instance that is not in flight, returns one that is and recycles it.
  The buddy allocator hands out only pages that nobody owns. Orders are below 31 (the
  allocator's maximum is far less), so that the shift does not reach the sign bit.
\<close>

inductive probe_step :: "kernel \<Rightarrow> page_log \<Rightarrow> page_log \<Rightarrow> bool" for K where
  enter: "ri_data s ri = None \<Longrightarrow>
    alloc_pages_nodemask_entry_handler K frames ri si s = Inr s' \<Longrightarrow> probe_step K s s'"
| fail: "ri_data s ri = Some lp \<Longrightarrow>
    alloc_pages_nodemask_ret_handler K ri 0 s = Inr s' \<Longrightarrow>
    probe_step K s (s'\<lparr>ri_data := (ri_data s')(ri := None)\<rparr>)"
| return: "ri_data s ri = Some lp \<Longrightarrow> lp_u (records s lp) = Order order \<Longrightarrow>
    page \<noteq> 0 \<Longrightarrow> unat order < 31 \<Longrightarrow> \<forall>p\<in>block page order. owner s p = None \<Longrightarrow>
    alloc_pages_nodemask_ret_handler K ri page s = Inr s' \<Longrightarrow>
    probe_step K s (s'\<lparr>ri_data := (ri_data s')(ri := None)\<rparr>)"
| freed: "unat order < 31 \<Longrightarrow> jfree_pages_ok K page order s = Some (Inr s') \<Longrightarrow> probe_step K s s'"
| freed_hot_cold: "unat order < 31 \<Longrightarrow> jfree_hot_cold_page K page order s = Some (Inr s') \<Longrightarrow>
    probe_step K s s'"

inductive_cases probe_stepE: "probe_step K s s'"

text \<open>The records held are exactly those of the instances in flight, one each.\<close>

definition in_flight :: "nat list \<Rightarrow> page_log \<Rightarrow> lp_ptr list" where
  "in_flight ris s = map (\<lambda>ri. the (ri_data s ri)) ris"

definition machine_inv :: "page_log \<Rightarrow> bool" where
  "machine_inv s \<longleftrightarrow>
     (\<exists>ris. distinct ris \<and> set ris = dom (ri_data s) \<and> log_inv (in_flight ris s) s)"

definition spec_of :: "page_log \<Rightarrow> spec_state" where
  "spec_of s = (owner s, \<lambda>ri. case ri_data s ri of None \<Rightarrow> None
     | Some lp \<Rightarrow> (case lp_u (records s lp) of Next _ \<Rightarrow> None
         | Order order \<Rightarrow> Some (order, lp_info (records s lp))))"

lemma records_ri [simp]:
  "log_inv held (s\<lparr>ri_data := f\<rparr>) = log_inv held s"
  "owner (s\<lparr>ri_data := f\<rparr>) = owner s"
  by (simp_all add: log_inv_def log_wf_def owner_def)

text \<open>Between instances there is no sharing: another instance's record is another record.\<close>

lemma in_flight_inj:
  assumes "distinct (in_flight ris s)" and "set ris = dom (ri_data s)"
    and "ri_data s r1 = Some lp" and "ri_data s r2 = Some lp"
  shows "r1 = r2"
proof -
  have "r1 \<in> set ris" "r2 \<in> set ris" using assms(2-4) by auto
  moreover have "inj_on (\<lambda>ri. the (ri_data s ri)) (set ris)"
    using assms(1) by (simp add: in_flight_def distinct_map)
  ultimately show ?thesis using assms(3,4) by (metis inj_onD)
qed

lemma in_flight_remove:
  assumes "distinct (in_flight ris s)" and "distinct ris" and "set ris = dom (ri_data s)"
    and "ri_data s ri = Some lp" and "ri_data s' = (ri_data s)(ri := None)"
  shows "in_flight (remove1 ri ris) s' = remove1 lp (in_flight ris s)"
proof -
  have "map (\<lambda>r. the (ri_data s r)) (remove1 ri xs) = remove1 lp (map (\<lambda>r. the (ri_data s r)) xs)"
    if "set xs \<subseteq> dom (ri_data s)" for xs
    using that
  proof (induction xs)
    case (Cons x xs)
    then have "the (ri_data s x) = lp \<longleftrightarrow> x = ri"
      using in_flight_inj [OF assms(1,3) _ assms(4), of x] assms(4) by auto
    with Cons show ?case by auto
  qed simp
  moreover have "in_flight (remove1 ri ris) s' = map (\<lambda>r. the (ri_data s r)) (remove1 ri ris)"
    using assms(2,5) by (auto simp: in_flight_def)
  ultimately show ?thesis using assms(3) by (simp add: in_flight_def)
qed

section \<open>Each step keeps the invariant and follows the specification\<close>

lemma enter_sim:
  assumes "machine_inv s" and "ri_data s ri = None"
    and "alloc_pages_nodemask_entry_handler K frames ri si s = Inr s'"
  shows "machine_inv s' \<and> spec_step (spec_of s) (spec_of s')"
proof -
  from assms(1) obtain ris where ris: "distinct ris" "set ris = dom (ri_data s)"
    "log_inv (in_flight ris s) s" by (auto simp: machine_inv_def)
  have "alloc_lp (lp_pool (pl_pools s)) \<noteq> Inl NullDeref"
    using assms(3) by (auto simp: alloc_pages_nodemask_entry_handler_def)
  then have "pool_left s"
    using lpp.alloc_fails_iff [OF log_wfD(2)] pool_left_iff ris(3)
    by (fastforce simp: log_inv_def alloc_lp_def)
  from entry_handler_log [OF ris(3) this, of K frames ri si] assms(3) obtain lp where
    inv: "log_inv (lp # in_flight ris s) s'" and lp: "lp \<notin> set (in_flight ris s)" and
    ri: "ri_data s' = (ri_data s)(ri := Some lp)" and ow: "owner s' = owner s" and
    same: "\<forall>q\<in>set (in_flight ris s). records s' q = records s q" and
    new: "lp_u (records s' lp) = Order (ucast si)" "lp_info (records s' lp) = trace_info K frames"
    by auto
  have rn: "ri \<notin> set ris" using ris(2) assms(2) by auto
  then have "in_flight (ri # ris) s' = lp # in_flight ris s"
    by (auto simp: in_flight_def ri)
  with inv ris rn ri have "machine_inv s'"
    unfolding machine_inv_def by (intro exI [of _ "ri # ris"]) auto
  moreover have "records s' q = records s q" if "ri_data s r = Some q" for r q
    using same that ris(2) by (force simp: in_flight_def)
  then have "spec_of s' = (owner s, (snd (spec_of s))(ri := Some (ucast si, trace_info K frames)))"
    by (auto simp: spec_of_def ow ri new fun_eq_iff split: option.splits lp_union.splits)
  then have "spec_step (spec_of s) (spec_of s')"
    using assms(2) by (auto simp: spec_of_def intro: spec_enter)
  ultimately show ?thesis ..
qed

text \<open>Common to both ways an instance returns.\<close>

lemma recycle_sim:
  assumes "distinct ris" and "set ris = dom (ri_data s)" and "log_inv (in_flight ris s) s"
    and "ri_data s ri = Some lp"
    and "log_inv (remove1 lp (in_flight ris s)) s'" and "ri_data s' = ri_data s"
    and "\<forall>q. q \<noteq> lp \<longrightarrow> records s' q = records s q"
  shows "machine_inv (s'\<lparr>ri_data := (ri_data s')(ri := None)\<rparr>)"
    and "snd (spec_of (s'\<lparr>ri_data := (ri_data s')(ri := None)\<rparr>)) = (snd (spec_of s))(ri := None)"
proof -
  let ?t = "s'\<lparr>ri_data := (ri_data s')(ri := None)\<rparr>"
  have d: "distinct (in_flight ris s)"
    using log_wfD(3) assms(3) by (auto simp: log_inv_def)
  have "in_flight (remove1 ri ris) ?t = remove1 lp (in_flight ris s)"
    by (rule in_flight_remove [OF d assms(1,2,4)]) (simp add: assms(6))
  then show "machine_inv ?t"
    unfolding machine_inv_def using assms(1,2,5,6)
    by (intro exI [of _ "remove1 ri ris"]) auto
  have "q \<noteq> lp" if "ri_data s r = Some q" "r \<noteq> ri" for r q
    using in_flight_inj [OF d assms(2) that(1)] assms(4) that(2) by auto
  with assms(6,7) show "snd (spec_of ?t) = (snd (spec_of s))(ri := None)"
    by (auto simp: spec_of_def fun_eq_iff split: option.splits lp_union.splits)
qed

lemma fst_spec_of [simp]: "fst (spec_of s) = owner s"
  by (simp add: spec_of_def)

lemma spec_of_eq: "spec_of s = (owner s, snd (spec_of s))"
  by (simp add: spec_of_def)

lemma held_order:
  assumes "set ris = dom (ri_data s)" and "log_inv (in_flight ris s) s" and "ri_data s ri = Some lp"
  shows "lp \<in> set (in_flight ris s)" and "\<exists>order. lp_u (records s lp) = Order order"
proof -
  show "lp \<in> set (in_flight ris s)" using assms(1,3) by (force simp: in_flight_def)
  with assms(2) show "\<exists>order. lp_u (records s lp) = Order order" by (simp add: log_inv_def)
qed

lemma fail_sim:
  assumes "machine_inv s" and "ri_data s ri = Some lp"
    and "alloc_pages_nodemask_ret_handler K ri 0 s = Inr s'"
  shows "machine_inv (s'\<lparr>ri_data := (ri_data s')(ri := None)\<rparr>) \<and>
    spec_step (spec_of s) (spec_of (s'\<lparr>ri_data := (ri_data s')(ri := None)\<rparr>))"
proof -
  from assms(1) obtain ris where ris: "distinct ris" "set ris = dom (ri_data s)"
    "log_inv (in_flight ris s) s" by (auto simp: machine_inv_def)
  note held = held_order [OF ris(2,3) assms(2)]
  from ret_handler_null [OF ris(3) held(1) assms(2), of K] assms(3) have
    r: "log_inv (remove1 lp (in_flight ris s)) s'" "ri_data s' = ri_data s" "owner s' = owner s"
      "\<forall>q. q \<noteq> lp \<longrightarrow> records s' q = records s q" by auto
  note rec = recycle_sim [OF ris assms(2) r(1,2,4)]
  from assms(2) held(2) obtain order where
    m: "snd (spec_of s) ri = Some (order, lp_info (records s lp))" by (auto simp: spec_of_def)
  have "spec_of (s'\<lparr>ri_data := (ri_data s')(ri := None)\<rparr>) = (owner s, (snd (spec_of s))(ri := None))"
    by (subst spec_of_eq) (simp add: rec(2) r(3))
  with spec_fail [where m = "snd (spec_of s)" and ri = ri and ow = "owner s", OF m]
  have "spec_step (spec_of s) (spec_of (s'\<lparr>ri_data := (ri_data s')(ri := None)\<rparr>))"
    by (simp flip: spec_of_eq)
  with rec(1) show ?thesis ..
qed

lemma block_iff: "unat order < 31 \<Longrightarrow> p \<in> block page order \<longleftrightarrow> page \<le> p \<and> p < page_end page order"
  by (simp add: block_def page_end_eq)

text \<open>An allocation from entry to return, and why freeing from the start of a record needs no split.\<close>

lemma allocation_recorded:
  assumes "rb_laws (k_rb K)" and "log_inv held s" and "pool_left s"
    and "page \<noteq> 0" and "unat (ucast si :: u32) < 31"
    and "\<forall>p\<in>block page (ucast si). owner s p = None"
  shows "\<exists>lp s1 s2. alloc_pages_nodemask_entry_handler K frames ri si s = Inr s1 \<and>
    alloc_pages_nodemask_ret_handler K ri page s1 = Inr s2 \<and> log_inv held s2 \<and>
    lp \<in> set_tree (lp_root s2) \<and> start_page (records s2 lp) = page \<and>
    end_page (records s2 lp) = page_end page (ucast si) \<and>
    owner s2 = (\<lambda>p. if p \<in> block page (ucast si) then Some (trace_info K frames) else owner s p)"
proof -
  let ?o = "ucast si :: u32"
  from entry_handler_log [OF assms(2,3), of K frames ri si] obtain lp s1 where
    s1: "alloc_pages_nodemask_entry_handler K frames ri si s = Inr s1" "log_inv (lp # held) s1"
      "ri_data s1 ri = Some lp" "owner s1 = owner s" "lp_u (records s1 lp) = Order ?o"
      "lp_info (records s1 lp) = trace_info K frames" by auto
  have un: "\<And>p. page \<le> p \<Longrightarrow> p < page_end page ?o \<Longrightarrow> owner s1 p = None"
    using assms(6) s1(4) by (simp add: block_iff [OF assms(5)])
  have "lp \<in> set (lp # held)" by simp
  from ret_handler_page [OF assms(1) s1(2) this s1(3,5) assms(4,5) un] obtain s2 where
    s2: "alloc_pages_nodemask_ret_handler K ri page s1 = Inr s2" "log_inv held s2"
      "lp \<in> set_tree (lp_root s2)" "start_page (records s2 lp) = page"
      "end_page (records s2 lp) = page_end page ?o"
      "\<forall>p. owner s2 p = (if page \<le> p \<and> p < page_end page ?o
        then Some (lp_info (records s1 lp)) else owner s1 p)" by auto
  then have "owner s2 = (\<lambda>p. if p \<in> block page ?o then Some (trace_info K frames) else owner s p)"
    using s1(4,6) by (simp add: block_iff [OF assms(5)] fun_eq_iff)
  with s1(1) s2(1-5) show ?thesis by blast
qed

lemma start_not_inside:
  assumes "log_inv held s" and "lp \<in> set_tree (lp_root s)" and "start_page (records s lp) = start"
    and "start < end" and "start < end_page (records s lp)"
  shows "\<not> inside_one s start end"
proof
  assume "inside_one s start end"
  then obtain q where q: "q \<in> set_tree (lp_root s)" "start_page (records s q) < start"
    "end < end_page (records s q)" by (auto simp: inside_one_def)
  then have "start \<in> pages (lp_range (records s q)) \<inter> pages (lp_range (records s lp))"
    using assms(3-5) by (simp add: mem_pages)
  moreover have "ordered (records s) (inorder (lp_root s))" using assms(1) log_wfD(1) by (auto simp: log_inv_def)
  ultimately have "q = lp"
    using ordered_disjoint [of "records s" "inorder (lp_root s)" q lp] q(1) assms(2) by auto
  with q(2) assms(3) show False by simp
qed

lemma return_sim:
  assumes "rb_laws (k_rb K)" and "machine_inv s" and "ri_data s ri = Some lp"
    and "lp_u (records s lp) = Order order" and "page \<noteq> 0" and "unat order < 31"
    and "\<forall>p\<in>block page order. owner s p = None"
    and "alloc_pages_nodemask_ret_handler K ri page s = Inr s'"
  shows "machine_inv (s'\<lparr>ri_data := (ri_data s')(ri := None)\<rparr>) \<and>
    spec_step (spec_of s) (spec_of (s'\<lparr>ri_data := (ri_data s')(ri := None)\<rparr>))"
proof -
  from assms(2) obtain ris where ris: "distinct ris" "set ris = dom (ri_data s)"
    "log_inv (in_flight ris s) s" by (auto simp: machine_inv_def)
  note held = held_order [OF ris(2,3) assms(3)]
  have unowned: "\<And>p. page \<le> p \<Longrightarrow> p < page_end page order \<Longrightarrow> owner s p = None"
    using assms(7) by (auto simp: block_iff [OF assms(6)])
  from ret_handler_page [OF assms(1) ris(3) held(1) assms(3-6) unowned] assms(8) have
    r: "log_inv (remove1 lp (in_flight ris s)) s'" "ri_data s' = ri_data s"
      "\<forall>q. q \<noteq> lp \<longrightarrow> records s' q = records s q" and
    ow: "\<forall>p. owner s' p = (if page \<le> p \<and> p < page_end page order
      then Some (lp_info (records s lp)) else owner s p)" by auto
  note rec = recycle_sim [OF ris assms(3) r(1,2,3)]
  have m: "snd (spec_of s) ri = Some (order, lp_info (records s lp))"
    using assms(3,4) by (simp add: spec_of_def)
  have "owner s' = (\<lambda>p. if p \<in> block page order then Some (lp_info (records s lp)) else owner s p)"
    using ow by (simp add: block_iff [OF assms(6)] fun_eq_iff)
  then have "spec_of (s'\<lparr>ri_data := (ri_data s')(ri := None)\<rparr>) =
      (\<lambda>p. if p \<in> block page order then Some (lp_info (records s lp)) else owner s p,
       (snd (spec_of s))(ri := None))"
    by (subst spec_of_eq) (simp add: rec(2))
  with spec_return [where m = "snd (spec_of s)" and ri = ri and ow = "owner s", OF m assms(7)] have
    "spec_step (spec_of s) (spec_of (s'\<lparr>ri_data := (ri_data s')(ri := None)\<rparr>))"
    by (simp flip: spec_of_eq)
  with rec(1) show ?thesis ..
qed

lemma freed_sim:
  assumes "rb_laws (k_rb K)" and "machine_inv s" and "unat order < 31"
    and "do_log_page_free K page order s = Some (Inr s')"
  shows "machine_inv s' \<and> spec_step (spec_of s) (spec_of s')"
proof -
  from assms(2) obtain ris where ris: "distinct ris" "set ris = dom (ri_data s)"
    "log_inv (in_flight ris s) s" by (auto simp: machine_inv_def)
  have lt: "page < page_end page order" by (rule page_end_gt [OF assms(3)])
  have "inside_one s page (page_end page order) \<Longrightarrow> pool_left s"
    using free_block_exhausted [OF ris(3) lt] assms(4) by (fastforce simp: do_log_page_free_def)
  from free_block_owner [OF assms(1) ris(3) lt this] assms(4) have
    inv: "log_inv (in_flight ris s) s'" and fr: "frame (in_flight ris s) s s'" and
    ow: "\<forall>p. owner s' p = (if page \<le> p \<and> p < page_end page order then None else owner s p)"
    by (auto simp: do_log_page_free_def)
  have ri: "ri_data s' = ri_data s" using fr by (simp add: frame_def)
  then have "in_flight ris s' = in_flight ris s" by (simp add: in_flight_def)
  with ris inv ri have "machine_inv s'" by (auto simp: machine_inv_def intro!: exI [of _ ris])
  moreover have "records s' q = records s q" if "ri_data s r = Some q" for r q
    using fr that ris(2) by (force simp: frame_def in_flight_def)
  then have "snd (spec_of s') = snd (spec_of s)"
    by (auto simp: spec_of_def ri fun_eq_iff split: option.splits lp_union.splits)
  then have "spec_of s' = (\<lambda>p. if p \<in> block page order then None else owner s p, snd (spec_of s))"
    using ow by (subst spec_of_eq) (simp add: block_iff [OF assms(3)] fun_eq_iff)
  then have "spec_step (spec_of s) (spec_of s')"
    using spec_freed [of "owner s" "snd (spec_of s)" page order] by (simp flip: spec_of_eq)
  ultimately show ?thesis ..
qed

text \<open>All steps.\<close>

lemma probe_step_sim:
  assumes "rb_laws (k_rb K)" and "machine_inv s" and "probe_step K s s'"
  shows "machine_inv s' \<and> spec_step (spec_of s) (spec_of s')"
  using assms(3,2)
proof (cases rule: probe_step.cases)
  case (enter ri frames si)
  then show ?thesis using assms(2) by (intro enter_sim)
next
  case (fail ri lp t)
  then show ?thesis using fail_sim [OF assms(2)] by simp
next
  case (return ri lp order page t)
  then show ?thesis using return_sim [OF assms(1,2)] by simp
next
  case (freed order page)
  then show ?thesis using freed_sim [OF assms(1,2)]
    by (simp add: jfree_pages_ok_def log_page_free_def)
next
  case (freed_hot_cold order page)
  then show ?thesis using freed_sim [OF assms(1,2)]
    by (simp add: jfree_hot_cold_page_def log_page_free_def)
qed

section \<open>Runs\<close>

text \<open>The state after module initialisation: empty tree, full pools, nothing in flight.\<close>

definition started :: "page_log \<Rightarrow> bool" where
  "started s \<longleftrightarrow> lp_root s = Leaf \<and> ri_data s = (\<lambda>_. None) \<and>
     lpp.accounted [] (lp_pool (pl_pools s)) \<and> stp.accounted [] (st_pool (pl_pools s)) \<and>
     st_slots (st_pool (pl_pools s)) \<noteq> {}"

inductive probe_run :: "kernel \<Rightarrow> page_log \<Rightarrow> page_log \<Rightarrow> bool" for K where
  run_start: "started s \<Longrightarrow> probe_run K s s"
| run_step: "probe_run K s s' \<Longrightarrow> probe_step K s' s'' \<Longrightarrow> probe_run K s s''"

inductive spec_run :: "spec_state \<Rightarrow> bool" where
  spec_start: "spec_run (\<lambda>_. None, \<lambda>_. None)"
| spec_next: "spec_run a \<Longrightarrow> spec_step a b \<Longrightarrow> spec_run b"

lemma started_inv: "started s \<Longrightarrow> machine_inv s \<and> spec_of s = (\<lambda>_. None, \<lambda>_. None)"
proof -
  assume s: "started s"
  then have "log_inv (in_flight [] s) s"
    by (simp add: started_def log_inv_def log_wf_def in_flight_def ordered_def)
  with s have "machine_inv s"
    unfolding machine_inv_def by (intro exI [of _ "[]"]) (simp add: started_def)
  with s show ?thesis
    by (simp add: started_def spec_of_def owner_def owner_of_def fun_eq_iff)
qed

lemma probe_run_sim:
  "probe_run K s s' \<Longrightarrow> rb_laws (k_rb K) \<Longrightarrow> machine_inv s' \<and> spec_run (spec_of s')"
proof (induction rule: probe_run.induct)
  case (run_start s)
  then show ?case using started_inv [of s] by (simp add: spec_start)
next
  case (run_step s s' s'')
  then show ?case using probe_step_sim [of K s' s''] by (auto intro: spec_next)
qed

end
