(* ===== verification/Log_Module.thy ===== *)
theory Log_Module
  imports Log_Machine
begin

text \<open>
  Loading and unloading the page log, mem_leak/kerspace/huawei_log_page.c: the pools and the
  three probes are set up in order, and a failure takes back what was set up before it.
\<close>

datatype probe = FreePagesOk | FreeHotColdPage | AllocPagesNodemask

record log_module =
  m_log :: page_log
  m_probes :: "probe list"

text \<open>
  What loading asks of the kernel: the memory map, the areas from \<open>vmalloc\<close>, the processor
  configuration, and the answers of \<open>register_jprobe\<close> and \<open>register_kretprobe\<close> (negative for
  failure).
\<close>

record boot =
  pfn_valid :: "u64 \<Rightarrow> bool"
  online_nodes :: "pglist_data list"
  vmalloc_lp :: "u64 \<Rightarrow> (lp_ptr \<Rightarrow> log_page_struct) option"
  vmalloc_st :: "nat \<Rightarrow> (st_ptr \<Rightarrow> st) option"
  CONFIG_PREEMPT :: bool
  NR_CPUS :: nat
  register_answer :: "probe \<Rightarrow> int"

definition register_alloc_pages_nodemask :: "boot \<Rightarrow> log_module \<Rightarrow> int \<times> log_module" where
  "register_alloc_pages_nodemask E m =
     (let ret = register_answer E AllocPagesNodemask in
      if ret < 0 then (-1, m) else (0, m\<lparr>m_probes := AllocPagesNodemask # m_probes m\<rparr>))"

definition unregister_alloc_pages_nodemask :: "log_module \<Rightarrow> log_module" where
  "unregister_alloc_pages_nodemask m =
     m\<lparr>m_probes := removeAll AllocPagesNodemask (m_probes m)\<rparr>"

definition register_free_pages_ok :: "boot \<Rightarrow> log_module \<Rightarrow> int \<times> log_module" where
  "register_free_pages_ok E m =
     (let ret = register_answer E FreePagesOk in
      if ret < 0 then (-1, m) else (0, m\<lparr>m_probes := FreePagesOk # m_probes m\<rparr>))"

definition unregister_free_pages_ok :: "log_module \<Rightarrow> log_module" where
  "unregister_free_pages_ok m = m\<lparr>m_probes := removeAll FreePagesOk (m_probes m)\<rparr>"

definition register_free_hot_cold_page :: "boot \<Rightarrow> log_module \<Rightarrow> int \<times> log_module" where
  "register_free_hot_cold_page E m =
     (let ret = register_answer E FreeHotColdPage in
      if ret < 0 then (-1, m) else (0, m\<lparr>m_probes := FreeHotColdPage # m_probes m\<rparr>))"

definition unregister_free_hot_cold_page :: "log_module \<Rightarrow> log_module" where
  "unregister_free_hot_cold_page m = m\<lparr>m_probes := removeAll FreeHotColdPage (m_probes m)\<rparr>"

definition register_probes :: "boot \<Rightarrow> log_module \<Rightarrow> int \<times> log_module" where
  "register_probes E m =
     (let (ret, m) = register_free_pages_ok E m in
      if ret \<noteq> 0 then (ret, m)
      else let (ret, m) = register_free_hot_cold_page E m in
      if ret \<noteq> 0 then (ret, unregister_free_pages_ok m)
      else let (ret, m) = register_alloc_pages_nodemask E m in
      if ret \<noteq> 0
      then (ret, unregister_free_pages_ok (unregister_free_hot_cold_page m))
      else (0, m))"

definition unregister_probes :: "log_module \<Rightarrow> log_module" where
  "unregister_probes m =
     unregister_free_pages_ok (unregister_free_hot_cold_page (unregister_alloc_pages_nodemask m))"

definition on_lp_pool :: "lp_pool_struct \<Rightarrow> log_module \<Rightarrow> log_module" where
  "on_lp_pool p m = m\<lparr>m_log := put_pool p (m_log m)\<rparr>"

definition on_st_pool :: "st_pool_struct \<Rightarrow> log_module \<Rightarrow> log_module" where
  "on_st_pool p m = m\<lparr>m_log := (m_log m)\<lparr>pl_pools := (pl_pools (m_log m))\<lparr>st_pool := p\<rparr>\<rparr>\<rparr>"

abbreviation the_lp_pool :: "log_module \<Rightarrow> lp_pool_struct" where
  "the_lp_pool m \<equiv> lp_pool (pl_pools (m_log m))"

abbreviation the_st_pool :: "log_module \<Rightarrow> st_pool_struct" where
  "the_st_pool m \<equiv> st_pool (pl_pools (m_log m))"

definition huawei_log_page_init :: "boot \<Rightarrow> log_module \<Rightarrow> int \<times> log_module" where
  "huawei_log_page_init E m =
     (let (ret, lpp) = init_lp_pool (pfn_valid E) (online_nodes E) (vmalloc_lp E) (the_lp_pool m);
          m = on_lp_pool lpp m in
      if ret \<noteq> 0 then (ret, m)
      else let (ret, stp) = init_st_pool (CONFIG_PREEMPT E) (NR_CPUS E) (vmalloc_st E) (the_st_pool m);
               m = on_st_pool stp m in
      if ret \<noteq> 0 then (ret, on_lp_pool (exit_lp_pool (the_lp_pool m)) m)
      else let (ret, m) = register_probes E m in
      if ret \<noteq> 0
      then (ret, let m = on_st_pool (exit_st_pool (the_st_pool m)) m
                 in on_lp_pool (exit_lp_pool (the_lp_pool m)) m)
      else (0, m))"

definition huawei_log_page_exit :: "log_module \<Rightarrow> log_module" where
  "huawei_log_page_exit m =
     (let m = unregister_probes m;
          m = on_st_pool (exit_st_pool (the_st_pool m)) m
      in on_lp_pool (exit_lp_pool (the_lp_pool m)) m)"

text \<open>A module that is not loaded: no probe, no area, an empty tree.\<close>

definition unloaded :: "log_module \<Rightarrow> bool" where
  "unloaded m \<longleftrightarrow> m_probes m = [] \<and> \<not> lp_area (the_lp_pool m) \<and> \<not> st_area (the_st_pool m)"

lemma on_pool_simps [simp]:
  "m_probes (on_lp_pool p m) = m_probes m" "m_probes (on_st_pool q m) = m_probes m"
  "the_lp_pool (on_lp_pool p m) = p" "the_st_pool (on_st_pool q m) = q"
  "the_lp_pool (on_st_pool q m) = the_lp_pool m" "the_st_pool (on_lp_pool p m) = the_st_pool m"
  "lp_root (m_log (on_lp_pool p m)) = lp_root (m_log m)"
  "lp_root (m_log (on_st_pool q m)) = lp_root (m_log m)"
  "ri_data (m_log (on_lp_pool p m)) = ri_data (m_log m)"
  "ri_data (m_log (on_st_pool q m)) = ri_data (m_log m)"
  by (simp_all add: on_lp_pool_def on_st_pool_def put_pool_def)

lemma fold_free_lp_area: "lp_area (fold free_lp ps pool) = lp_area pool"
  by (induction ps arbitrary: pool) (simp_all add: free_lp_def u_free_lp_def)

lemma fold_free_st_area: "st_area (fold free_st ps pool) = st_area pool"
  by (induction ps arbitrary: pool) (simp_all add: free_st_def u_free_st_def)

lemma fold_free_lp_nr: "nr_lp (fold free_lp ps pool) = nr_lp pool"
  by (induction ps arbitrary: pool) (simp_all add: free_lp_def u_free_lp_def)

lemma fold_free_st_nr: "nr_st (fold free_st ps pool) = nr_st pool"
  by (induction ps arbitrary: pool) (simp_all add: free_st_def u_free_st_def)

lemma init_lp_pool_area:
  "init_lp_pool pv ns vm p = (r, p') \<Longrightarrow> (if r = 0 then lp_area p' else r = -1 \<and> p' = p)"
  by (auto simp: init_lp_pool_def fold_free_lp_area Let_def split: option.splits)

lemma init_st_pool_area:
  "init_st_pool pr n vm p = (r, p') \<Longrightarrow> (if r = 0 then st_area p' else r = -1 \<and> p' = p)"
  by (auto simp: init_st_pool_def fold_free_st_area Let_def split: option.splits if_splits)

lemma register_probes_effect:
  assumes "register_probes E m = (r, m')" and "m_probes m = []"
  shows "m_log m' = m_log m \<and>
    (if r = 0 then m_probes m' = [AllocPagesNodemask, FreeHotColdPage, FreePagesOk]
     else r = -1 \<and> m_probes m' = [])"
  using assms
  by (auto simp: register_probes_def register_free_pages_ok_def register_free_hot_cold_page_def
      register_alloc_pages_nodemask_def unregister_free_pages_ok_def
      unregister_free_hot_cold_page_def Let_def split: if_splits)

end
