(* ===== verification/Log_Demo.thy ===== *)
theory Log_Demo
  imports Log_Module
begin

text \<open>
  A concrete kernel and concrete states of the page log, at which the properties of the page
  log are applied: a kernel whose tree functions work on the list of the nodes, a log that
  just started, and a log with one recorded block.
\<close>

fun spine :: "'a list \<Rightarrow> 'a tree" where
  "spine [] = Leaf"
| "spine (x # xs) = Node Leaf x (spine xs)"

lemma inorder_spine [simp]: "inorder (spine xs) = xs"
  by (induction xs) auto

definition demo_rb :: rb_ops where
  "demo_rb = \<lparr>rb_insert_color = (\<lambda>n t. spine (inorder t)),
     rb_erase = (\<lambda>n t. spine (remove1 n (inorder t))),
     rb_first = (\<lambda>t. case inorder t of [] \<Rightarrow> None | x # _ \<Rightarrow> Some x),
     rb_next = (\<lambda>n t. after n (inorder t))\<rparr>"

text \<open>Addresses from 4096 on lie in modules, one per 4096 addresses.\<close>

definition demo_K :: kernel where
  "demo_K = \<lparr>k_rb = demo_rb, module_address = (\<lambda>a. a div 4096), name_of_module = (\<lambda>m. ''mod''),
     page_address = (\<lambda>p. word_of_int (p * 4096)), PAGE_OFFSET = 0\<rparr>"

lemma demo_laws [simp]: "rb_laws (k_rb demo_K)"
  by (simp add: rb_laws_def demo_K_def demo_rb_def)

definition demo_st :: st_pool_struct where
  "demo_st = \<lparr>nr_st = 1, st_area = True,
     st_at = (\<lambda>_. \<lparr>nr_entries = 0, max_entries = 0, st_entries = 0, skip = 0, st_next = None\<rparr>),
     st_free = Some 0\<rparr>"

lemma demo_st_accounted [simp]: "stp.accounted [] demo_st" "st_slots demo_st = {0}"
proof -
  have "st_frees demo_st [0]" by (simp add: st_frees_def st_link_def st_slots_def demo_st_def)
  then show "stp.accounted [] demo_st"
    by (rule stp.accountedI) (auto simp: st_slots_def demo_st_def)
  show "st_slots demo_st = {0}" by (auto simp: st_slots_def demo_st_def)
qed

text \<open>Three records; \<open>demo_pool 0\<close> has all of them free, \<open>demo_pool 1\<close> the last two.\<close>

definition demo_rec :: "page_ptr \<Rightarrow> page_ptr \<Rightarrow> log_page_struct" where
  "demo_rec a b = zero_lp\<lparr>start_page := a, end_page := b\<rparr>"

definition demo_pool :: "nat \<Rightarrow> lp_pool_struct" where
  "demo_pool k = \<lparr>nr_lp = 3, lp_area = True,
     lp_at = (\<lambda>p. if p < k then demo_rec 4 8
                  else zero_lp\<lparr>lp_u := Next (if p = 2 then None else Some (p + 1))\<rparr>),
     lp_free = (if k = 3 then None else Some k)\<rparr>"

lemma lp_slots_demo [simp]: "lp_slots (demo_pool k) = {0, 1, 2}"
  by (auto simp: lp_slots_def demo_pool_def)

lemma demo_pool_frees:
  "lp_frees (demo_pool 0) [0, 1, 2]" "lp_frees (demo_pool 1) [1, 2]" "lp_frees (demo_pool 3) []"
  by (simp_all add: lp_frees_def) (simp_all add: lp_next_def demo_pool_def)

lemma demo_pool_accounted:
  "lpp.accounted [] (demo_pool 0)" "lpp.accounted [0] (demo_pool 1)"
  "lpp.accounted [0, 1, 2] (demo_pool 3)"
  using demo_pool_frees by (auto intro!: lpp.accountedI)

definition demo_start :: page_log where
  "demo_start = \<lparr>pl_pools = \<lparr>lp_pool = demo_pool 0, st_pool = demo_st\<rparr>, lp_root = Leaf,
     ri_data = (\<lambda>_. None), console = []\<rparr>"

lemma demo_started [simp]: "started demo_start"
  by (simp add: started_def demo_start_def demo_pool_accounted)

text \<open>One record in the tree, for the pages 4 to 7.\<close>

definition demo_log :: page_log where
  "demo_log = \<lparr>pl_pools = \<lparr>lp_pool = demo_pool 1, st_pool = demo_st\<rparr>, lp_root = Node Leaf 0 Leaf,
     ri_data = (\<lambda>_. None), console = []\<rparr>"

lemma demo_log_inv [simp]: "log_inv [] demo_log"
  by (simp add: log_inv_def log_wf_def demo_log_def demo_pool_accounted ordered_def
      nonempty_def lp_range_def del: One_nat_def)
    (simp add: demo_pool_def demo_rec_def)

lemma demo_log_left [simp]: "pool_left demo_log"
  using demo_pool_frees by (auto simp: pool_left_def demo_log_def)

lemma demo_log_owner: "owner demo_log p = (if 4 \<le> p \<and> p < 8 then Some (lp_info zero_lp) else None)"
  by (simp add: owner_def owner_of_def demo_log_def demo_pool_def demo_rec_def lp_info_def
      lp_range_def mem_pages)

text \<open>The pool is used up: one record in the tree, two held by instances.\<close>

definition demo_full :: page_log where
  "demo_full = \<lparr>pl_pools = \<lparr>lp_pool = demo_pool 3, st_pool = demo_st\<rparr>, lp_root = Node Leaf 0 Leaf,
     ri_data = (\<lambda>ri. if ri = 0 then Some 1 else if ri = 1 then Some 2 else None), console = []\<rparr>"

lemma demo_full_inv [simp]: "log_inv [1, 2] demo_full"
  by (simp add: log_inv_def log_wf_def demo_full_def demo_pool_accounted ordered_def
      nonempty_def lp_range_def del: One_nat_def)
    (simp add: demo_pool_def demo_rec_def zero_lp_def)

lemma demo_full_left [simp]: "\<not> pool_left demo_full"
  using demo_pool_frees(3) lpp.frees_unique by (fastforce simp: pool_left_def demo_full_def)

end
