(* ===== verification/Log_Props.thy ===== *)
theory Log_Props
  imports Log_Demo
begin

text \<open>
  The properties of the page log, mem_leak/kerspace/huawei_log_page.c, each with a witness
  at the concrete states of the theory of demonstration states.
\<close>

section \<open>Freeing\<close>

text \<open>C1: Taking a freed block out of the log is correct. From a log in order, for any block of
  \<open>2 ^ order\<close> pages, wherever it lies (not recorded, part of a record, exactly a record, across
  several records and gaps, or inside one record), the loop returns, keeps the log in order, and
  forgets the owner of exactly the pages of the block. Only a block strictly inside one record
  needs a free record from the pool.\<close>

theorem do_log_page_free_owner:
  assumes "rb_laws (k_rb K)" and "log_inv held s" and "unat order < 31"
    and "inside_one s page (page + 2 ^ unat order) \<Longrightarrow> pool_left s"
  shows "\<exists>s'. do_log_page_free K page order s = Some (Inr s') \<and> log_inv held s' \<and>
    (\<forall>p. owner s' p = (if p \<in> block page order then None else owner s p))"
proof -
  have "inside_one s page (page_end page order) \<Longrightarrow> pool_left s"
    using assms(3,4) by (simp add: page_end_eq)
  from free_block_owner [OF assms(1,2) page_end_gt [OF assms(3), of page] this]
  obtain s' where "do_log_page_free K page order s = Some (Inr s')" "log_inv held s'"
    "\<forall>p. owner s' p = (if page \<le> p \<and> p < page_end page order then None else owner s p)"
    by (auto simp: do_log_page_free_def)
  then show ?thesis by (intro exI [of _ s']) (simp add: block_iff [OF assms(3)])
qed

theorem do_log_page_free_owner_witness:
  "\<exists>s'. do_log_page_free demo_K 5 1 demo_log = Some (Inr s') \<and>
     owner s' 4 \<noteq> None \<and> owner s' 5 = None \<and> owner s' 6 = None \<and> owner s' 7 \<noteq> None"
  using do_log_page_free_owner [of demo_K "[]" demo_log 1 5]
  by (auto simp: demo_log_owner block_def)

text \<open>C2: Where no record is left, freeing a block from the inside of one recorded block
  dereferences the null pointer: this is the only way the loop can fault.\<close>

theorem do_log_page_free_fault_iff:
  assumes "rb_laws (k_rb K)" and "log_inv held s" and "unat order < 31"
  shows "do_log_page_free K page order s = Some (Inl e) \<longleftrightarrow>
    e = NullDeref \<and> inside_one s page (page + 2 ^ unat order) \<and> \<not> pool_left s"
proof -
  let ?e = "page_end page order"
  have e: "?e = page + 2 ^ unat order" by (rule page_end_eq [OF assms(3)])
  note lt = page_end_gt [OF assms(3), of page]
  show ?thesis
  proof (cases "inside_one s page ?e \<and> \<not> pool_left s")
    case True
    with free_block_exhausted [OF assms(2) lt] e show ?thesis by (auto simp: do_log_page_free_def)
  next
    case False
    with free_block_owner [OF assms(1,2) lt] e show ?thesis by (force simp: do_log_page_free_def)
  qed
qed

theorem do_log_page_free_fault_iff_witness:
  "do_log_page_free demo_K 5 1 demo_full = Some (Inl NullDeref)"
proof -
  have "inside_one demo_full 5 (5 + 2 ^ unat (1 :: u32))"
    by (simp add: inside_one_def demo_full_def demo_pool_def demo_rec_def)
  then show ?thesis using do_log_page_free_fault_iff [of demo_K "[1, 2]" demo_full 1 5]
    by (simp del: One_nat_def)
qed

text \<open>C13: Case 2.3 of the loop reads the end of the record after giving it back, holding only the
  tree's lock. If an allocation is entered on another processor in between, it gets that very
  record, zeroed, and the loop would go on from page 0 instead of the end of the record.\<close>

theorem freed_record_recycled:
  assumes "rb_laws (k_rb K)" and "log_inv held s" and "lp \<in> set_tree (lp_root s)"
    and "alloc_pages_nodemask_entry_handler K frames ri si (erase_lp (k_rb K) lp s) = Inr s'"
  shows "end_page (records (erase_lp (k_rb K) lp s) lp) = end_page (records s lp) \<and>
    ri_data s' ri = Some lp \<and> end_page (records s' lp) = 0"
proof -
  let ?s = "erase_lp (k_rb K) lp s"
  note era = erase_log [OF assms(1-3)]
  have "log_wf held s" using assms(2) by (simp add: log_inv_def)
  from lpp.alloc_after_rel [OF log_wfD(2) [OF this], of lp] assms(3) obtain pool where
    al: "alloc_lp (lp_pool (pl_pools ?s)) = Inr (lp, pool)"
    by (auto simp: erase_lp_def alloc_lp_def free_lp_def)
  have "log_wf held ?s" using era(1) by (simp add: log_inv_def)
  then have "pool_left ?s"
    using al pool_left_iff lpp.alloc_fails_iff [OF log_wfD(2)] by (fastforce simp: alloc_lp_def)
  from entry_handler_log [OF era(1) this, of K frames ri si] assms(4) al era(3)
  show ?thesis by auto
qed

theorem freed_record_recycled_witness:
  "\<exists>s'. alloc_pages_nodemask_entry_handler demo_K [] 0 0 (erase_lp demo_rb 0 demo_log) = Inr s' \<and>
     end_page (records demo_log 0) = 8 \<and> end_page (records s' 0) = 0"
proof -
  have lp: "0 \<in> set_tree (lp_root demo_log)" by (simp add: demo_log_def)
  note era = erase_log [OF demo_laws demo_log_inv lp]
  have rb: "k_rb demo_K = demo_rb" by (simp add: demo_K_def)
  have wf: "log_wf [] (erase_lp (k_rb demo_K) 0 demo_log)" using era(1) by (simp add: log_inv_def)
  have "pool_left (erase_lp (k_rb demo_K) 0 demo_log)"
    unfolding pool_left_iff [OF wf]
    by (simp add: erase_lp_def demo_log_def free_lp_def u_free_lp_def rb demo_rb_def put_pool_def lp_slots_def)
      (simp add: demo_pool_def, metis lessThan_empty_iff zero_neq_numeral)
  from entry_handler_log [OF era(1) this, of demo_K "[]" 0 0] obtain s' where
    s': "alloc_pages_nodemask_entry_handler demo_K [] 0 0 (erase_lp (k_rb demo_K) 0 demo_log) = Inr s'"
    by blast
  from freed_record_recycled [OF demo_laws demo_log_inv lp s'] s' show ?thesis
    by (simp add: rb) (simp add: demo_log_def demo_pool_def demo_rec_def)
qed

section \<open>The machine\<close>

text \<open>Refinement. However the probes interleave, every reachable state of the records, the
  tree and the pools is a reachable state of the specification: a map from pages to the trace
  and modules of the allocation that owns them, and the allocations in flight.\<close>

theorem probe_run_refines:
  assumes "rb_laws (k_rb K)" and "probe_run K s0 s"
  shows "spec_run (spec_of s)"
  using probe_run_sim [OF assms(2,1)] ..

theorem probe_run_refines_witness:
  "\<exists>s. probe_run demo_K demo_start s \<and> spec_run (spec_of s) \<and> ri_data s 7 \<noteq> None"
proof -
  have inv: "log_inv [] demo_start"
    by (simp add: log_inv_def log_wf_def demo_start_def ordered_def demo_pool_accounted)
  have left: "pool_left demo_start"
    using demo_pool_frees by (auto simp: pool_left_def demo_start_def)
  from entry_handler_log [OF inv left, of demo_K "[1, 2]" 7 2] obtain lp s where
    s: "alloc_pages_nodemask_entry_handler demo_K [1, 2] 7 2 demo_start = Inr s"
    "ri_data s = (ri_data demo_start)(7 := Some lp)" by blast
  have "probe_run demo_K demo_start s"
    by (rule run_step [OF run_start [OF demo_started]], rule probe_step.enter [OF _ s(1)])
      (simp add: demo_start_def)
  with probe_run_refines [OF demo_laws this] s(2) show ?thesis by auto
qed

text \<open>Every probe handler that returns keeps the machine invariant and does to the owners of
  the pages exactly what the specification's step does.\<close>

theorem probe_step_refines:
  assumes "rb_laws (k_rb K)" and "machine_inv s" and "probe_step K s s'"
  shows "machine_inv s' \<and> spec_step (spec_of s) (spec_of s')"
  by (rule probe_step_sim [OF assms])

lemma demo_machine_inv: "machine_inv demo_log"
  using demo_log_inv by (auto simp: machine_inv_def in_flight_def intro!: exI [of _ "[]"])
    (simp add: demo_log_def)

theorem probe_step_refines_witness:
  "\<exists>s'. probe_step demo_K demo_log s' \<and> machine_inv s' \<and> spec_step (spec_of demo_log) (spec_of s')"
proof -
  have "inside_one demo_log 5 (page_end 5 1) \<Longrightarrow> pool_left demo_log" by simp
  from free_block_owner [OF demo_laws demo_log_inv page_end_gt [of 1 5] this] obtain s' where
    "jfree_pages_ok demo_K 5 1 demo_log = Some (Inr s')"
    by (auto simp: jfree_pages_ok_def log_page_free_def do_log_page_free_def)
  then have "probe_step demo_K demo_log s'" by (intro probe_step.freed) auto
  with probe_step_refines [OF demo_laws demo_machine_inv this] show ?thesis by blast
qed

text \<open>In every reachable state the records in the tree hold non-empty, pairwise disjoint
  ranges; and every record of the pool is in exactly one place: in the tree, with one probe
  instance, or on the free list.\<close>

theorem reachable_records_partition:
  assumes "rb_laws (k_rb K)" and "probe_run K s0 s"
  shows "(\<forall>q\<in>set_tree (lp_root s). start_page (records s q) < end_page (records s q)) \<and>
    (\<forall>q\<in>set_tree (lp_root s). \<forall>r\<in>set_tree (lp_root s). q \<noteq> r \<longrightarrow>
       pages (lp_range (records s q)) \<inter> pages (lp_range (records s r)) = {}) \<and>
    (\<exists>free. lp_frees (lp_pool (pl_pools s)) free \<and>
       set_tree (lp_root s) \<union> ran (ri_data s) \<union> set free = lp_slots (lp_pool (pl_pools s)) \<and>
       set_tree (lp_root s) \<inter> ran (ri_data s) = {} \<and> set_tree (lp_root s) \<inter> set free = {} \<and>
       ran (ri_data s) \<inter> set free = {})"
proof -
  from probe_run_sim [OF assms(2,1)] obtain ris where
    ris: "set ris = dom (ri_data s)" "log_inv (in_flight ris s) s" by (auto simp: machine_inv_def)
  have wf: "log_wf (in_flight ris s) s" using ris(2) by (simp add: log_inv_def)
  have ran: "set (in_flight ris s) = ran (ri_data s)"
    using ris(1) by (force simp: in_flight_def ran_def dom_def)
  from log_wfD(2) [OF wf] obtain free where free: "lp_frees (lp_pool (pl_pools s)) free"
    "distinct ((inorder (lp_root s) @ in_flight ris s) @ free)"
    "set ((inorder (lp_root s) @ in_flight ris s) @ free) = lp_slots (lp_pool (pl_pools s))"
    by (auto simp: lpp.accounted_def)
  have "\<forall>q\<in>set_tree (lp_root s). nonempty (lp_range (records s q))"
    using log_wfD(1) [OF wf] by (simp add: ordered_def)
  moreover have "\<forall>q\<in>set_tree (lp_root s). \<forall>r\<in>set_tree (lp_root s). q \<noteq> r \<longrightarrow>
       pages (lp_range (records s q)) \<inter> pages (lp_range (records s r)) = {}"
    using ordered_disjoint [OF log_wfD(1) [OF wf]] by simp
  ultimately show ?thesis using free ran by (auto simp: nonempty_def intro!: exI [of _ free])
qed

theorem reachable_records_partition_witness:
  "\<exists>s free. probe_run demo_K demo_start s \<and> ran (ri_data s) \<noteq> {} \<and>
     lp_frees (lp_pool (pl_pools s)) free \<and> ran (ri_data s) \<inter> set free = {}"
proof -
  have inv: "log_inv [] demo_start"
    by (simp add: log_inv_def log_wf_def demo_start_def ordered_def demo_pool_accounted)
  have left: "pool_left demo_start"
    using demo_pool_frees by (auto simp: pool_left_def demo_start_def)
  from entry_handler_log [OF inv left, of demo_K "[1, 2]" 7 2] obtain lp s where
    s: "alloc_pages_nodemask_entry_handler demo_K [1, 2] 7 2 demo_start = Inr s"
    "ri_data s = (ri_data demo_start)(7 := Some lp)" by blast
  have run: "probe_run demo_K demo_start s"
    by (rule run_step [OF run_start [OF demo_started]], rule probe_step.enter [OF _ s(1)])
      (simp add: demo_start_def)
  have "lp \<in> ran (ri_data s)" unfolding s(2) by (auto simp: ran_def)
  with reachable_records_partition [OF demo_laws run] run show ?thesis by blast
qed

section \<open>Lookup and recording\<close>

text \<open>C8: The lookup finds the record whose range holds the page, and nothing where no record does.\<close>

theorem find_lp_correct:
  assumes "log_inv held s"
  shows "find_lp (records s) page (lp_root s) = Some q \<longleftrightarrow>
    q \<in> set_tree (lp_root s) \<and> start_page (records s q) \<le> page \<and> page < end_page (records s q)"
proof -
  have "log_wf held s" using assms by (simp add: log_inv_def)
  from find_lp_iff [OF log_wfD(1) [OF this]] show ?thesis by (simp add: mem_pages)
qed

theorem find_lp_correct_witness:
  "find_lp (records demo_log) 7 (lp_root demo_log) = Some 0 \<and>
   find_lp (records demo_log) 8 (lp_root demo_log) \<noteq> Some 0"
  using find_lp_correct [OF demo_log_inv, of 7 0] find_lp_correct [OF demo_log_inv, of 8 0]
  by (simp add: demo_log_def demo_pool_def demo_rec_def)

text \<open>C9: An allocation that is entered and returns a block makes the caller's trace and modules the
  owner of exactly the pages of the block; freeing the block again restores all owners.\<close>

theorem allocate_free_roundtrip:
  assumes "rb_laws (k_rb K)" and "log_inv held s" and "pool_left s"
    and "page \<noteq> 0" and "unat (ucast si :: u32) < 31"
    and "\<forall>p\<in>block page (ucast si). owner s p = None"
  shows "\<exists>s1 s2 s3. alloc_pages_nodemask_entry_handler K frames ri si s = Inr s1 \<and>
    alloc_pages_nodemask_ret_handler K ri page s1 = Inr s2 \<and>
    owner s2 = (\<lambda>p. if p \<in> block page (ucast si) then Some (trace_info K frames) else owner s p) \<and>
    do_log_page_free K page (ucast si) s2 = Some (Inr s3) \<and> owner s3 = owner s"
proof -
  let ?o = "ucast si :: u32"
  from allocation_recorded [OF assms] obtain lp s1 s2 where
    s1: "alloc_pages_nodemask_entry_handler K frames ri si s = Inr s1" and
    s2: "alloc_pages_nodemask_ret_handler K ri page s1 = Inr s2" "log_inv held s2" and
    lp: "lp \<in> set_tree (lp_root s2)" "start_page (records s2 lp) = page"
      "end_page (records s2 lp) = page_end page ?o" and
    o2: "owner s2 = (\<lambda>p. if p \<in> block page ?o then Some (trace_info K frames) else owner s p)" by blast
  note lt = page_end_gt [OF assms(5), of page]
  from free_block_owner [OF assms(1) s2(2) lt] start_not_inside [OF s2(2) lp(1,2) lt] lt lp(3) obtain s3 where
    s3: "do_log_page_free K page ?o s2 = Some (Inr s3)"
      "\<forall>p. owner s3 p = (if page \<le> p \<and> p < page_end page ?o then None else owner s2 p)"
    by (auto simp: do_log_page_free_def)
  have "owner s3 = owner s"
    using s3(2) assms(6) by (auto simp: o2 block_iff [OF assms(5)] fun_eq_iff)
  with s1 s2(1) o2 s3(1) show ?thesis by blast
qed

theorem allocate_free_roundtrip_witness:
  "\<exists>s1 s2. alloc_pages_nodemask_entry_handler demo_K [1, 2] 0 1 demo_log = Inr s1 \<and>
     alloc_pages_nodemask_ret_handler demo_K 0 9 s1 = Inr s2 \<and>
     owner s2 10 = Some (trace_info demo_K [1, 2]) \<and> owner s2 11 = None"
proof -
  have "\<forall>p\<in>block 9 (ucast (1 :: u64)). owner demo_log p = None"
    by (auto simp: demo_log_owner block_def)
  with allocate_free_roundtrip [OF demo_laws demo_log_inv demo_log_left, of 9 1 "[1, 2]" 0]
  show ?thesis by (auto simp: demo_log_owner block_def)
qed

text \<open>C10: The call stack of an allocation, taken into a fresh record: the frames after the eight of
  the probe machinery, cut to 26 and padded with zeros; the modules of these frames in order,
  without NULLs and adjacent repetitions, at most four, the rest of the array zero. The trace
  descriptor used is back in its pool, and no other record changes.\<close>

theorem get_lp_call_stack_correct:
  assumes "st_frees (st_pool ps) sts" and "sts \<noteq> []"
    and "entries (lp_at (lp_pool ps) lp) = replicate LOG_PAGE_TRACE_LEVEL 0"
    and "lp_module_info (lp_at (lp_pool ps) lp) = replicate LOG_MODULE_MAX_NUM no_module"
    and "tr = take LOG_PAGE_TRACE_LEVEL (drop 8 frames @ replicate LOG_PAGE_TRACE_LEVEL 0)"
    and "ms = take 4 (remdups_adj (filter (\<lambda>m. m \<noteq> 0) (map ma tr)))"
  shows "\<exists>ps'. get_lp_call_stack ma mn frames lp ps = Inr ps' \<and>
    entries (lp_at (lp_pool ps') lp) = tr \<and>
    lp_module_info (lp_at (lp_pool ps') lp) =
      map (\<lambda>m. \<lparr>mod_ptr = m, mod_name = mn m\<rparr>) ms @ replicate (4 - length ms) no_module \<and>
    (\<forall>q. q \<noteq> lp \<longrightarrow> lp_at (lp_pool ps') q = lp_at (lp_pool ps) q) \<and>
    st_frees (st_pool ps') sts"
proof -
  have tr: "tr = trace_of frames"
    unfolding assms(5) trace_of_def Let_def by (simp add: min_def)
  have ms: "modules_of ma mn tr =
      map (\<lambda>m. \<lparr>mod_ptr = m, mod_name = mn m\<rparr>) ms @ replicate (4 - length ms) no_module"
    unfolding assms(6) modules_of_def Let_def ..
  from get_lp_call_stack_fresh [OF assms(1,2) refl assms(3,4), of ma mn frames] obtain ps' where
    "get_lp_call_stack ma mn frames lp ps = Inr ps'" "st_frees (st_pool ps') sts"
    "lp_pool ps' = (lp_pool ps)\<lparr>lp_at := (lp_at (lp_pool ps))(lp := (lp_at (lp_pool ps) lp)
      \<lparr>entries := tr, lp_module_info := modules_of ma mn tr\<rparr>)\<rparr>"
    unfolding tr by blast
  then show ?thesis by (intro exI [of _ ps']) (simp add: ms)
qed

theorem get_lp_call_stack_correct_witness:
  "\<exists>ps'. get_lp_call_stack (\<lambda>a. a div 4096) (\<lambda>m. ''mod'') [1, 1, 1, 1, 1, 1, 1, 1, 4097, 8193] 0
      \<lparr>lp_pool = (demo_pool 0)\<lparr>lp_at := \<lambda>_. zero_lp\<rparr>, st_pool = demo_st\<rparr> = Inr ps' \<and>
    entries (lp_at (lp_pool ps') 0) = [4097, 8193] @ replicate 24 0 \<and>
    lp_module_info (lp_at (lp_pool ps') 0) =
      [\<lparr>mod_ptr = 1, mod_name = ''mod''\<rparr>, \<lparr>mod_ptr = 2, mod_name = ''mod''\<rparr>] @ replicate 2 no_module"
proof -
  let ?ps = "\<lparr>lp_pool = (demo_pool 0)\<lparr>lp_at := \<lambda>_. zero_lp\<rparr>, st_pool = demo_st\<rparr>"
  have st: "st_frees (st_pool ?ps) [0]" by (simp add: st_frees_def st_link_def st_slots_def demo_st_def)
  have tr: "[4097, 8193] @ replicate 24 0 = take LOG_PAGE_TRACE_LEVEL
      (drop 8 [1, 1, 1, 1, 1, 1, 1, 1, 4097, 8193] @ replicate LOG_PAGE_TRACE_LEVEL (0 :: u64))" by simp
  have ms: "[1, 2] = take 4 (remdups_adj (filter (\<lambda>m. m \<noteq> 0)
      (map (\<lambda>a. a div 4096) ([4097, 8193] @ replicate 24 (0 :: u64)))))" by simp
  from get_lp_call_stack_correct [OF st _ _ _ tr ms, of 0 "\<lambda>m. ''mod''"] obtain ps' where
    "get_lp_call_stack (\<lambda>a. a div 4096) (\<lambda>m. ''mod'') [1, 1, 1, 1, 1, 1, 1, 1, 4097, 8193] 0 ?ps = Inr ps'"
    "entries (lp_at (lp_pool ps') 0) = [4097, 8193] @ replicate 24 0"
    "lp_module_info (lp_at (lp_pool ps') 0) = map (\<lambda>m. \<lparr>mod_ptr = m, mod_name = ''mod''\<rparr>) [1, 2]
       @ replicate (4 - length [1 :: u64, 2]) no_module"
    by (auto simp: zero_lp_def)
  then show ?thesis by (intro exI [of _ ps']) simp
qed

section \<open>The pools\<close>

text \<open>Whatever sequence of allocations and releases runs on the record pool, no record is lost
  or handed out twice: the records out and the free list together are the whole array, once.\<close>

theorem lp_pool_conserves:
  assumes "lp_frees pool ps" and "distinct (out @ ps)" and "set (out @ ps) = lp_slots pool"
    and "pool_run u_alloc_lp u_free_lp calls out pool = Inr (out', pool')"
  shows "\<exists>ps'. lp_frees pool' ps' \<and> distinct (out' @ ps') \<and> set (out' @ ps') = lp_slots pool"
  using lpp.pool_run_accounted [OF lpp.accountedI [OF assms(1-3)] assms(4)]
  by (auto simp: lpp.accounted_def)

theorem lp_pool_conserves_witness:
  "\<exists>out pool ps. pool_run u_alloc_lp u_free_lp [Alloc, Alloc, Release 0] [] (demo_pool 0) = Inr (out, pool) \<and>
     lp_frees pool ps \<and> set (out @ ps) = {0, 1, 2}"
proof -
  obtain r where "pool_run u_alloc_lp u_free_lp [Alloc, Alloc, Release 0] [] (demo_pool 0) = Inr r"
    using lpp.pool_run_succeeds [OF demo_pool_accounted(1), of "[Alloc, Alloc, Release 0]"] by auto
  moreover obtain out pool where "r = (out, pool)" by (cases r)
  ultimately have
    r: "pool_run u_alloc_lp u_free_lp [Alloc, Alloc, Release 0] [] (demo_pool 0) = Inr (out, pool)"
    by simp
  have "distinct ([] @ [0, 1, 2 :: nat])" "set ([] @ [0, 1, 2]) = lp_slots (demo_pool 0)" by simp_all
  from lp_pool_conserves [OF demo_pool_frees(1) this r] r show ?thesis by (metis lp_slots_demo)
qed

text \<open>The same for the descriptor pool, and there an allocation after at most \<open>nr_st\<close> others
  does not fault.\<close>

theorem st_pool_conserves:
  assumes "st_frees pool ps" and "set ps = st_slots pool"
    and "length (filter (\<lambda>c. c = Alloc) calls) \<le> nr_st pool"
  shows "\<exists>out' pool' ps'. pool_run u_alloc_st u_free_st calls [] pool = Inr (out', pool') \<and>
    st_frees pool' ps' \<and> distinct (out' @ ps') \<and> set (out' @ ps') = {..<nr_st pool}"
proof -
  have acc: "stp.accounted [] pool"
    by (rule stp.accountedI [OF assms(1)]) (simp_all add: assms(2) stp.frees_distinct [OF assms(1)])
  have "length [] + length (filter (\<lambda>c. c = Alloc) calls) \<le> card (st_slots pool)"
    using assms(3) by (simp add: st_slots_def)
  from stp.pool_run_succeeds [OF acc this] obtain out' pool' where
    run: "pool_run u_alloc_st u_free_st calls [] pool = Inr (out', pool')" by auto
  have "stp.accounted out' pool' \<and> st_slots pool' = st_slots pool"
    by (rule stp.pool_run_accounted [OF acc run])
  then obtain ps' where "st_frees pool' ps'" "distinct (out' @ ps')"
    "set (out' @ ps') = st_slots pool" unfolding stp.accounted_def by metis
  with run show ?thesis unfolding st_slots_def by metis
qed

theorem st_pool_conserves_witness:
  "\<exists>out' pool' ps'. pool_run u_alloc_st u_free_st [Alloc, Release 0] [] demo_st = Inr (out', pool') \<and>
    st_frees pool' ps' \<and> set (out' @ ps') = {0}"
proof -
  have "st_frees demo_st [0]" by (simp add: st_frees_def st_link_def st_slots_def demo_st_def)
  from st_pool_conserves [OF this, of "[Alloc, Release 0]"] show ?thesis
    by (fastforce simp: demo_st_def st_slots_def)
qed

text \<open>C11: Taking a record dereferences the null pointer exactly when every record is in the tree or
  with an instance in flight. The comment over \<open>__alloc_lp\<close> says this cannot happen.\<close>

theorem alloc_lp_faults_iff:
  assumes "log_inv held s"
  shows "alloc_lp (lp_pool (pl_pools s)) = Inl NullDeref \<longleftrightarrow>
    set_tree (lp_root s) \<union> set held = lp_slots (lp_pool (pl_pools s))"
proof -
  have "log_wf held s" using assms by (simp add: log_inv_def)
  from lpp.alloc_fails_iff [OF log_wfD(2) [OF this]] show ?thesis by (simp add: alloc_lp_def)
qed

theorem alloc_lp_faults_iff_witness:
  "alloc_lp (lp_pool (pl_pools demo_full)) = Inl NullDeref"
  using alloc_lp_faults_iff [OF demo_full_inv] by (simp add: demo_full_def) auto

lemma tree_le_owned:
  assumes "log_wf held s" and "finite {p. owner s p \<noteq> None}"
  shows "card (set_tree (lp_root s)) \<le> card {p. owner s p \<noteq> None}"
proof (rule card_inj_on_le [where f = "\<lambda>q. start_page (records s q)"])
  note o = log_wfD(1) [OF assms(1)]
  have ne: "start_page (records s q) \<in> pages (lp_range (records s q))" if "q \<in> set_tree (lp_root s)" for q
    using o that by (auto simp: ordered_def nonempty_def mem_pages)
  show "inj_on (\<lambda>q. start_page (records s q)) (set_tree (lp_root s))"
  proof (rule inj_onI)
    fix q r assume qr: "q \<in> set_tree (lp_root s)" "r \<in> set_tree (lp_root s)"
      "start_page (records s q) = start_page (records s r)"
    then have "start_page (records s q) \<in> pages (lp_range (records s q)) \<inter> pages (lp_range (records s r))"
      using ne by (metis Int_iff)
    then show "q = r" using ordered_disjoint [OF o, of q r] qr(1,2) by auto
  qed
  show "(\<lambda>q. start_page (records s q)) ` set_tree (lp_root s) \<subseteq> {p. owner s p \<noteq> None}"
    using ne owner_None_iff [OF assms(1)] by blast
  show "finite {p. owner s p \<noteq> None}" by (rule assms(2))
qed

text \<open>C12: The records are enough while the pages owned and the instances in flight are fewer than
  the frames counted at load time: each record in the tree owns a page of its own.\<close>

theorem records_suffice:
  assumes "log_inv held s" and "finite {p. owner s p \<noteq> None}"
    and "card {p. owner s p \<noteq> None} + length held < unat (nr_lp (lp_pool (pl_pools s)))"
  shows "alloc_lp (lp_pool (pl_pools s)) \<noteq> Inl NullDeref"
proof -
  have wf: "log_wf held s" using assms(1) by (simp add: log_inv_def)
  have "card (set_tree (lp_root s) \<union> set held) \<le> card (set_tree (lp_root s)) + card (set held)"
    by (rule card_Un_le)
  also have "\<dots> < unat (nr_lp (lp_pool (pl_pools s)))"
    using tree_le_owned [OF wf assms(2)] card_length [of held] assms(3) by linarith
  finally have "set_tree (lp_root s) \<union> set held \<noteq> lp_slots (lp_pool (pl_pools s))"
    unfolding lp_slots_def by (metis card_lessThan nat_neq_iff)
  then show ?thesis using lpp.alloc_fails_iff [OF log_wfD(2) [OF wf]] by (simp add: alloc_lp_def)
qed

theorem records_suffice_witness:
  "log_inv [] demo_start \<and> alloc_lp (lp_pool (pl_pools demo_start)) \<noteq> Inl NullDeref"
proof -
  have inv: "log_inv [] demo_start"
    by (simp add: log_inv_def log_wf_def demo_start_def ordered_def demo_pool_accounted)
  have "{p. owner demo_start p \<noteq> None} = {}"
    by (simp add: owner_def owner_of_def demo_start_def)
  with records_suffice [OF inv] inv show ?thesis by (simp add: demo_start_def demo_pool_def)
qed

section \<open>Loading\<close>

text \<open>The number of records is the number of valid page frames of the online nodes, each node
  read as its zones laid end to end from its first frame, as long as no frame number wraps.\<close>

theorem get_nr_pages_counts:
  assumes "\<forall>nd\<in>set nodes. unat (node_start_pfn nd) +
      sum_list (map (\<lambda>z. unat (spanned_pages z)) (node_zones nd)) < 2 ^ 64"
  shows "get_nr_pages v nodes = of_nat (sum_list (map (\<lambda>nd. card {x. v x \<and>
      unat (node_start_pfn nd) \<le> unat x \<and> unat x < unat (node_start_pfn nd) +
      sum_list (map (\<lambda>z. unat (spanned_pages z)) (node_zones nd))}) nodes))"
proof -
  have eq: "node_frames v nd = {x. v x \<and> unat (node_start_pfn nd) \<le> unat x \<and>
      unat x < unat (node_start_pfn nd) + sum_list (map (\<lambda>z. unat (spanned_pages z)) (node_zones nd))}"
    for nd by (auto simp: node_frames_def span_def spanned_def)
  show ?thesis unfolding get_nr_pages_def
    using count_nodes_card [of nodes v 0] assms by (simp add: eq spanned_def)
qed

theorem get_nr_pages_counts_witness:
  "get_nr_pages (\<lambda>_. True) [\<lparr>node_start_pfn = 2, node_zones = [\<lparr>spanned_pages = 1\<rparr>, \<lparr>spanned_pages = 2\<rparr>]\<rparr>] = 3"
proof -
  let ?nodes = "[\<lparr>node_start_pfn = 2, node_zones = [\<lparr>spanned_pages = 1\<rparr>, \<lparr>spanned_pages = 2\<rparr>]\<rparr>]"
  have "{x :: u64. 2 \<le> unat x \<and> unat x < 5} = {2, 3, 4}"
  proof (rule set_eqI)
    fix x :: u64
    have "2 \<le> unat x \<and> unat x < 5 \<longleftrightarrow> unat x = 2 \<or> unat x = 3 \<or> unat x = 4" by auto
    also have "\<dots> \<longleftrightarrow> x = 2 \<or> x = 3 \<or> x = 4" by (simp add: word_unat_eq_iff)
    finally show "x \<in> {x. 2 \<le> unat x \<and> unat x < 5} \<longleftrightarrow> x \<in> {2, 3, 4}" by simp
  qed
  with get_nr_pages_counts [of ?nodes "\<lambda>_. True"] show ?thesis by simp
qed

text \<open>C15: Loading is all or nothing. If it fails, no probe stays registered and neither area stays
  mapped. If it succeeds, the three probes are registered, both areas are mapped and all their
  objects are free, one record per page frame.\<close>

theorem init_all_or_nothing:
  assumes "huawei_log_page_init E m = (ret, m')" and "unloaded m" and "0 < NR_CPUS E"
  shows "if ret = 0
    then set (m_probes m') = {FreePagesOk, FreeHotColdPage, AllocPagesNodemask} \<and>
      lp_area (the_lp_pool m') \<and> st_area (the_st_pool m') \<and>
      lpp.accounted [] (the_lp_pool m') \<and> stp.accounted [] (the_st_pool m') \<and>
      lp_slots (the_lp_pool m') = {..<unat (get_nr_pages (pfn_valid E) (online_nodes E))}
    else unloaded m'"
proof -
  obtain r1 p where lp: "init_lp_pool (pfn_valid E) (online_nodes E) (vmalloc_lp E) (the_lp_pool m) = (r1, p)" by fastforce
  obtain r2 q where st: "init_st_pool (CONFIG_PREEMPT E) (NR_CPUS E) (vmalloc_st E) (the_st_pool m) = (r2, q)"
    by fastforce
  let ?m = "on_st_pool q (on_lp_pool p m)"
  obtain r3 n where reg: "register_probes E ?m = (r3, n)" by fastforce
  have n: "m_log n = m_log ?m"
    "if r3 = 0 then m_probes n = [AllocPagesNodemask, FreeHotColdPage, FreePagesOk] else m_probes n = []"
    using register_probes_effect [OF reg] assms(2) by (simp_all add: unloaded_def split: if_splits)
  then have pools: "the_lp_pool n = p" "the_st_pool n = q" by simp_all
  note ini = assms(1) [unfolded huawei_log_page_init_def lp Let_def prod.case]
  show ?thesis
  proof (cases "r1 = 0 \<and> r2 = 0 \<and> r3 = 0")
    case True
    then have "ret = 0" "m' = n" using ini st reg by simp_all
    with True n pools init_lp_pool_area [OF lp] init_st_pool_area [OF st]
      init_lp_pool_accounted [OF lp [unfolded conjunct1 [OF True]]]
      init_st_pool_accounted [OF st [unfolded conjunct1 [OF conjunct2 [OF True]]] assms(3)]
    show ?thesis by auto
  next
    case False
    then show ?thesis
      using ini st reg n pools init_lp_pool_area [OF lp] init_st_pool_area [OF st] assms(2)
      by (auto simp: unloaded_def exit_lp_pool_def exit_st_pool_def split: if_splits)
  qed
qed

definition demo_unloaded :: log_module where
  "demo_unloaded = \<lparr>m_log = demo_start\<lparr>pl_pools := \<lparr>lp_pool = (demo_pool 0)\<lparr>lp_area := False\<rparr>,
     st_pool = demo_st\<lparr>st_area := False\<rparr>\<rparr>\<rparr>, m_probes = []\<rparr>"

definition demo_boot :: "int \<Rightarrow> boot" where
  "demo_boot r = \<lparr>pfn_valid = (\<lambda>_. True), online_nodes = [], vmalloc_lp = (\<lambda>_. Some (\<lambda>_. zero_lp)),
     vmalloc_st = (\<lambda>_. Some (st_at demo_st)), CONFIG_PREEMPT = False, NR_CPUS = 1,
     register_answer = (\<lambda>p. if p = AllocPagesNodemask then r else 0)\<rparr>"

theorem init_all_or_nothing_witness:
  "fst (huawei_log_page_init (demo_boot (-22)) demo_unloaded) = -1 \<and>
   unloaded (snd (huawei_log_page_init (demo_boot (-22)) demo_unloaded))"
proof -
  have u: "unloaded demo_unloaded" by (simp add: unloaded_def demo_unloaded_def)
  obtain ret m where r: "huawei_log_page_init (demo_boot (-22)) demo_unloaded = (ret, m)" by fastforce
  then have "ret = -1"
    by (auto simp: huawei_log_page_init_def init_lp_pool_def init_st_pool_def register_probes_def
        register_free_pages_ok_def register_free_hot_cold_page_def register_alloc_pages_nodemask_def
        demo_boot_def Let_def MAXACTIVE_def)
  with init_all_or_nothing [OF r u] r show ?thesis by (simp add: demo_boot_def)
qed

text \<open>A log that was loaded successfully is an initial state of the machine, and its descriptors are
  enough for one on every processor.\<close>

lemma init_started:
  assumes "huawei_log_page_init E m = (0, m')" and "unloaded m" and "0 < NR_CPUS E"
    and "lp_root (m_log m) = Leaf" and "ri_data (m_log m) = (\<lambda>_. None)"
  shows "started (m_log m')" and "NR_CPUS E \<le> nr_st (the_st_pool m')"
proof -
  obtain r1 p where lp: "init_lp_pool (pfn_valid E) (online_nodes E) (vmalloc_lp E) (the_lp_pool m) = (r1, p)" by fastforce
  obtain r2 q where st: "init_st_pool (CONFIG_PREEMPT E) (NR_CPUS E) (vmalloc_st E) (the_st_pool m) = (r2, q)"
    by fastforce
  let ?m = "on_st_pool q (on_lp_pool p m)"
  obtain r3 n where reg: "register_probes E ?m = (r3, n)" by fastforce
  have n: "m_log n = m_log ?m"
    using register_probes_effect [OF reg] assms(2) by (simp add: unloaded_def)
  have ok: "r1 = 0" "r2 = 0" "m' = n"
    using assms(1) [unfolded huawei_log_page_init_def lp Let_def prod.case] st reg
    by (simp_all split: if_splits)
  from init_lp_pool_accounted [OF lp [unfolded ok(1)]]
    init_st_pool_accounted [OF st [unfolded ok(2)] assms(3)] n ok(3) assms(4,5)
  show "started (m_log m')" by (simp add: started_def)
  have "NR_CPUS E \<le> nr_st q" using st ok(2)
    by (auto simp: init_st_pool_def Let_def MAXACTIVE_def fold_free_st_nr split: option.splits if_splits)
  then show "NR_CPUS E \<le> nr_st (the_st_pool m')" by (simp add: ok(3) n)
qed

lemma init_starts_machine:
  assumes "huawei_log_page_init E m = (0, m')" and "unloaded m" and "0 < NR_CPUS E"
    and "lp_root (m_log m) = Leaf" and "ri_data (m_log m) = (\<lambda>_. None)"
  shows "probe_run K (m_log m') (m_log m')"
  by (rule run_start [OF init_started(1) [OF assms]])

section \<open>Printing\<close>

lemma after_append: "distinct (xs @ y # ys) \<Longrightarrow>
    after y (xs @ y # ys) = (case ys of [] \<Rightarrow> None | z # _ \<Rightarrow> Some z)"
proof (induction xs)
  case Nil
  then show ?case by (cases ys) auto
next
  case (Cons x xs)
  then show ?case by (cases xs) auto
qed

lemma print_loop_prints:
  assumes "rb_laws (k_rb K)" and "inorder (lp_root s) = xs @ lp # ys" and "distinct (inorder (lp_root s))"
  shows "print_loop K lp s = Some (printk
    (concat (map (\<lambda>q. print_log_page K (Some (records s q))) (lp # ys))) s)"
  using assms(2,3)
proof (induction ys arbitrary: xs lp s)
  case Nil
  with assms(1) after_append [of xs lp "[]"] have "rb_next (k_rb K) lp (lp_root s) = None"
    by (simp add: rb_laws_def)
  then show ?case by (subst print_loop.simps) (simp add: Let_def)
next
  case (Cons z ys)
  with assms(1) after_append [of xs lp "z # ys"] have nx: "rb_next (k_rb K) lp (lp_root s) = Some z"
    by (simp add: rb_laws_def)
  let ?s = "printk (print_log_page K (Some (records s lp))) s"
  have "print_loop K z ?s = Some (printk
      (concat (map (\<lambda>q. print_log_page K (Some (records ?s q))) (z # ys))) ?s)"
    using Cons.prems by (intro Cons.IH [of _ "xs @ [lp]"]) (simp_all add: printk_def)
  with nx show ?case by (subst print_loop.simps) (simp add: Let_def printk_def)
qed

text \<open>C16: Printing the whole log returns, and prints the records in the order of their pages, once
  each; on an empty log it follows an invalid pointer instead.\<close>

theorem print_log_page_all_prints:
  assumes "rb_laws (k_rb K)" and "log_inv held s"
  shows "print_log_page_all K s =
    (if lp_root s = Leaf then Some (Inl NullDeref)
     else Some (Inr (s\<lparr>console := console s @
       concat (map (\<lambda>q. print_log_page K (Some (records s q))) (inorder (lp_root s)))\<rparr>)))"
proof -
  have "distinct (inorder (lp_root s))"
    using assms(2) ordered_distinct log_wfD(1) by (auto simp: log_inv_def)
  with assms(1) print_loop_prints [OF assms(1), of s "[]"] show ?thesis
    by (cases "inorder (lp_root s)")
      (auto simp: print_log_page_all_def rb_laws_def printk_def dest: arg_cong [of _ _ length])
qed

theorem print_log_page_all_prints_witness:
  "print_log_page_all demo_K demo_log = Some (Inr (demo_log\<lparr>console :=
     print_log_page demo_K (Some (demo_rec 4 8))\<rparr>))"
  using print_log_page_all_prints [OF demo_laws demo_log_inv]
  by (simp add: demo_log_def demo_pool_def)

text \<open>The query for one page prints that it is untracked exactly when nobody owns it, and
  otherwise the record that holds it.\<close>

theorem print_page_reports:
  assumes "log_inv held s"
  shows "\<exists>ls. print_page K page s = s\<lparr>console := console s @ ls\<rparr> \<and>
    (owner s page = None \<longleftrightarrow> ls = [Untracked]) \<and>
    (\<forall>q\<in>set_tree (lp_root s). page \<in> pages (lp_range (records s q)) \<longrightarrow>
       ls = print_log_page K (Some (records s q)))"
proof -
  have wf: "log_wf held s" using assms by (simp add: log_inv_def)
  have ow: "owner s page = map_option (\<lambda>q. lp_info (records s q)) (find_lp (records s) page (lp_root s))"
    unfolding owner_def by (rule tree.owner_look [OF log_wfD(1) [OF wf]])
  let ?ls = "print_log_page K (map_option (records s) (find_lp (records s) page (lp_root s)))"
  have one: "print_log_page K x = [Untracked] \<longleftrightarrow> x = None" for x
    by (cases x) (auto simp: print_log_page_def)
  have "?ls = print_log_page K (Some (records s q))"
    if "q \<in> set_tree (lp_root s)" "page \<in> pages (lp_range (records s q))" for q
    using find_lp_iff [OF log_wfD(1) [OF wf], of page q] that by simp
  then show ?thesis
    by (intro exI [of _ ?ls]) (simp add: print_page_def printk_def ow one)
qed

theorem print_page_reports_witness:
  "\<exists>ls. print_page demo_K 5 demo_log = demo_log\<lparr>console := ls\<rparr> \<and> ls \<noteq> [Untracked]"
  using print_page_reports [OF demo_log_inv, of demo_K 5]
  by (auto simp: demo_log_owner) (simp add: demo_log_def)

end
