(* ===== verification/Log_Smp.thy ===== *)
theory Log_Smp
  imports Log_Machine
begin

text \<open>
  The page log on several processors, mem_leak/kerspace/huawei_log_page.c. Theory Log_Page has each
  handler as one operation; here a handler is the sequence of its atomic sections: what it does under
  one of the three spin locks, or to a record or a descriptor it has taken for itself. The sections of
  different processors interleave freely, except that a processor that wants \<open>lp_lock\<close> waits for it.
\<close>

section \<open>The sections of the stack capture\<close>

text \<open>The four assignments to the descriptor before the walk, and the loop over the entries after it.\<close>

definition start_trace :: "st_ptr \<Rightarrow> lp_ptr \<Rightarrow> pools \<Rightarrow> pools" where
  "start_trace st lp s =
     s\<lparr>st_pool := (st_pool s)\<lparr>st_at := (st_at (st_pool s))(st := (st_at (st_pool s) st)
         \<lparr>nr_entries := 0, max_entries := LOG_PAGE_TRACE_LEVEL, st_entries := lp,
          skip := KPROBES_SKIP_NUM\<rparr>)\<rparr>\<rparr>"

definition record_lp_modules :: "kernel \<Rightarrow> lp_ptr \<Rightarrow> pools \<Rightarrow> pools" where
  "record_lp_modules K lp s =
     (let r = lp_at (lp_pool s) lp;
          r = r\<lparr>lp_module_info :=
                record_modules (module_address K) (name_of_module K)
                  (map (\<lambda>i. entries r ! i) [0..<LOG_PAGE_TRACE_LEVEL]) 0 0 (lp_module_info r)\<rparr>
      in s\<lparr>lp_pool := (lp_pool s)\<lparr>lp_at := (lp_at (lp_pool s))(lp := r)\<rparr>\<rparr>)"

lemma get_lp_call_stack_sections:
  "get_lp_call_stack (module_address K) (name_of_module K) frames lp s =
     bind_result (alloc_st (st_pool s)) (\<lambda>(st, stp).
       Inr (let s = record_lp_modules K lp
                  (fold (hw_save_stack_address st) frames (start_trace st lp (s\<lparr>st_pool := stp\<rparr>)))
            in s\<lparr>st_pool := free_st st (st_pool s)\<rparr>))"
  by (simp add: get_lp_call_stack_def start_trace_def record_lp_modules_def Let_def)

section \<open>State\<close>

text \<open>
  Where a processor is. In the entry handler it has a record, at first only that, then with the order
  written, then with a descriptor, then walking the stack with some frames to come, then with the
  modules recorded, then with the descriptor given back. In the return handler the range is written and
  the record is to be inserted. The others hold \<open>lp_lock\<close>: taking a block out, or printing.
\<close>

datatype stage =
    Took
  | Ordered
  | Got_st st_ptr
  | Walking st_ptr "u64 list"
  | Recorded st_ptr
  | Filled

datatype point =
    Idle
  | Entry nat u64 "u64 list" lp_ptr stage
  | Return nat page_ptr u32 lp_ptr
  | Freeing page_ptr page_ptr page_ptr
  | Printing page_ptr

record smp =
  sm_log :: page_log
  lp_lock :: "nat option"
  pc :: "nat \<Rightarrow> point"

definition goto :: "nat \<Rightarrow> point \<Rightarrow> page_log \<Rightarrow> smp \<Rightarrow> smp" where
  "goto c p l s = s\<lparr>sm_log := l, pc := (pc s)(c := p)\<rparr>"

definition on_pools :: "(pools \<Rightarrow> pools) \<Rightarrow> page_log \<Rightarrow> page_log" where
  "on_pools f l = l\<lparr>pl_pools := f (pl_pools l)\<rparr>"

definition set_instance :: "nat \<Rightarrow> lp_ptr option \<Rightarrow> page_log \<Rightarrow> page_log" where
  "set_instance ri x l = l\<lparr>ri_data := (ri_data l)(ri := x)\<rparr>"

text \<open>The instance a handler runs for, and the pages a return handler is about to record.\<close>

fun instance_at :: "point \<Rightarrow> nat option" where
  "instance_at (Entry ri si frames lp g) = Some ri"
| "instance_at (Return ri page order lp) = Some ri"
| "instance_at _ = None"

fun pending :: "point \<Rightarrow> page_ptr set" where
  "pending (Return ri page order lp) = block page order"
| "pending _ = {}"

definition busy :: "smp \<Rightarrow> nat \<Rightarrow> bool" where
  "busy s ri \<longleftrightarrow> (\<exists>c. instance_at (pc s c) = Some ri)"

section \<open>Steps\<close>

text \<open>
  One section of the processor \<open>c\<close>. The kernel runs an instance on one processor at a time, and its
  allocator grants only pages that nobody owns and that no other processor was granted.
\<close>

inductive smp_step :: "kernel \<Rightarrow> nat \<Rightarrow> smp \<Rightarrow> smp \<Rightarrow> bool" for K c s where
  take_lp: "pc s c = Idle \<Longrightarrow> ri_data (sm_log s) ri = None \<Longrightarrow> \<not> busy s ri \<Longrightarrow>
    alloc_lp (lp_pool (pl_pools (sm_log s))) = Inr (lp, pool) \<Longrightarrow>
    smp_step K c s (goto c (Entry ri si frames lp Took) (put_pool pool (sm_log s)) s)"
| set_order: "pc s c = Entry ri si frames lp Took \<Longrightarrow>
    smp_step K c s (goto c (Entry ri si frames lp Ordered)
      (put_lp lp ((records (sm_log s) lp)\<lparr>lp_u := Order (ucast si)\<rparr>) (sm_log s)) s)"
| take_st: "pc s c = Entry ri si frames lp Ordered \<Longrightarrow>
    alloc_st (st_pool (pl_pools (sm_log s))) = Inr (st, pool) \<Longrightarrow>
    smp_step K c s (goto c (Entry ri si frames lp (Got_st st)) (on_pools (st_pool_update (\<lambda>_. pool)) (sm_log s)) s)"
| set_st: "pc s c = Entry ri si frames lp (Got_st st) \<Longrightarrow>
    smp_step K c s (goto c (Entry ri si frames lp (Walking st frames)) (on_pools (start_trace st lp) (sm_log s)) s)"
| save_frame: "pc s c = Entry ri si frames lp (Walking st (a # todo)) \<Longrightarrow>
    smp_step K c s (goto c (Entry ri si frames lp (Walking st todo))
      (on_pools (hw_save_stack_address st a) (sm_log s)) s)"
| save_modules: "pc s c = Entry ri si frames lp (Walking st []) \<Longrightarrow>
    smp_step K c s (goto c (Entry ri si frames lp (Recorded st)) (on_pools (record_lp_modules K lp) (sm_log s)) s)"
| give_st: "pc s c = Entry ri si frames lp (Recorded st) \<Longrightarrow>
    smp_step K c s (goto c (Entry ri si frames lp Filled) (on_pools (st_pool_update (free_st st)) (sm_log s)) s)"
| set_data: "pc s c = Entry ri si frames lp Filled \<Longrightarrow>
    smp_step K c s (goto c Idle (set_instance ri (Some lp) (sm_log s)) s)"
| give_lp: "pc s c = Idle \<Longrightarrow> ri_data (sm_log s) ri = Some lp \<Longrightarrow> \<not> busy s ri \<Longrightarrow>
    smp_step K c s (goto c Idle (set_instance ri None
      (put_pool (free_lp lp (lp_pool (pl_pools (sm_log s)))) (sm_log s))) s)"
| set_range: "pc s c = Idle \<Longrightarrow> ri_data (sm_log s) ri = Some lp \<Longrightarrow> \<not> busy s ri \<Longrightarrow>
    lp_u (records (sm_log s) lp) = Order order \<Longrightarrow> page \<noteq> 0 \<Longrightarrow> unat order < 31 \<Longrightarrow>
    \<forall>p\<in>block page order. owner (sm_log s) p = None \<Longrightarrow> \<forall>d. block page order \<inter> pending (pc s d) = {} \<Longrightarrow>
    smp_step K c s (goto c (Return ri page order lp)
      (put_lp lp ((records (sm_log s) lp)\<lparr>start_page := page, end_page := page_end page order\<rparr>) (sm_log s)) s)"
| link_lp: "pc s c = Return ri page order lp \<Longrightarrow> lp_lock s = None \<Longrightarrow>
    smp_step K c s (goto c Idle (set_instance ri None (log_insert K lp (sm_log s))) s)"
| lock_free: "pc s c = Idle \<Longrightarrow> lp_lock s = None \<Longrightarrow> unat order < 31 \<Longrightarrow>
    smp_step K c s (goto c (Freeing page (page_end page order) page) (sm_log s) (s\<lparr>lp_lock := Some c\<rparr>))"
| free_round: "pc s c = Freeing page end start \<Longrightarrow> free_step K end start (sm_log s) = Inr (start', l) \<Longrightarrow>
    start' \<noteq> end \<Longrightarrow> smp_step K c s (goto c (Freeing page end start') l s)"
| free_last: "pc s c = Freeing page end start \<Longrightarrow> free_step K end start (sm_log s) = Inr (start', l) \<Longrightarrow>
    start' = end \<Longrightarrow> smp_step K c s (goto c Idle l (s\<lparr>lp_lock := None\<rparr>))"
| lock_print: "pc s c = Idle \<Longrightarrow> lp_lock s = None \<Longrightarrow>
    smp_step K c s (goto c (Printing page) (sm_log s) (s\<lparr>lp_lock := Some c\<rparr>))"
| print_it: "pc s c = Printing page \<Longrightarrow>
    smp_step K c s (goto c Idle (print_page K page (sm_log s)) (s\<lparr>lp_lock := None\<rparr>))"

inductive smp_run :: "kernel \<Rightarrow> smp \<Rightarrow> smp \<Rightarrow> bool" for K where
  smp_refl: "smp_run K s s"
| smp_next: "smp_run K s s' \<Longrightarrow> smp_step K c s' s'' \<Longrightarrow> smp_run K s s''"

text \<open>All processors idle over a log that was just loaded.\<close>

definition smp_start :: "smp \<Rightarrow> bool" where
  "smp_start s \<longleftrightarrow> started (sm_log s) \<and> lp_lock s = None \<and> pc s = (\<lambda>_. Idle)"

definition at_rest :: "page_log \<Rightarrow> smp" where
  "at_rest l = \<lparr>sm_log = l, lp_lock = None, pc = (\<lambda>_. Idle)\<rparr>"

lemma at_rest_start [simp]: "smp_start (at_rest l) \<longleftrightarrow> started l"
  by (simp add: smp_start_def at_rest_def)

section \<open>Interrupts\<close>

text \<open>
  The handlers run with interrupts off, but \<open>print_page\<close> does not: it is called by other modules and
  takes the lock with \<open>spin_lock\<close>. An interrupt on its processor may free pages, and the probe of that
  then wants the lock: \<open>spin\<close> are the processors whose interrupted \<open>print_page\<close> cannot go on before.
\<close>

inductive irq_step :: "kernel \<Rightarrow> smp \<times> nat set \<Rightarrow> smp \<times> nat set \<Rightarrow> bool" for K where
  section_runs: "c \<notin> spin \<Longrightarrow> smp_step K c s s' \<Longrightarrow> irq_step K (s, spin) (s', spin)"
| interrupted: "pc s c = Printing page \<Longrightarrow> irq_step K (s, spin) (s, insert c spin)"
| handled: "c \<in> spin \<Longrightarrow> lp_lock s = None \<Longrightarrow> do_log_page_free K page order (sm_log s) = Some (Inr l) \<Longrightarrow>
    irq_step K (s, spin) (s\<lparr>sm_log := l\<rparr>, spin - {c})"

inductive irq_run :: "kernel \<Rightarrow> smp \<times> nat set \<Rightarrow> smp \<times> nat set \<Rightarrow> bool" for K where
  irq_refl: "irq_run K x x"
| irq_next: "irq_run K x y \<Longrightarrow> irq_step K y z \<Longrightarrow> irq_run K x z"

end
