(* ===== verification/Log_Smp_Inv.thy ===== *)
theory Log_Smp_Inv
  imports Log_Smp
begin

text \<open>
  The invariant of the page log on several processors: every record and every descriptor has one
  place, and every processor in a handler has what the sections it has run left behind.
\<close>

section \<open>Records without descriptors\<close>

text \<open>
  The invariant of theory Log_Inv wants all descriptors back in their pool. Its part about records does
  not depend on the descriptors, so it holds of a log exactly if the whole invariant holds of the same
  log with a full pool of one descriptor.
\<close>

definition recs_inv :: "lp_ptr list \<Rightarrow> page_log \<Rightarrow> bool" where
  "recs_inv held l \<longleftrightarrow>
     ordered (records l) (inorder (lp_root l)) \<and>
     lpp.accounted (inorder (lp_root l) @ held) (lp_pool (pl_pools l)) \<and>
     (\<forall>lp\<in>set held. \<exists>ord. lp_u (records l lp) = Order ord)"

definition one_st :: st_pool_struct where
  "one_st = \<lparr>nr_st = 1, st_area = True,
     st_at = (\<lambda>_. \<lparr>nr_entries = 0, max_entries = 0, st_entries = 0, skip = 0, st_next = None\<rparr>),
     st_free = Some 0\<rparr>"

definition full_st :: "page_log \<Rightarrow> page_log" where
  "full_st l = on_pools (st_pool_update (\<lambda>_. one_st)) l"

lemma full_st_simps [simp]:
  "lp_root (full_st l) = lp_root l" "ri_data (full_st l) = ri_data l" "console (full_st l) = console l"
  "lp_pool (pl_pools (full_st l)) = lp_pool (pl_pools l)" "st_pool (pl_pools (full_st l)) = one_st"
  "owner (full_st l) = owner l" "pool_left (full_st l) = pool_left l"
  by (simp_all add: full_st_def on_pools_def owner_def pool_left_def)

lemma recs_inv_full: "recs_inv held l \<longleftrightarrow> log_inv held (full_st l)"
proof -
  have "st_frees one_st [0]" by (simp add: st_frees_def st_link_def st_slots_def one_st_def)
  then have "stp.accounted [] one_st"
    by (rule stp.accountedI) (auto simp: st_slots_def one_st_def)
  moreover have "st_slots one_st \<noteq> {}" by (auto simp: st_slots_def one_st_def)
  ultimately show ?thesis by (simp add: recs_inv_def log_inv_def log_wf_def)
qed

lemma full_st_ops [simp]:
  "put_pool p (full_st l) = full_st (put_pool p l)" "put_lp lp r (full_st l) = full_st (put_lp lp r l)"
  "log_insert K lp (full_st l) = full_st (log_insert K lp l)"
  "erase_lp rb lp (full_st l) = full_st (erase_lp rb lp l)"
  by (simp_all add: full_st_def on_pools_def put_pool_def put_lp_def log_insert_def erase_lp_def)

lemma free_step_full: "free_step K end start (full_st l) =
    map_sum id (map_prod id full_st) (free_step K end start l)"
  by (auto simp: free_step_def Let_def bind_result_def split: option.splits sum.splits)

lemma recs_distinct:
  assumes "recs_inv held l"
  shows "distinct (inorder (lp_root l) @ held)"
  using assms lpp.accounted_distinct unfolding recs_inv_def by blast

lemma recs_perm:
  assumes "recs_inv held l" and "distinct held'" and "set held' = set held"
  shows "recs_inv held' l"
proof -
  have "distinct (inorder (lp_root l) @ held')" using recs_distinct [OF assms(1)] assms(2,3) by auto
  with assms lpp.accounted_cong [of "inorder (lp_root l) @ held" _ "inorder (lp_root l) @ held'"]
  show ?thesis by (auto simp: recs_inv_def)
qed

section \<open>Writing one's own record\<close>

lemma recs_put:
  assumes "recs_inv held l" and "lp \<in> set held" and "lp_u r = Order ord"
  shows "recs_inv held (put_lp lp r l)" and "owner (put_lp lp r l) = owner l"
proof -
  have lp: "lp \<notin> set_tree (lp_root l)" using recs_distinct [OF assms(1)] assms(2) by auto
  have "ordered (records (put_lp lp r l)) (inorder (lp_root l)) = ordered (records l) (inorder (lp_root l))"
    by (rule ordered_cong) (use lp in auto)
  moreover have "lpp.accounted (inorder (lp_root l) @ held) ((lp_pool (pl_pools l))\<lparr>lp_at := (records l)(lp := r)\<rparr>)"
    using assms(1,2) by (subst accounted_upd) (auto simp: recs_inv_def)
  ultimately show "recs_inv held (put_lp lp r l)" using assms by (auto simp: recs_inv_def)
  have "owner_of (records (put_lp lp r l)) (inorder (lp_root l)) p = owner_of (records l) (inorder (lp_root l)) p" for p
    by (rule owner_of_cong) (use lp in auto)
  then show "owner (put_lp lp r l) = owner l" by (simp add: owner_def fun_eq_iff)
qed

text \<open>Everything else that does not touch records or the tree.\<close>

lemma recs_same:
  assumes "lp_pool (pl_pools l') = lp_pool (pl_pools l)" and "lp_root l' = lp_root l"
  shows "recs_inv held l' \<longleftrightarrow> recs_inv held l" and "owner l' = owner l"
  using assms by (simp_all add: recs_inv_def owner_def)

definition put_st :: "st_ptr \<Rightarrow> st \<Rightarrow> page_log \<Rightarrow> page_log" where
  "put_st x d l = on_pools (st_pool_update (st_at_update (\<lambda>f. f(x := d)))) l"

lemma put_st_simps [simp]:
  "lp_pool (pl_pools (put_st x d l)) = lp_pool (pl_pools l)" "lp_root (put_st x d l) = lp_root l"
  "ri_data (put_st x d l) = ri_data l" "console (put_st x d l) = console l"
  "st_at (st_pool (pl_pools (put_st x d l))) = (st_at (st_pool (pl_pools l)))(x := d)"
  by (simp_all add: put_st_def on_pools_def)

lemma put_st_accounted:
  assumes "x \<in> set xs"
  shows "stp.accounted xs (st_pool (pl_pools (put_st x d l))) = stp.accounted xs (st_pool (pl_pools l))"
proof -
  have eq: "st_pool (pl_pools (put_st x d l)) = (st_pool (pl_pools l))
      \<lparr>st_at := (st_at (st_pool (pl_pools l)))(x := d)\<rparr>" by (simp add: put_st_def on_pools_def)
  have "st_frees (st_pool (pl_pools (put_st x d l))) ps = st_frees (st_pool (pl_pools l)) ps"
    if "distinct (xs @ ps)" for ps
    unfolding eq using that assms by (intro st_frees_upd) auto
  moreover have "st_slots (st_pool (pl_pools (put_st x d l))) = st_slots (st_pool (pl_pools l))"
    by (simp add: eq)
  ultimately show ?thesis unfolding stp.accounted_def by auto
qed

section \<open>The walk\<close>

text \<open>Walking the rest \<open>todo\<close> of the frames with this descriptor completes the trace of all frames.\<close>

definition walking ::
  "log_page_struct \<Rightarrow> st \<Rightarrow> u32 \<Rightarrow> lp_ptr \<Rightarrow> u64 list \<Rightarrow> u64 list \<Rightarrow> bool"
where
  "walking r d order lp frames todo \<longleftrightarrow>
     max_entries d = LOG_PAGE_TRACE_LEVEL \<and> st_entries d = lp \<and> 0 \<le> skip d \<and>
     nr_entries d \<le> LOG_PAGE_TRACE_LEVEL \<and> length (entries r) = LOG_PAGE_TRACE_LEVEL \<and>
     r = zero_lp\<lparr>lp_u := Order order, entries := entries r\<rparr> \<and>
     (let n = nr_entries d; w = take (LOG_PAGE_TRACE_LEVEL - n) (drop (nat (skip d)) todo)
      in take n (entries r) @ w @ drop (n + length w) (entries r)) = trace_of frames"

lemma walking_start:
  assumes "max_entries d = LOG_PAGE_TRACE_LEVEL" and "st_entries d = lp" and "skip d = KPROBES_SKIP_NUM"
    and "nr_entries d = 0"
  shows "walking (zero_lp\<lparr>lp_u := Order order\<rparr>) d order lp frames frames"
  using assms by (simp add: walking_def zero_lp_def trace_of_def Let_def)

lemma walking_end: "walking r d order lp frames [] \<Longrightarrow>
    r = zero_lp\<lparr>lp_u := Order order, entries := trace_of frames\<rparr>"
  by (auto simp: walking_def Let_def)

lemma walking_order:
  assumes "walking r d order lp frames todo"
  shows "lp_u r = Order order"
proof -
  have "r = zero_lp\<lparr>lp_u := Order order, entries := entries r\<rparr>" using assms unfolding walking_def by blast
  then have "lp_u r = lp_u (zero_lp\<lparr>lp_u := Order order, entries := entries r\<rparr>)" by (rule arg_cong)
  then show ?thesis by simp
qed

lemma walking_save:
  assumes "walking (lp_at (lp_pool P) lp) (st_at (st_pool P) st) order lp frames (a # todo)"
  shows "\<exists>r d. hw_save_stack_address st a P =
      P\<lparr>lp_pool := (lp_pool P)\<lparr>lp_at := (lp_at (lp_pool P))(lp := r)\<rparr>,
        st_pool := (st_pool P)\<lparr>st_at := (st_at (st_pool P))(st := d)\<rparr>\<rparr> \<and>
    walking r d order lp frames todo"
proof -
  let ?r = "lp_at (lp_pool P) lp" and ?d = "st_at (st_pool P) st"
  let ?n = "nr_entries ?d" and ?e = "entries (lp_at (lp_pool P) lp)"
  note w = assms [unfolded walking_def Let_def]
  consider (skip) "0 < skip ?d" | (store) "skip ?d = 0" "?n < LOG_PAGE_TRACE_LEVEL"
    | (full) "skip ?d = 0" "?n = LOG_PAGE_TRACE_LEVEL" using w by linarith
  then show ?thesis
  proof cases
    case skip
    then have "nat (skip ?d) = Suc (nat (skip ?d - 1))" by simp
    with w skip have "walking ?r (?d\<lparr>skip := skip ?d - 1\<rparr>) order lp frames todo"
      by (simp add: walking_def Let_def)
    with skip show ?thesis
      by (intro exI [of _ ?r] exI [of _ "?d\<lparr>skip := skip ?d - 1\<rparr>"]) (simp add: hw_save_stack_address_def Let_def)
  next
    case store
    let ?r' = "?r\<lparr>entries := ?e[?n := a]\<rparr>" and ?d' = "?d\<lparr>nr_entries := ?n + 1\<rparr>"
    have "take (Suc ?n) (?e[?n := a]) = take ?n ?e @ [a]"
      using store(2) w by (simp add: take_Suc_conv_app_nth)
    moreover have "take (LOG_PAGE_TRACE_LEVEL - ?n) (a # todo) = a # take (LOG_PAGE_TRACE_LEVEL - Suc ?n) todo"
      using store(2) by (simp add: take_Cons')
    moreover have "?r' = zero_lp\<lparr>lp_u := Order order, entries := entries ?r'\<rparr>"
      using arg_cong [where f = "entries_update (\<lambda>_. ?e[?n := a])", OF conjunct1 [OF conjunct2 [OF conjunct2
        [OF conjunct2 [OF conjunct2 [OF conjunct2 [OF w]]]]]]] by simp
    ultimately have "walking ?r' ?d' order lp frames todo"
      using w store by (simp add: walking_def Let_def)
    with store w show ?thesis
      by (intro exI [of _ ?r'] exI [of _ ?d']) (simp add: hw_save_stack_address_def Let_def)
  next
    case full
    have r: "?r = zero_lp\<lparr>lp_u := Order order, entries := ?e\<rparr>" using w by blast
    have e: "?e = trace_of frames" using w full by simp
    have "walking ?r ?d order lp frames todo"
      unfolding walking_def Let_def using w full e r [unfolded e] by simp
    with full w show ?thesis
      by (intro exI [of _ ?r] exI [of _ ?d]) (simp add: hw_save_stack_address_def)
  qed
qed

section \<open>The invariant\<close>

text \<open>The record a processor has taken and not yet stored with an instance, and its descriptor.\<close>

fun record_at :: "point \<Rightarrow> lp_ptr option" where
  "record_at (Entry ri si frames lp g) = Some lp"
| "record_at _ = None"

fun descriptor_at :: "point \<Rightarrow> st_ptr option" where
  "descriptor_at (Entry ri si frames lp (Got_st st)) = Some st"
| "descriptor_at (Entry ri si frames lp (Walking st todo)) = Some st"
| "descriptor_at (Entry ri si frames lp (Recorded st)) = Some st"
| "descriptor_at _ = None"

fun holds_lock :: "point \<Rightarrow> bool" where
  "holds_lock (Freeing page end start) = True"
| "holds_lock (Printing page) = True"
| "holds_lock _ = False"

text \<open>Who has which record: an instance or a processor.\<close>

definition holder :: "smp \<Rightarrow> nat + nat \<Rightarrow> lp_ptr option" where
  "holder s = case_sum (ri_data (sm_log s)) (\<lambda>c. record_at (pc s c))"

abbreviation captured :: "kernel \<Rightarrow> u64 \<Rightarrow> u64 list \<Rightarrow> log_page_struct" where
  "captured K si frames \<equiv> zero_lp\<lparr>lp_u := Order (ucast si), entries := trace_of frames,
     lp_module_info := modules_of (module_address K) (name_of_module K) (trace_of frames)\<rparr>"

fun stage_ok :: "kernel \<Rightarrow> page_log \<Rightarrow> u64 \<Rightarrow> u64 list \<Rightarrow> lp_ptr \<Rightarrow> stage \<Rightarrow> bool" where
  "stage_ok K l si frames lp Took \<longleftrightarrow> records l lp = zero_lp"
| "stage_ok K l si frames lp Ordered \<longleftrightarrow> records l lp = zero_lp\<lparr>lp_u := Order (ucast si)\<rparr>"
| "stage_ok K l si frames lp (Got_st st) \<longleftrightarrow> records l lp = zero_lp\<lparr>lp_u := Order (ucast si)\<rparr>"
| "stage_ok K l si frames lp (Walking st todo) \<longleftrightarrow>
     walking (records l lp) (st_at (st_pool (pl_pools l)) st) (ucast si) lp frames todo"
| "stage_ok K l si frames lp (Recorded st) \<longleftrightarrow> records l lp = captured K si frames"
| "stage_ok K l si frames lp Filled \<longleftrightarrow> records l lp = captured K si frames"

fun point_ok :: "kernel \<Rightarrow> page_log \<Rightarrow> point \<Rightarrow> bool" where
  "point_ok K l Idle \<longleftrightarrow> True"
| "point_ok K l (Entry ri si frames lp g) \<longleftrightarrow> ri_data l ri = None \<and> stage_ok K l si frames lp g"
| "point_ok K l (Return ri page order lp) \<longleftrightarrow>
     ri_data l ri = Some lp \<and> lp_u (records l lp) = Order order \<and> unat order < 31 \<and>
     start_page (records l lp) = page \<and> end_page (records l lp) = page_end page order \<and>
     (\<forall>p\<in>block page order. owner l p = None)"
| "point_ok K l (Freeing page end start) \<longleftrightarrow>
     page \<le> start \<and> start < end \<and> (\<forall>p. page \<le> p \<and> p < start \<longrightarrow> owner l p = None)"
| "point_ok K l (Printing page) \<longleftrightarrow> True"

definition records_ok :: "smp \<Rightarrow> bool" where
  "records_ok s \<longleftrightarrow> inj_on (holder s) (dom (holder s)) \<and>
     (\<exists>held. set held = ran (holder s) \<and> recs_inv held (sm_log s))"

definition descriptors_ok :: "smp \<Rightarrow> bool" where
  "descriptors_ok s \<longleftrightarrow> inj_on (\<lambda>c. descriptor_at (pc s c)) (dom (\<lambda>c. descriptor_at (pc s c))) \<and>
     (\<exists>xs. set xs = ran (\<lambda>c. descriptor_at (pc s c)) \<and> stp.accounted xs (st_pool (pl_pools (sm_log s))))"

definition apart :: "smp \<Rightarrow> bool" where
  "apart s \<longleftrightarrow> (\<forall>c d. c \<noteq> d \<longrightarrow> pending (pc s c) \<inter> pending (pc s d) = {} \<and>
     (\<forall>ri. instance_at (pc s c) = Some ri \<longrightarrow> instance_at (pc s d) \<noteq> Some ri))"

definition locked :: "smp \<Rightarrow> bool" where
  "locked s \<longleftrightarrow> (\<forall>c. lp_lock s = Some c \<longleftrightarrow> holds_lock (pc s c))"

definition smp_inv :: "kernel \<Rightarrow> smp \<Rightarrow> bool" where
  "smp_inv K s \<longleftrightarrow> records_ok s \<and> descriptors_ok s \<and> (\<forall>c. point_ok K (sm_log s) (pc s c)) \<and> apart s \<and> locked s"

lemma smp_invD:
  assumes "smp_inv K s"
  shows "records_ok s" "descriptors_ok s" "point_ok K (sm_log s) (pc s c)" "apart s" "locked s"
  using assms by (auto simp: smp_inv_def)

lemma goto_simps [simp]:
  "sm_log (goto c p l s) = l" "lp_lock (goto c p l s) = lp_lock s" "pc (goto c p l s) = (pc s)(c := p)"
  by (simp_all add: goto_def)

lemma on_pools_simps [simp]:
  "pl_pools (on_pools f l) = f (pl_pools l)" "lp_root (on_pools f l) = lp_root l"
  "ri_data (on_pools f l) = ri_data l" "console (on_pools f l) = console l"
  by (simp_all add: on_pools_def)

lemma set_instance_simps [simp]:
  "pl_pools (set_instance ri x l) = pl_pools l" "lp_root (set_instance ri x l) = lp_root l"
  "ri_data (set_instance ri x l) = (ri_data l)(ri := x)" "owner (set_instance ri x l) = owner l"
  "recs_inv held (set_instance ri x l) \<longleftrightarrow> recs_inv held l"
  by (simp_all add: set_instance_def recs_inv_def)

section \<open>What other processors have is left alone\<close>

fun record_used :: "point \<Rightarrow> lp_ptr option" where
  "record_used (Entry ri si frames lp g) = Some lp"
| "record_used (Return ri page order lp) = Some lp"
| "record_used _ = None"

fun unowned_at :: "point \<Rightarrow> page_ptr set" where
  "unowned_at (Return ri page order lp) = block page order"
| "unowned_at (Freeing page end start) = {page..<start}"
| "unowned_at _ = {}"

lemma stage_ok_cong:
  assumes "stage_ok K l si frames lp g" and "records l' lp = records l lp"
    and "\<And>x. descriptor_at (Entry ri si frames lp g) = Some x \<Longrightarrow>
      st_at (st_pool (pl_pools l')) x = st_at (st_pool (pl_pools l)) x"
  shows "stage_ok K l' si frames lp g"
  using assms by (cases g) auto

lemma point_ok_cong:
  assumes "point_ok K l p"
    and "\<And>lp. record_used p = Some lp \<Longrightarrow> records l' lp = records l lp"
    and "\<And>x. descriptor_at p = Some x \<Longrightarrow> st_at (st_pool (pl_pools l')) x = st_at (st_pool (pl_pools l)) x"
    and "\<And>ri. instance_at p = Some ri \<Longrightarrow> ri_data l' ri = ri_data l ri"
    and "\<And>q. q \<in> unowned_at p \<Longrightarrow> owner l q = None \<Longrightarrow> owner l' q = None"
  shows "point_ok K l' p"
  using assms by (cases p) (auto intro: stage_ok_cong)

text \<open>A record used by one processor is used by no other, and is not in the tree.\<close>

lemma held_by:
  assumes "records_ok s" and "point_ok K (sm_log s) (pc s c)" and "record_used (pc s c) = Some lp"
  obtains k where "holder s k = Some lp" "k = Inr c \<or> (\<exists>ri. k = Inl ri \<and> instance_at (pc s c) = Some ri)"
  using assms(2,3) by (cases "pc s c") (auto simp: holder_def intro: that [of "Inr c"] that [of "Inl _"])

lemma record_apart:
  assumes "smp_inv K s" and "c \<noteq> d" and "record_used (pc s c) = Some lp"
  shows "record_used (pc s d) \<noteq> Some lp"
proof
  assume d: "record_used (pc s d) = Some lp"
  note inv = smp_invD [OF assms(1)]
  from held_by [OF inv(1,3) assms(3)] obtain k where
    k: "holder s k = Some lp" "k = Inr c \<or> (\<exists>ri. k = Inl ri \<and> instance_at (pc s c) = Some ri)" .
  from held_by [OF inv(1,3) d] obtain m where
    m: "holder s m = Some lp" "m = Inr d \<or> (\<exists>ri. m = Inl ri \<and> instance_at (pc s d) = Some ri)" .
  have "inj_on (holder s) (dom (holder s))" using inv(1) by (simp add: records_ok_def)
  with k(1) m(1) have "k = m" by (metis domI inj_onD)
  with k(2) m(2) assms(2) inv(4) show False by (auto simp: apart_def)
qed

lemma descriptor_apart:
  assumes "smp_inv K s" and "c \<noteq> d" and "descriptor_at (pc s c) = Some x"
  shows "descriptor_at (pc s d) \<noteq> Some x"
proof
  assume "descriptor_at (pc s d) = Some x"
  moreover have "inj_on (\<lambda>c. descriptor_at (pc s c)) (dom (\<lambda>c. descriptor_at (pc s c)))"
    using smp_invD(2) [OF assms(1)] by (simp add: descriptors_ok_def)
  ultimately have "c = d" using assms(3) by (metis (mono_tags, lifting) domI inj_onD)
  with assms(2) show False by simp
qed

end
