(* ===== verification/Log_Smp_Steps.thy ===== *)
theory Log_Smp_Steps
  imports Log_Smp_Inv
begin

text \<open>
  Each section of a processor keeps the invariant, and what it does to the owners of pages and to the
  instances in flight.
\<close>

section \<open>Injective maps\<close>

lemma inj_map_add: "inj_on f (dom f) \<Longrightarrow> v \<notin> ran f \<Longrightarrow> inj_on (f(k \<mapsto> v)) (dom (f(k \<mapsto> v)))"
  by (auto simp: inj_on_def ran_def)

lemma inj_map_del: "inj_on f (dom f) \<Longrightarrow> inj_on (f(k := None)) (dom (f(k := None)))"
  by (auto simp: inj_on_def)

lemma ran_del: "inj_on f (dom f) \<Longrightarrow> f k = Some v \<Longrightarrow> ran (f(k := None)) = ran f - {v}"
  by (auto simp: inj_on_def ran_def dom_def) (metis option.inject)

lemma inj_map_move:
  "inj_on f (dom f) \<Longrightarrow> f k = Some v \<Longrightarrow> f m = None \<Longrightarrow>
    inj_on (f(k := None, m \<mapsto> v)) (dom (f(k := None, m \<mapsto> v))) \<and> ran (f(k := None, m \<mapsto> v)) = ran f"
  using inj_map_add [of "f(k := None)" v m] inj_map_del [of f k] ran_del [of f k v]
  by (auto simp: ranI)

section \<open>The parts of the invariant\<close>

lemma apart_goto:
  assumes "apart s" and "\<And>ri. instance_at p = Some ri \<Longrightarrow> instance_at (pc s c) = Some ri \<or> \<not> busy s ri"
    and "pending p \<subseteq> pending (pc s c) \<or> (\<forall>d. pending p \<inter> pending (pc s d) = {})"
  shows "apart (goto c p l s)"
  using assms by (auto simp: apart_def busy_def) blast+

lemma locked_goto:
  "locked s \<Longrightarrow> holds_lock p = holds_lock (pc s c) \<Longrightarrow> locked (goto c p l s)"
  by (auto simp: locked_def)

lemma locked_take:
  "locked s \<Longrightarrow> lp_lock s = None \<Longrightarrow> holds_lock p \<Longrightarrow> locked (goto c p l (s\<lparr>lp_lock := Some c\<rparr>))"
  by (auto simp: locked_def)

lemma locked_give:
  "locked s \<Longrightarrow> holds_lock (pc s c) \<Longrightarrow> \<not> holds_lock p \<Longrightarrow> locked (goto c p l (s\<lparr>lp_lock := None\<rparr>))"
  by (auto simp: locked_def) (metis option.inject)

lemma lock_irrelevant [simp]:
  "records_ok (s\<lparr>lp_lock := k\<rparr>) = records_ok s" "descriptors_ok (s\<lparr>lp_lock := k\<rparr>) = descriptors_ok s"
  "apart (s\<lparr>lp_lock := k\<rparr>) = apart s"
  by (simp_all add: records_ok_def holder_def descriptors_ok_def apart_def)

lemma descriptors_same:
  assumes "descriptors_ok s" and "descriptor_at p = descriptor_at (pc s c)"
    and "st_pool (pl_pools l) = st_pool (pl_pools (sm_log s))"
  shows "descriptors_ok (goto c p l s)"
proof -
  have "(\<lambda>d. descriptor_at (((pc s)(c := p)) d)) = (\<lambda>d. descriptor_at (pc s d))" using assms(2) by auto
  with assms(1,3) show ?thesis by (simp add: descriptors_ok_def)
qed

lemma holder_same:
  "record_at p = record_at (pc s c) \<Longrightarrow> ri_data l = ri_data (sm_log s) \<Longrightarrow> holder (goto c p l s) = holder s"
  by (auto simp: holder_def fun_eq_iff split: sum.splits)

lemma records_same:
  assumes "records_ok s" and "record_at p = record_at (pc s c)" and "ri_data l = ri_data (sm_log s)"
    and "\<And>held. set held = ran (holder s) \<Longrightarrow> recs_inv held (sm_log s) \<Longrightarrow> recs_inv held l"
  shows "records_ok (goto c p l s)"
  using assms by (auto simp: records_ok_def holder_same)

lemma holder_set: "ri_data l = ri_data (sm_log s) \<Longrightarrow>
    holder (goto c p l s) = (holder s)(Inr c := record_at p)"
  by (auto simp: holder_def fun_eq_iff split: sum.splits)

lemma holder_instance: "ri_data l = (ri_data (sm_log s))(ri := x) \<Longrightarrow>
    holder (goto c p l s) = (holder s)(Inr c := record_at p, Inl ri := x)"
  by (auto simp: holder_def fun_eq_iff split: sum.splits)

lemma points_goto:
  assumes "smp_inv K s" and "point_ok K l p"
    and "\<And>d lp. d \<noteq> c \<Longrightarrow> record_used (pc s d) = Some lp \<Longrightarrow> records l lp = records (sm_log s) lp"
    and "\<And>d x. d \<noteq> c \<Longrightarrow> descriptor_at (pc s d) = Some x \<Longrightarrow>
      st_at (st_pool (pl_pools l)) x = st_at (st_pool (pl_pools (sm_log s))) x"
    and "\<And>d ri. d \<noteq> c \<Longrightarrow> instance_at (pc s d) = Some ri \<Longrightarrow> ri_data l ri = ri_data (sm_log s) ri"
    and "\<And>d q. d \<noteq> c \<Longrightarrow> q \<in> unowned_at (pc s d) \<Longrightarrow> owner (sm_log s) q = None \<Longrightarrow> owner l q = None"
  shows "\<forall>d. point_ok K (sm_log (goto c p l s)) (pc (goto c p l s) d)"
proof
  fix d
  show "point_ok K (sm_log (goto c p l s)) (pc (goto c p l s) d)"
  proof (cases "d = c")
    case False
    then have "point_ok K l (pc s d)"
      using assms(3-) by (intro point_ok_cong [OF smp_invD(3) [OF assms(1)]]) auto
    with False show ?thesis by simp
  qed (use assms(2) in simp)
qed

lemma smp_invI:
  assumes "records_ok s" and "descriptors_ok s" and "apart s" and "locked s"
    and "\<forall>c. point_ok K (sm_log s) (pc s c)"
  shows "smp_inv K s"
  using assms by (simp add: smp_inv_def)

section \<open>Sections on one's own record and descriptor\<close>

lemma own_step:
  assumes inv: "smp_inv K s" and at: "pc s c = Entry ri si frames lp g"
    and l: "l = put_st x d (put_lp lp r (sm_log s))" and u: "lp_u r = Order ord"
    and x: "descriptor_at (pc s c) = Some x \<or> d = st_at (st_pool (pl_pools (sm_log s))) x"
    and same: "descriptor_at (Entry ri si frames lp g') = descriptor_at (pc s c)"
    and ok: "stage_ok K l si frames lp g'"
  shows "smp_inv K (goto c (Entry ri si frames lp g') l s)" and "owner l = owner (sm_log s)"
proof -
  note D = smp_invD [OF inv]
  have used: "record_used (pc s c) = Some lp" "holder s (Inr c) = Some lp" by (simp_all add: at holder_def)
  have keep: "recs_inv held l" "owner l = owner (sm_log s)"
    if "set held = ran (holder s)" "recs_inv held (sm_log s)" for held
  proof -
    have "lp \<in> set held" using that(1) used(2) by (auto simp: ran_def)
    note put = recs_put [OF that(2) this u]
    show "recs_inv held l" "owner l = owner (sm_log s)"
      using recs_same(1) [of l "put_lp lp r (sm_log s)" held] recs_same(2) [of l "put_lp lp r (sm_log s)"] put
      by (simp_all add: l)
  qed
  with D(1) show own: "owner l = owner (sm_log s)" by (auto simp: records_ok_def)
  have desc: "descriptors_ok (goto c (Entry ri si frames lp g') l s)"
  proof (cases "descriptor_at (pc s c) = Some x")
    case True
    have eq: "(\<lambda>e. descriptor_at (((pc s)(c := Entry ri si frames lp g')) e)) = (\<lambda>e. descriptor_at (pc s e))"
      using same by auto
    from True have "x \<in> ran (\<lambda>e. descriptor_at (pc s e))" by (auto simp: ran_def)
    with D(2) put_st_accounted [of x _ d "put_lp lp r (sm_log s)"] show ?thesis
      by (auto simp: descriptors_ok_def eq [simplified] l)
  next
    case False
    with x have "st_pool (pl_pools l) = st_pool (pl_pools (sm_log s))"
      by (simp add: l put_st_def on_pools_def)
    then show ?thesis by (intro descriptors_same [OF D(2) same])
  qed
  have pts: "\<forall>d. point_ok K (sm_log (goto c (Entry ri si frames lp g') l s))
      (pc (goto c (Entry ri si frames lp g') l s) d)"
  proof (rule points_goto [OF inv])
    show "point_ok K l (Entry ri si frames lp g')" using ok D(3) [of c] at by (simp add: l)
    show "records l q = records (sm_log s) q" if "e \<noteq> c" "record_used (pc s e) = Some q" for e q
      using record_apart [OF inv that(1) [symmetric] used(1)] that(2) by (auto simp: l)
    show "st_at (st_pool (pl_pools l)) y = st_at (st_pool (pl_pools (sm_log s))) y"
      if "e \<noteq> c" "descriptor_at (pc s e) = Some y" for e y
      using descriptor_apart [OF inv that(1) [symmetric], of x] x that(2) by (auto simp: l)
  qed (auto simp: l own [unfolded l])
  show "smp_inv K (goto c (Entry ri si frames lp g') l s)"
  proof (rule smp_invI [OF _ desc _ _ pts])
    show "records_ok (goto c (Entry ri si frames lp g') l s)"
      by (rule records_same [OF D(1)]) (use keep at in \<open>auto simp: l\<close>)
    show "apart (goto c (Entry ri si frames lp g') l s)"
      by (rule apart_goto [OF D(4)]) (auto simp: at)
    show "locked (goto c (Entry ri si frames lp g') l s)"
      by (rule locked_goto [OF D(5)]) (auto simp: at)
  qed
qed

text \<open>What the specification sees: the owners, and the order and contents of the instances' records.\<close>

lemma spec_same:
  assumes "owner l' = owner l" and "ri_data l' = ri_data l"
    and "\<And>ri lp. ri_data l ri = Some lp \<Longrightarrow>
      lp_u (records l' lp) = lp_u (records l lp) \<and> lp_info (records l' lp) = lp_info (records l lp)"
  shows "spec_of l' = spec_of l"
  using assms by (auto simp: spec_of_def fun_eq_iff split: option.splits lp_union.splits)

lemma instance_record:
  assumes "smp_inv K s" and "record_at (pc s c) = Some lp" and "ri_data (sm_log s) ri = Some q"
  shows "q \<noteq> lp"
proof
  assume "q = lp"
  moreover have "holder s (Inr c) = Some lp" "holder s (Inl ri) = Some q"
    using assms(2,3) by (simp_all add: holder_def)
  moreover have "inj_on (holder s) (dom (holder s))" using smp_invD(1) [OF assms(1)] by (simp add: records_ok_def)
  ultimately have "Inr c = (Inl ri :: nat + nat)" by (metis domI inj_onD)
  then show False by simp
qed

lemma own_spec:
  assumes "smp_inv K s" and "pc s c = Entry ri si frames lp g" and "owner l = owner (sm_log s)"
    and "l = put_st x d (put_lp lp r (sm_log s))"
  shows "spec_of l = spec_of (sm_log s)"
proof (rule spec_same [OF assms(3)])
  show "ri_data l = ri_data (sm_log s)" by (simp add: assms(4))
  show "lp_u (records l q) = lp_u (records (sm_log s) q) \<and> lp_info (records l q) = lp_info (records (sm_log s) q)"
    if "ri_data (sm_log s) m = Some q" for m q
    using instance_record [OF assms(1) _ that, of c lp] assms(2) by (simp add: assms(4))
qed

lemma own_sim:
  assumes "smp_inv K s" and "pc s c = Entry ri si frames lp g"
    and "l = put_st x d (put_lp lp r (sm_log s))" and "lp_u r = Order ord"
    and "descriptor_at (pc s c) = Some x \<or> d = st_at (st_pool (pl_pools (sm_log s))) x"
    and "descriptor_at (Entry ri si frames lp g') = descriptor_at (pc s c)"
    and "stage_ok K l si frames lp g'"
  shows "smp_inv K (goto c (Entry ri si frames lp g') l s) \<and> spec_of l = spec_of (sm_log s)"
  using own_step [OF assms] own_spec [OF assms(1,2) _ assms(3)] by blast

lemma put_lp_same [simp]: "put_lp lp (records l lp) l = l"
  by (simp add: put_lp_def put_pool_def)

lemma put_st_same [simp]: "put_st x (st_at (st_pool (pl_pools l)) x) l = l"
  by (simp add: put_st_def on_pools_def)

lemma set_order_sim:
  assumes "smp_inv K s" and "pc s c = Entry ri si frames lp Took"
    and "l = put_lp lp ((records (sm_log s) lp)\<lparr>lp_u := Order (ucast si)\<rparr>) (sm_log s)"
  shows "smp_inv K (goto c (Entry ri si frames lp Ordered) l s) \<and> spec_of l = spec_of (sm_log s)"
proof (rule own_sim [OF assms(1,2)])
  show "l = put_st 0 (st_at (st_pool (pl_pools (sm_log s))) 0)
      (put_lp lp ((records (sm_log s) lp)\<lparr>lp_u := Order (ucast si)\<rparr>) (sm_log s))"
    using put_st_same [of 0 "put_lp lp ((records (sm_log s) lp)\<lparr>lp_u := Order (ucast si)\<rparr>) (sm_log s)"]
    by (simp add: assms(3))
  show "stage_ok K l si frames lp Ordered" using smp_invD(3) [OF assms(1), of c] by (simp add: assms(2,3))
qed (simp_all add: assms(2))

lemma set_st_sim:
  assumes "smp_inv K s" and "pc s c = Entry ri si frames lp (Got_st st)"
    and "l = on_pools (start_trace st lp) (sm_log s)"
  shows "smp_inv K (goto c (Entry ri si frames lp (Walking st frames)) l s) \<and> spec_of l = spec_of (sm_log s)"
proof (rule own_sim [OF assms(1,2)])
  let ?d = "(st_at (st_pool (pl_pools (sm_log s))) st)\<lparr>nr_entries := 0, max_entries := LOG_PAGE_TRACE_LEVEL,
      st_entries := lp, skip := KPROBES_SKIP_NUM\<rparr>"
  show l: "l = put_st st ?d (put_lp lp (records (sm_log s) lp) (sm_log s))"
    by (simp add: assms(3)) (simp add: start_trace_def put_st_def on_pools_def)
  have r: "records (sm_log s) lp = zero_lp\<lparr>lp_u := Order (ucast si)\<rparr>"
    using smp_invD(3) [OF assms(1), of c] by (simp add: assms(2))
  then show "lp_u (records (sm_log s) lp) = Order (ucast si)" by simp
  show "stage_ok K l si frames lp (Walking st frames)" by (simp add: l r walking_start)
qed (simp_all add: assms(2))

lemma save_frame_sim:
  assumes "smp_inv K s" and "pc s c = Entry ri si frames lp (Walking st (a # todo))"
    and "l = on_pools (hw_save_stack_address st a) (sm_log s)"
  shows "smp_inv K (goto c (Entry ri si frames lp (Walking st todo)) l s) \<and> spec_of l = spec_of (sm_log s)"
proof -
  let ?P = "pl_pools (sm_log s)"
  have "walking (lp_at (lp_pool ?P) lp) (st_at (st_pool ?P) st) (ucast si) lp frames (a # todo)"
    using smp_invD(3) [OF assms(1), of c] by (simp add: assms(2))
  from walking_save [OF this] obtain r d where
    eq: "hw_save_stack_address st a ?P = ?P\<lparr>lp_pool := (lp_pool ?P)\<lparr>lp_at := (lp_at (lp_pool ?P))(lp := r)\<rparr>,
        st_pool := (st_pool ?P)\<lparr>st_at := (st_at (st_pool ?P))(st := d)\<rparr>\<rparr>" and
    w: "walking r d (ucast si) lp frames todo" by blast
  show ?thesis
  proof (rule own_sim [OF assms(1,2)])
    show l: "l = put_st st d (put_lp lp r (sm_log s))"
      by (simp add: assms(3) on_pools_def eq) (simp add: put_st_def put_lp_def put_pool_def on_pools_def)
    show "lp_u r = Order (ucast si)"
      by (rule walking_order [OF w])
    show "stage_ok K l si frames lp (Walking st todo)" using w by (simp add: l)
  qed (simp_all add: assms(2))
qed

lemma save_modules_sim:
  assumes "smp_inv K s" and "pc s c = Entry ri si frames lp (Walking st [])"
    and "l = on_pools (record_lp_modules K lp) (sm_log s)"
  shows "smp_inv K (goto c (Entry ri si frames lp (Recorded st)) l s) \<and> spec_of l = spec_of (sm_log s)"
proof (rule own_sim [OF assms(1,2)])
  have "walking (records (sm_log s) lp) (st_at (st_pool (pl_pools (sm_log s))) st) (ucast si) lp frames []"
    using smp_invD(3) [OF assms(1), of c] by (simp add: assms(2))
  note r = walking_end [OF this]
  have "map (\<lambda>i. trace_of frames ! i) [0..<LOG_PAGE_TRACE_LEVEL] = trace_of frames"
    by (metis map_nth trace_of_length)
  then have "record_lp_modules K lp (pl_pools (sm_log s)) = (pl_pools (sm_log s))\<lparr>lp_pool :=
      (lp_pool (pl_pools (sm_log s)))\<lparr>lp_at := (records (sm_log s))(lp := captured K si frames)\<rparr>\<rparr>"
    by (simp add: record_lp_modules_def r Let_def record_modules_fresh) (simp add: zero_lp_def record_modules_fresh)
  then have l: "l = put_lp lp (captured K si frames) (sm_log s)"
    by (simp add: assms(3) on_pools_def put_lp_def put_pool_def)
  show "l = put_st st (st_at (st_pool (pl_pools (sm_log s))) st) (put_lp lp (captured K si frames) (sm_log s))"
    using put_st_same [of st l] by (simp add: l)
  show "stage_ok K l si frames lp (Recorded st)" by (simp add: l)
qed (simp_all add: assms(2))

section \<open>Taking and giving records and descriptors\<close>

lemma recs_alloc:
  assumes "recs_inv held l" and "alloc_lp (lp_pool (pl_pools l)) = Inr (lp, pool)"
  shows "lp \<notin> set_tree (lp_root l)" and "lp \<notin> set held"
    and "lp_at pool = (records l)(lp := zero_lp)" and "recs_inv (lp # held) (put_pool pool l)"
    and "owner (put_pool pool l) = owner l"
proof -
  have inv: "log_inv held (full_st l)" using assms(1) by (simp add: recs_inv_full)
  then have wf: "log_wf held (full_st l)" by (simp add: log_inv_def)
  have "u_alloc_lp (lp_pool (pl_pools l)) \<noteq> Inl NullDeref" using assms(2) by (simp add: alloc_lp_def)
  then have "pool_left (full_st l)"
    using lpp.alloc_fails_iff [OF log_wfD(2) [OF wf]] pool_left_iff [OF wf] by simp
  from alloc_log [OF wf this] assms(2) show
    new: "lp \<notin> set_tree (lp_root l)" "lp \<notin> set held" and at: "lp_at pool = (records l)(lp := zero_lp)"
    by auto
  have acc: "lpp.accounted (inorder (lp_root l) @ lp # held) pool"
    using alloc_log [OF wf \<open>pool_left (full_st l)\<close>] assms(2) by auto
  have "ordered (lp_at pool) (inorder (lp_root l)) = ordered (records l) (inorder (lp_root l))"
    by (rule ordered_cong) (use new(1) in \<open>auto simp: at\<close>)
  with assms(1) acc new(2) show "recs_inv (lp # held) (put_pool pool l)"
    by (auto simp: recs_inv_def at zero_lp_def)
  have "owner_of (lp_at pool) (inorder (lp_root l)) p = owner_of (records l) (inorder (lp_root l)) p" for p
    by (rule owner_of_cong) (use new(1) in \<open>auto simp: at\<close>)
  then show "owner (put_pool pool l) = owner l" by (simp add: owner_def fun_eq_iff)
qed

lemma recs_release:
  assumes "recs_inv held l" and "lp \<in> set held"
  shows "recs_inv (remove1 lp held) (put_pool (free_lp lp (lp_pool (pl_pools l))) l)"
    and "owner (put_pool (free_lp lp (lp_pool (pl_pools l))) l) = owner l"
proof -
  let ?pool = "u_free_lp lp (lp_pool (pl_pools l))"
  have d: "lp \<notin> set_tree (lp_root l)" "distinct held" using recs_distinct [OF assms(1)] assms(2) by auto
  have same: "lp_range (lp_at ?pool q) = lp_range (records l q) \<and> lp_info (lp_at ?pool q) = lp_info (records l q)" for q
    by (simp add: u_free_lp_def lp_range_def lp_info_def)
  have "ordered (lp_at ?pool) (inorder (lp_root l)) = ordered (records l) (inorder (lp_root l))"
    by (rule ordered_cong) (simp add: same)
  moreover have "lpp.accounted (remove1 lp (inorder (lp_root l) @ held)) ?pool"
    using assms by (intro lpp.rel_accounted) (auto simp: recs_inv_def)
  then have "lpp.accounted (inorder (lp_root l) @ remove1 lp held) ?pool"
    using d(1) by (simp add: remove1_append)
  ultimately show "recs_inv (remove1 lp held) (put_pool (free_lp lp (lp_pool (pl_pools l))) l)"
    using assms(1) d(2) by (auto simp: recs_inv_def free_lp_def u_free_lp_effect)
  have "owner_of (lp_at ?pool) (inorder (lp_root l)) p = owner_of (records l) (inorder (lp_root l)) p" for p
    by (rule owner_of_cong) (simp add: same)
  then show "owner (put_pool (free_lp lp (lp_pool (pl_pools l))) l) = owner l"
    by (simp add: owner_def fun_eq_iff free_lp_def)
qed

lemma take_lp_sim:
  assumes inv: "smp_inv K s" and idle: "pc s c = Idle" and ri: "ri_data (sm_log s) ri = None" "\<not> busy s ri"
    and al: "alloc_lp (lp_pool (pl_pools (sm_log s))) = Inr (lp, pool)" and l: "l = put_pool pool (sm_log s)"
  shows "smp_inv K (goto c (Entry ri si frames lp Took) l s) \<and> spec_of l = spec_of (sm_log s)"
proof -
  let ?p = "Entry ri si frames lp Took"
  note D = smp_invD [OF inv]
  from D(1) obtain held where held: "set held = ran (holder s)" "recs_inv held (sm_log s)"
    and inj: "inj_on (holder s) (dom (holder s))" by (auto simp: records_ok_def)
  note new = recs_alloc [OF held(2) al]
  have none: "holder s (Inr c) = None" using idle by (simp add: holder_def)
  have fresh: "q \<noteq> lp" if "holder s k = Some q" for k q
    using that new(2) held(1) by (auto intro: ranI)
  have other: "records l q = records (sm_log s) q" if "holder s k = Some q" for k q
    using fresh [OF that] new(3) by (simp add: l)
  have rec: "records_ok (goto c ?p l s)"
    unfolding records_ok_def
  proof (intro conjI exI [of _ "lp # held"])
    have h: "holder (goto c ?p l s) = (holder s)(Inr c \<mapsto> lp)" by (subst holder_set) (simp_all add: l)
    show "inj_on (holder (goto c ?p l s)) (dom (holder (goto c ?p l s)))"
      unfolding h using new(2) held(1) by (intro inj_map_add [OF inj]) simp
    show "set (lp # held) = ran (holder (goto c ?p l s))" using none by (simp add: h held(1))
    show "recs_inv (lp # held) (sm_log (goto c ?p l s))" using new(4) by (simp add: l)
  qed
  have pts: "\<forall>d. point_ok K (sm_log (goto c ?p l s)) (pc (goto c ?p l s) d)"
  proof (rule points_goto [OF inv])
    show "point_ok K l ?p" using ri(1) new(3) by (simp add: l)
    show "records l q = records (sm_log s) q" if d: "d \<noteq> c" "record_used (pc s d) = Some q" for d q
      using held_by [OF D(1,3) d(2)] other by metis
  qed (use new(5) in \<open>auto simp: l\<close>)
  have "smp_inv K (goto c ?p l s)"
    by (rule smp_invI [OF rec _ _ _ pts])
      (use D(2,4,5) ri(2) idle in \<open>auto simp: l intro!: descriptors_same apart_goto locked_goto\<close>)
  moreover have "spec_of l = spec_of (sm_log s)"
    by (rule spec_same) (use other [of "Inl _"] new(5) in \<open>auto simp: l holder_def\<close>)
  ultimately show ?thesis ..
qed

lemma take_st_sim:
  assumes inv: "smp_inv K s" and at: "pc s c = Entry ri si frames lp Ordered"
    and al: "alloc_st (st_pool (pl_pools (sm_log s))) = Inr (st, pool)"
    and l: "l = on_pools (st_pool_update (\<lambda>_. pool)) (sm_log s)"
  shows "smp_inv K (goto c (Entry ri si frames lp (Got_st st)) l s) \<and> spec_of l = spec_of (sm_log s)"
proof -
  let ?p = "Entry ri si frames lp (Got_st st)" and ?f = "\<lambda>d. descriptor_at (pc s d)"
  note D = smp_invD [OF inv]
  from D(2) obtain xs where xs: "set xs = ran ?f" "stp.accounted xs (st_pool (pl_pools (sm_log s)))"
    and inj: "inj_on ?f (dom ?f)" by (auto simp: descriptors_ok_def)
  have ua: "u_alloc_st (st_pool (pl_pools (sm_log s))) = Inr (st, pool)" using al by (simp add: alloc_st_def)
  then have "set xs \<noteq> st_slots (st_pool (pl_pools (sm_log s)))" using stp.alloc_fails_iff [OF xs(2)] by auto
  from stp.alloc_accounted [OF xs(2) this] ua have
    new: "st \<notin> set xs" "stp.accounted (st # xs) pool" by auto
  have same: "st_at pool = st_at (st_pool (pl_pools (sm_log s)))"
    using ua by (auto simp: u_alloc_st_def split: option.splits)
  have f: "(\<lambda>d. descriptor_at (((pc s)(c := ?p)) d)) = ?f(c \<mapsto> st)" by auto
  have desc: "descriptors_ok (goto c ?p l s)"
    unfolding descriptors_ok_def goto_simps f
  proof (intro conjI exI [of _ "st # xs"])
    show "inj_on (?f(c \<mapsto> st)) (dom (?f(c \<mapsto> st)))" using new(1) xs(1) by (intro inj_map_add [OF inj]) simp
    show "set (st # xs) = ran (?f(c \<mapsto> st))" by (simp add: xs(1) at)
    show "stp.accounted (st # xs) (st_pool (pl_pools l))" using new(2) by (simp add: l)
  qed
  have own: "owner l = owner (sm_log s)" by (rule recs_same(2)) (simp_all add: l)
  have pts: "\<forall>d. point_ok K (sm_log (goto c ?p l s)) (pc (goto c ?p l s) d)"
    by (rule points_goto [OF inv]) (use D(3) [of c] at own in \<open>auto simp: l same\<close>)
  have rec: "records_ok (goto c ?p l s)"
    by (rule records_same [OF D(1)]) (use at in \<open>auto simp: l recs_inv_def\<close>)
  have "smp_inv K (goto c ?p l s)"
    by (rule smp_invI [OF rec desc _ _ pts]) (use D(4,5) at in \<open>auto intro!: apart_goto locked_goto\<close>)
  moreover have "spec_of l = spec_of (sm_log s)" by (rule spec_same [OF own]) (simp_all add: l)
  ultimately show ?thesis ..
qed

lemma give_st_sim:
  assumes inv: "smp_inv K s" and at: "pc s c = Entry ri si frames lp (Recorded st)"
    and l: "l = on_pools (st_pool_update (free_st st)) (sm_log s)"
  shows "smp_inv K (goto c (Entry ri si frames lp Filled) l s) \<and> spec_of l = spec_of (sm_log s)"
proof -
  let ?p = "Entry ri si frames lp Filled" and ?f = "\<lambda>d. descriptor_at (pc s d)"
  note D = smp_invD [OF inv]
  from D(2) obtain xs where xs: "set xs = ran ?f" "stp.accounted xs (st_pool (pl_pools (sm_log s)))"
    and inj: "inj_on ?f (dom ?f)" by (auto simp: descriptors_ok_def)
  have st: "?f c = Some st" by (simp add: at)
  then have mem: "st \<in> set xs" using xs(1) by (auto simp: ran_def)
  have f: "(\<lambda>d. descriptor_at (((pc s)(c := ?p)) d)) = ?f(c := None)" by auto
  have desc: "descriptors_ok (goto c ?p l s)"
    unfolding descriptors_ok_def goto_simps f
  proof (intro conjI exI [of _ "remove1 st xs"])
    show "inj_on (?f(c := None)) (dom (?f(c := None)))" by (rule inj_map_del [OF inj])
    show "set (remove1 st xs) = ran (?f(c := None))"
      using stp.accounted_distinct [OF xs(2)] ran_del [OF inj st] by (simp add: xs(1))
    show "stp.accounted (remove1 st xs) (st_pool (pl_pools l))"
      using stp.rel_accounted [OF xs(2) mem] by (simp add: l free_st_def)
  qed
  have own: "owner l = owner (sm_log s)" by (rule recs_same(2)) (simp_all add: l)
  have pts: "\<forall>d. point_ok K (sm_log (goto c ?p l s)) (pc (goto c ?p l s) d)"
  proof (rule points_goto [OF inv])
    show "point_ok K l ?p" using D(3) [of c] at by (simp add: l)
    show "st_at (st_pool (pl_pools l)) x = st_at (st_pool (pl_pools (sm_log s))) x"
      if "d \<noteq> c" "descriptor_at (pc s d) = Some x" for d x
      using descriptor_apart [OF inv that(1) [symmetric], of st] st that(2)
      by (auto simp: l free_st_def u_free_st_def)
  qed (use own in \<open>auto simp: l\<close>)
  have rec: "records_ok (goto c ?p l s)"
    by (rule records_same [OF D(1)]) (use at in \<open>auto simp: l recs_inv_def\<close>)
  have "smp_inv K (goto c ?p l s)"
    by (rule smp_invI [OF rec desc _ _ pts]) (use D(4,5) at in \<open>auto intro!: apart_goto locked_goto\<close>)
  moreover have "spec_of l = spec_of (sm_log s)" by (rule spec_same [OF own]) (simp_all add: l)
  ultimately show ?thesis ..
qed

end
