(* ===== verification/Log_Smp_Sim.thy ===== *)
theory Log_Smp_Sim
  imports Log_Smp_Steps
begin

text \<open>
  The sections that store a record with its instance, return it or link it into the tree, and those
  under \<open>lp_lock\<close>; then all sections together: the page log on several processors refines the same
  specification as the handlers one at a time.
\<close>

section \<open>Instances\<close>

lemma instance_holder:
  assumes "records_ok s" and "ri_data (sm_log s) ri = Some lp" and "holder s k = Some lp"
  shows "k = Inl ri"
proof -
  have "inj_on (holder s) (dom (holder s))" using assms(1) by (simp add: records_ok_def)
  moreover have "holder s (Inl ri) = Some lp" using assms(2) by (simp add: holder_def)
  ultimately show ?thesis using assms(3) by (metis domI inj_onD)
qed

text \<open>The record of an instance that no processor runs is used by no processor.\<close>

lemma instance_unused:
  assumes "smp_inv K s" and "ri_data (sm_log s) ri = Some lp" and "\<And>d. d \<noteq> c \<Longrightarrow> instance_at (pc s d) \<noteq> Some ri"
    and "d \<noteq> c" and "record_used (pc s d) = Some q"
  shows "q \<noteq> lp"
proof
  assume "q = lp"
  note D = smp_invD [OF assms(1)]
  from held_by [OF D(1,3) assms(5)] obtain k where
    "holder s k = Some q" "k = Inr d \<or> (\<exists>m. k = Inl m \<and> instance_at (pc s d) = Some m)" .
  with instance_holder [OF D(1) assms(2), of k] assms(3) [OF assms(4)] \<open>q = lp\<close> show False by auto
qed

lemma set_data_sim:
  assumes inv: "smp_inv K s" and at: "pc s c = Entry ri si frames lp Filled"
    and l: "l = set_instance ri (Some lp) (sm_log s)"
  shows "smp_inv K (goto c Idle l s) \<and> spec_step (spec_of (sm_log s)) (spec_of l)"
proof -
  note D = smp_invD [OF inv]
  have none: "ri_data (sm_log s) ri = None" and r: "records (sm_log s) lp = captured K si frames"
    using D(3) [of c] by (simp_all add: at)
  from D(1) obtain held where held: "set held = ran (holder s)" "recs_inv held (sm_log s)"
    and inj: "inj_on (holder s) (dom (holder s))" by (auto simp: records_ok_def)
  have h: "holder (goto c Idle l s) = (holder s)(Inr c := None, Inl ri \<mapsto> lp)"
    by (subst holder_instance) (simp_all add: l)
  have "holder s (Inr c) = Some lp" "holder s (Inl ri) = None" using none by (simp_all add: holder_def at)
  from inj_map_move [OF inj this] held have rec: "records_ok (goto c Idle l s)"
    unfolding records_ok_def h by (auto simp: l)
  have pts: "\<forall>d. point_ok K (sm_log (goto c Idle l s)) (pc (goto c Idle l s) d)"
  proof (rule points_goto [OF inv])
    show "ri_data l m = ri_data (sm_log s) m" if "d \<noteq> c" "instance_at (pc s d) = Some m" for d m
      using D(4) that at by (auto simp: apart_def l) (metis instance_at.simps(1))
  qed (auto simp: l)
  have "smp_inv K (goto c Idle l s)"
    by (rule smp_invI [OF rec _ _ _ pts])
      (use D(2,4,5) at in \<open>auto simp: l intro!: descriptors_same apart_goto locked_goto\<close>)
  moreover have "spec_of l = (owner (sm_log s), (snd (spec_of (sm_log s)))(ri := Some (ucast si, trace_info K frames)))"
    by (auto simp: spec_of_def l r lp_info_def fun_eq_iff split: option.splits lp_union.splits)
  then have "spec_step (spec_of (sm_log s)) (spec_of l)"
    using none by (auto simp: spec_of_def intro: spec_enter)
  ultimately show ?thesis ..
qed

text \<open>An instance ends: its record leaves, the invariant keeps, the specification forgets it.\<close>

lemma instance_ends:
  assumes inv: "smp_inv K s" and ri: "ri_data (sm_log s) ri = Some lp" and rec: "record_at (pc s c) = None"
    and l: "ri_data l = (ri_data (sm_log s))(ri := None)"
      "st_pool (pl_pools l) = st_pool (pl_pools (sm_log s))"
      "\<And>q. q \<noteq> lp \<Longrightarrow> records l q = records (sm_log s) q"
    and keep: "\<And>held. set held = ran (holder s) \<Longrightarrow> recs_inv held (sm_log s) \<Longrightarrow> recs_inv (remove1 lp held) l"
    and alone: "\<And>d. d \<noteq> c \<Longrightarrow> instance_at (pc s d) \<noteq> Some ri"
    and free: "\<And>d q. d \<noteq> c \<Longrightarrow> q \<in> unowned_at (pc s d) \<Longrightarrow> owner (sm_log s) q = None \<Longrightarrow> owner l q = None"
    and lock: "descriptor_at (pc s c) = None" "\<not> holds_lock (pc s c)"
  shows "smp_inv K (goto c Idle l s)" and "snd (spec_of l) = (snd (spec_of (sm_log s)))(ri := None)"
proof -
  note D = smp_invD [OF inv]
  from D(1) obtain held where held: "set held = ran (holder s)" "recs_inv held (sm_log s)"
    and inj: "inj_on (holder s) (dom (holder s))" by (auto simp: records_ok_def)
  have "holder s (Inr c) = None" using rec by (simp add: holder_def)
  then have h: "holder (goto c Idle l s) = (holder s)(Inl ri := None)"
    by (subst holder_instance [OF l(1)]) (auto simp: fun_eq_iff)
  have k: "holder s (Inl ri) = Some lp" using ri by (simp add: holder_def)
  have rok: "records_ok (goto c Idle l s)"
    unfolding records_ok_def h goto_simps
  proof (intro conjI exI [of _ "remove1 lp held"])
    show "inj_on ((holder s)(Inl ri := None)) (dom ((holder s)(Inl ri := None)))" by (rule inj_map_del [OF inj])
    show "set (remove1 lp held) = ran ((holder s)(Inl ri := None))"
      using recs_distinct [OF held(2)] ran_del [OF inj k] by (simp add: held(1))
  qed (rule keep [OF held])
  have pts: "\<forall>d. point_ok K (sm_log (goto c Idle l s)) (pc (goto c Idle l s) d)"
  proof (rule points_goto [OF inv])
    show "records l q = records (sm_log s) q" if d: "d \<noteq> c" "record_used (pc s d) = Some q" for d q
      by (rule l(3)) (rule instance_unused [OF inv ri alone d])
    show "ri_data l m = ri_data (sm_log s) m" if "d \<noteq> c" "instance_at (pc s d) = Some m" for d m
      using alone [OF that(1)] that(2) by (auto simp: l(1))
  qed (use l(2) free in auto)
  show "smp_inv K (goto c Idle l s)"
    by (rule smp_invI [OF rok _ _ _ pts])
      (use D(2,4,5) l(2) lock in \<open>auto intro!: descriptors_same apart_goto locked_goto\<close>)
  have "records l q = records (sm_log s) q" if "ri_data (sm_log s) m = Some q" "m \<noteq> ri" for m q
    using instance_holder [OF D(1) ri, of "Inl m"] that by (intro l(3)) (auto simp: holder_def)
  then show "snd (spec_of l) = (snd (spec_of (sm_log s)))(ri := None)"
    by (auto simp: spec_of_def l(1) fun_eq_iff split: option.splits lp_union.splits)
qed

lemma instance_order:
  assumes "smp_inv K s" and "ri_data (sm_log s) ri = Some lp"
  shows "\<exists>order. lp_u (records (sm_log s) lp) = Order order"
proof -
  from smp_invD(1) [OF assms(1)] obtain held where "set held = ran (holder s)" "recs_inv held (sm_log s)"
    by (auto simp: records_ok_def)
  moreover have "lp \<in> ran (holder s)" using assms(2) by (auto simp: ran_def holder_def intro!: exI [of _ "Inl ri"])
  ultimately show ?thesis by (auto simp: recs_inv_def)
qed

lemma give_lp_sim:
  assumes inv: "smp_inv K s" and at: "pc s c = Idle" and ri: "ri_data (sm_log s) ri = Some lp" "\<not> busy s ri"
    and l: "l = set_instance ri None (put_pool (free_lp lp (lp_pool (pl_pools (sm_log s)))) (sm_log s))"
  shows "smp_inv K (goto c Idle l s) \<and> spec_step (spec_of (sm_log s)) (spec_of l)"
proof -
  note D = smp_invD [OF inv]
  have mem: "lp \<in> ran (holder s)" using ri(1) by (auto simp: ran_def holder_def intro!: exI [of _ "Inl ri"])
  have own: "owner l = owner (sm_log s)"
    using D(1) mem by (auto simp: records_ok_def l recs_release(2))
  have keep: "recs_inv (remove1 lp held) l" if "set held = ran (holder s)" "recs_inv held (sm_log s)" for held
    using recs_release(1) [OF that(2), of lp] that(1) mem by (simp add: l)
  note ends = instance_ends [OF inv ri(1), of c l]
  have "smp_inv K (goto c Idle l s)"
    by (rule ends(1)) (use at ri(2) own keep in \<open>auto simp: l free_lp_def u_free_lp_effect busy_def\<close>)
  moreover have snd: "snd (spec_of l) = (snd (spec_of (sm_log s)))(ri := None)"
    by (rule ends(2)) (use at ri(2) own keep in \<open>auto simp: l free_lp_def u_free_lp_effect busy_def\<close>)
  from instance_order [OF inv ri(1)] ri(1) obtain order where
    m: "snd (spec_of (sm_log s)) ri = Some (order, lp_info (records (sm_log s) lp))" by (auto simp: spec_of_def)
  have "spec_of l = (owner (sm_log s), (snd (spec_of (sm_log s)))(ri := None))"
    by (subst spec_of_eq) (simp add: snd own)
  with spec_fail [where m = "snd (spec_of (sm_log s))" and ri = ri and ow = "owner (sm_log s)", OF m] have "spec_step (spec_of (sm_log s)) (spec_of l)"
    by (simp flip: spec_of_eq)
  ultimately show ?thesis by blast
qed

text \<open>The return handler writes the range, then links the record under the lock.\<close>

lemma set_range_sim:
  assumes inv: "smp_inv K s" and at: "pc s c = Idle" and ri: "ri_data (sm_log s) ri = Some lp" "\<not> busy s ri"
    and order: "lp_u (records (sm_log s) lp) = Order order" "unat order < 31"
    and free: "\<forall>p\<in>block page order. owner (sm_log s) p = None" "\<forall>d. block page order \<inter> pending (pc s d) = {}"
    and l: "l = put_lp lp ((records (sm_log s) lp)\<lparr>start_page := page, end_page := page_end page order\<rparr>) (sm_log s)"
  shows "smp_inv K (goto c (Return ri page order lp) l s) \<and> spec_of l = spec_of (sm_log s)"
proof -
  let ?p = "Return ri page order lp"
  note D = smp_invD [OF inv]
  have mem: "lp \<in> ran (holder s)" using ri(1) by (auto simp: ran_def holder_def intro!: exI [of _ "Inl ri"])
  have put: "recs_inv held l" "owner l = owner (sm_log s)"
    if "set held = ran (holder s)" "recs_inv held (sm_log s)" for held
    using recs_put [OF that(2), of lp] that(1) mem order(1) by (simp_all add: l)
  then have own: "owner l = owner (sm_log s)" using D(1) by (auto simp: records_ok_def)
  have pts: "\<forall>d. point_ok K (sm_log (goto c ?p l s)) (pc (goto c ?p l s) d)"
  proof (rule points_goto [OF inv])
    show "point_ok K l ?p" using ri(1) order free(1) own by (simp add: l)
    show "records l q = records (sm_log s) q" if d: "d \<noteq> c" "record_used (pc s d) = Some q" for d q
    proof -
      have "q \<noteq> lp"
        by (rule instance_unused [OF inv ri(1) _ d]) (use ri(2) in \<open>auto simp: busy_def\<close>)
      then show ?thesis by (simp add: l)
    qed
  qed (use own in \<open>auto simp: l\<close>)
  have ap: "apart (goto c ?p l s)" by (rule apart_goto [OF D(4)]) (use ri(2) free(2) in auto)
  have "smp_inv K (goto c ?p l s)"
    by (rule smp_invI [OF _ _ ap _ pts])
      (use D(1,2,5) at put(1) in \<open>auto simp: l intro!: records_same descriptors_same locked_goto\<close>)
  moreover have "spec_of l = spec_of (sm_log s)"
    by (rule spec_same [OF own]) (auto simp: l lp_info_def)
  ultimately show ?thesis ..
qed

lemma link_lp_sim:
  assumes "rb_laws (k_rb K)" and inv: "smp_inv K s" and at: "pc s c = Return ri page order lp"
    and lock: "lp_lock s = None" and l: "l = set_instance ri None (log_insert K lp (sm_log s))"
  shows "smp_inv K (goto c Idle l s) \<and> spec_step (spec_of (sm_log s)) (spec_of l)"
proof -
  let ?l = "sm_log s" and ?r = "records (sm_log s) lp"
  note D = smp_invD [OF inv]
  have r: "ri_data ?l ri = Some lp" "lp_u ?r = Order order" "unat order < 31" "start_page ?r = page"
    "end_page ?r = page_end page order" "\<forall>p\<in>block page order. owner ?l p = None"
    using D(3) [of c] by (simp_all add: at)
  have rng: "p \<in> pages (lp_range ?r) \<longleftrightarrow> p \<in> block page order" for p
    using r(3-5) by (simp add: mem_pages block_iff)
  have mem: "lp \<in> ran (holder s)" using r(1) by (auto simp: ran_def holder_def intro!: exI [of _ "Inl ri"])
  have ins: "recs_inv (remove1 lp held) (log_insert K lp ?l)"
    "owner (log_insert K lp ?l) p = (if p \<in> block page order then Some (lp_info ?r) else owner ?l p)"
    if "set held = ran (holder s)" "recs_inv held ?l" for held p
  proof -
    have d: "distinct held" using recs_distinct [OF that(2)] by simp
    have "recs_inv (lp # remove1 lp held) ?l"
      by (rule recs_perm [OF that(2)]) (use d mem that(1) in auto)
    then have inv': "log_inv (lp # remove1 lp held) (full_st ?l)" by (simp add: recs_inv_full)
    then have wf: "log_wf (lp # remove1 lp held) (full_st ?l)" by (simp add: log_inv_def)
    have ne: "nonempty (lp_range (records (full_st ?l) lp))"
      using r(3-5) page_end_gt by (simp add: nonempty_def)
    note i = insert_log [OF assms(1) wf ne]
    have "log_wf (remove1 lp held) (full_st (log_insert K lp ?l))"
      using i(1) rng r(6) by simp
    then show "recs_inv (remove1 lp held) (log_insert K lp ?l)"
      using inv' unfolding recs_inv_full log_inv_def by (simp add: log_insert_def)
    show "owner (log_insert K lp ?l) p = (if p \<in> block page order then Some (lp_info ?r) else owner ?l p)"
      using i(2) [of p] rng r(6) by simp
  qed
  then have own: "owner l = (\<lambda>p. if p \<in> block page order then Some (lp_info ?r) else owner ?l p)"
    using D(1) by (auto simp: records_ok_def l fun_eq_iff)
  have alone: "instance_at (pc s d) \<noteq> Some ri" "pending (pc s d) \<inter> block page order = {}" if "d \<noteq> c" for d
    using D(4) that at by (fastforce simp: apart_def)+
  have nolock: "\<not> holds_lock (pc s d)" for d using D(5) lock by (auto simp: locked_def)
  have keep: "owner l q = None" if "d \<noteq> c" "q \<in> unowned_at (pc s d)" "owner ?l q = None" for d q
    using alone(2) [OF that(1)] that(2,3) nolock [of d] by (cases "pc s d") (auto simp: own)
  note ends = instance_ends [OF inv r(1), of c l]
  have eq: "ri_data l = (ri_data ?l)(ri := None)" "pl_pools l = pl_pools ?l"
    by (simp_all add: l log_insert_def)
  have "smp_inv K (goto c Idle l s)"
    by (rule ends(1)) (use at eq ins(1) alone(1) keep in \<open>auto simp: l\<close>)
  moreover have snd: "snd (spec_of l) = (snd (spec_of ?l))(ri := None)"
    by (rule ends(2)) (use at eq ins(1) alone(1) keep in \<open>auto simp: l\<close>)
  have m: "snd (spec_of ?l) ri = Some (order, lp_info ?r)" using r(1,2) by (simp add: spec_of_def)
  have "spec_of l = (\<lambda>p. if p \<in> block page order then Some (lp_info ?r) else owner ?l p, (snd (spec_of ?l))(ri := None))"
    by (subst spec_of_eq) (simp add: snd own)
  with spec_return [where m = "snd (spec_of ?l)" and ri = ri and ow = "owner ?l", OF m r(6)]
  have "spec_step (spec_of ?l) (spec_of l)" by (simp flip: spec_of_eq)
  ultimately show ?thesis by blast
qed

section \<open>Under the lock\<close>

lemma free_step_st:
  "free_step K end start l = Inr (start', l') \<Longrightarrow> st_pool (pl_pools l') = st_pool (pl_pools l)"
  by (auto simp: free_step_def Let_def bind_result_Inr erase_lp_def log_insert_def
      split: option.splits if_splits)

lemma free_step_recs:
  assumes "rb_laws (k_rb K)" and "recs_inv held l" and "start < end"
    and "free_step K end start l = Inr (start', l')"
  shows "recs_inv held l'" and "frame held l l'" and "start \<le> start'" and "start' \<le> end"
    and "\<exists>x. start' \<le> x \<and> x \<le> end \<and> owner l' = (\<lambda>p. if start \<le> p \<and> p < x then None else owner l p)"
proof -
  have inv: "log_inv held (full_st l)" using assms(2) by (simp add: recs_inv_full)
  then have wf: "log_wf held (full_st l)" by (simp add: log_inv_def)
  have step: "free_step K end start (full_st l) = Inr (start', full_st l')"
    by (simp add: free_step_full assms(4))
  from free_step_frame [OF wf step] free_step_st [OF assms(4)] show "frame held l l'"
    by (simp add: frame_def)
  have "recs_inv held l' \<and> start \<le> start' \<and> start' \<le> end \<and>
    (\<exists>x. start' \<le> x \<and> x \<le> end \<and> owner l' = (\<lambda>p. if start \<le> p \<and> p < x then None else owner l p))"
  proof (cases "inside_one (full_st l) start end")
    case True
    then obtain lp where lp: "lp \<in> set_tree (lp_root (full_st l))" "start_page (records (full_st l) lp) < start"
      "end < end_page (records (full_st l) lp)" by (auto simp: inside_one_def)
    have "pool_left (full_st l)"
    proof (rule ccontr)
      assume no: "\<not> pool_left (full_st l)"
      from free_step_exhausted [OF inv assms(3) True no, of K] step show False by simp
    qed
    from split_log [OF assms(1) inv this lp(1,2) assms(3) lp(3)] step show ?thesis
      using assms(3) by (auto simp: recs_inv_full fun_eq_iff intro!: exI [of _ "end"])
  next
    case False
    from round_log [OF assms(1) inv assms(3) this] step show ?thesis
      by (auto simp: recs_inv_full fun_eq_iff intro!: exI [of _ start'])
  qed
  then show "recs_inv held l'" "start \<le> start'" "start' \<le> end"
    "\<exists>x. start' \<le> x \<and> x \<le> end \<and> owner l' = (\<lambda>p. if start \<le> p \<and> p < x then None else owner l p)" by auto
qed

text \<open>The specification drops any range, page by page.\<close>

lemma spec_drop:
  "spec_run (ow, m) \<Longrightarrow> spec_run (\<lambda>p. if a \<le> p \<and> p < b then None else ow p, m)"
proof (induction "nat (b - a)" arbitrary: b)
  case 0
  then have "(\<lambda>p. if a \<le> p \<and> p < b then None else ow p) = ow" by (auto simp: fun_eq_iff)
  with 0 show ?case by simp
next
  case (Suc n)
  let ?f = "\<lambda>p. if a \<le> p \<and> p < b - 1 then None else ow p"
  have "spec_run (?f, m)" by (rule Suc.hyps(1)) (use Suc.hyps(2) Suc.prems in auto)
  from spec_next [OF this spec_freed [of ?f m "b - 1" 0]] have
    "spec_run (\<lambda>p. if p \<in> block (b - 1) 0 then None else ?f p, m)" .
  moreover have "(\<lambda>p. if p \<in> block (b - 1) 0 then None else ?f p) = (\<lambda>p. if a \<le> p \<and> p < b then None else ow p)"
    using Suc.hyps(2) by (auto simp: block_def fun_eq_iff)
  ultimately show ?case by simp
qed

lemma lock_step:
  assumes inv: "smp_inv K s" and at: "record_at (pc s c) = None" "descriptor_at (pc s c) = None"
    and p: "record_at p = None" "descriptor_at p = None" "instance_at p = None" "pending p = {}"
    and l: "ri_data l = ri_data (sm_log s)" "st_pool (pl_pools l) = st_pool (pl_pools (sm_log s))"
    and keep: "\<And>held. set held = ran (holder s) \<Longrightarrow> recs_inv held (sm_log s) \<Longrightarrow>
      recs_inv held l \<and> (\<forall>q\<in>set held. records l q = records (sm_log s) q)"
    and own: "\<And>q. owner (sm_log s) q = None \<Longrightarrow> owner l q = None"
    and ok: "point_ok K l p" and lock: "locked (goto c p l (s\<lparr>lp_lock := k\<rparr>))"
  shows "smp_inv K (goto c p l (s\<lparr>lp_lock := k\<rparr>))" and "snd (spec_of l) = snd (spec_of (sm_log s))"
proof -
  note D = smp_invD [OF inv]
  from D(1) obtain held where held: "set held = ran (holder s)" "recs_inv held (sm_log s)"
    by (auto simp: records_ok_def)
  have same: "records l q = records (sm_log s) q" if "holder s k = Some q" for k q
  proof -
    have "q \<in> set held" using that held(1) by (auto intro: ranI)
    with keep [OF held] show ?thesis by blast
  qed
  have rec: "records_ok (goto c p l s)"
    by (rule records_same [OF D(1)]) (use at p l keep in auto)
  have desc: "descriptors_ok (goto c p l s)"
    by (rule descriptors_same [OF D(2)]) (use at p l in auto)
  have ap: "apart (goto c p l s)" by (rule apart_goto [OF D(4)]) (use p in auto)
  have pts: "\<forall>d. point_ok K (sm_log (goto c p l s)) (pc (goto c p l s) d)"
  proof (rule points_goto [OF inv ok])
    show "records l q = records (sm_log s) q" if "record_used (pc s d) = Some q" for d q
      using held_by [OF D(1,3) that] same by metis
  qed (use l own in auto)
  have eq: "goto c p l (s\<lparr>lp_lock := k\<rparr>) = (goto c p l s)\<lparr>lp_lock := k\<rparr>" by (simp add: goto_def)
  from rec desc ap pts lock show "smp_inv K (goto c p l (s\<lparr>lp_lock := k\<rparr>))"
    unfolding eq by (simp add: smp_inv_def)
  have "records l q = records (sm_log s) q" if "ri_data (sm_log s) m = Some q" for m q
    using same [of "Inl m"] that by (simp add: holder_def)
  then show "snd (spec_of l) = snd (spec_of (sm_log s))"
    by (auto simp: spec_of_def l(1) fun_eq_iff split: option.splits lp_union.splits)
qed

lemma free_sim:
  assumes "rb_laws (k_rb K)" and inv: "smp_inv K s" and at: "pc s c = Freeing page end start"
    and step: "free_step K end start (sm_log s) = Inr (start', l)"
    and k: "start' = end \<and> p = Idle \<and> k = None \<or> start' \<noteq> end \<and> p = Freeing page end start' \<and> k = lp_lock s"
  shows "smp_inv K (goto c p l (s\<lparr>lp_lock := k\<rparr>))"
    and "spec_run (spec_of (sm_log s)) \<Longrightarrow> spec_run (spec_of l)"
    and "page \<le> q \<Longrightarrow> q < start' \<Longrightarrow> owner l q = None"
proof -
  note D = smp_invD [OF inv]
  have pt: "page \<le> start" "start < end" "\<forall>q. page \<le> q \<and> q < start \<longrightarrow> owner (sm_log s) q = None"
    using D(3) [of c] by (simp_all add: at)
  from D(1) obtain held where held: "set held = ran (holder s)" "recs_inv held (sm_log s)"
    by (auto simp: records_ok_def)
  note f = free_step_recs [OF assms(1) _ pt(2) step]
  from f(5) [OF held(2)] obtain x where x: "start' \<le> x" "x \<le> end"
    "owner l = (\<lambda>q. if start \<le> q \<and> q < x then None else owner (sm_log s) q)" by blast
  show swept: "owner l q = None" if "page \<le> q" "q < start'" for q
    using that pt(3) x by auto
  have ri: "ri_data l = ri_data (sm_log s)" using f(2) [OF held(2)] by (simp add: frame_def)
  have ok: "point_ok K l p" using k pt(1) f(3,4) [OF held(2)] swept by auto
  have lock: "locked (goto c p l (s\<lparr>lp_lock := k\<rparr>))"
    using k locked_give [OF D(5), of c p l] locked_goto [OF D(5), of p c l] at by (cases "start' = end") auto
  note ls = lock_step [OF inv _ _ _ _ _ _ ri free_step_st [OF step] _ _ ok lock]
  show "smp_inv K (goto c p l (s\<lparr>lp_lock := k\<rparr>))"
    by (rule ls(1)) (use k at f(1,2) x(3) in \<open>auto simp: frame_def\<close>)
  have "snd (spec_of l) = snd (spec_of (sm_log s))"
    by (rule ls(2)) (use k at f(1,2) x(3) in \<open>auto simp: frame_def\<close>)
  then have "spec_of l = (\<lambda>q. if start \<le> q \<and> q < x then None else owner (sm_log s) q, snd (spec_of (sm_log s)))"
    by (subst spec_of_eq) (simp add: x(3))
  then show "spec_run (spec_of l)" if "spec_run (spec_of (sm_log s))"
    using spec_drop [of "owner (sm_log s)" "snd (spec_of (sm_log s))" start x] that by (simp flip: spec_of_eq)
qed

lemma lock_free_sim:
  assumes inv: "smp_inv K s" and at: "pc s c = Idle" and lock: "lp_lock s = None" and order: "unat order < 31"
  shows "smp_inv K (goto c (Freeing page (page_end page order) page) (sm_log s) (s\<lparr>lp_lock := Some c\<rparr>))"
  by (rule lock_step(1) [OF inv])
    (use at page_end_gt [OF order] locked_take [OF smp_invD(5) [OF inv] lock] in auto)

lemma print_page_log [simp]:
  "pl_pools (print_page K page l) = pl_pools l" "lp_root (print_page K page l) = lp_root l"
  "ri_data (print_page K page l) = ri_data l" "owner (print_page K page l) = owner l"
  "recs_inv held (print_page K page l) = recs_inv held l" "spec_of (print_page K page l) = spec_of l"
  by (simp_all add: print_page_def printk_def owner_def recs_inv_def)
    (simp add: spec_of_def owner_def fun_eq_iff split: option.splits lp_union.splits)

lemma lock_print_sim:
  assumes inv: "smp_inv K s" and at: "pc s c = Idle" and lock: "lp_lock s = None"
  shows "smp_inv K (goto c (Printing page) (sm_log s) (s\<lparr>lp_lock := Some c\<rparr>))"
  by (rule lock_step(1) [OF inv]) (use at locked_take [OF smp_invD(5) [OF inv] lock] in auto)

lemma print_sim:
  assumes inv: "smp_inv K s" and at: "pc s c = Printing page"
  shows "smp_inv K (goto c Idle (print_page K page (sm_log s)) (s\<lparr>lp_lock := None\<rparr>))"
  by (rule lock_step(1) [OF inv])
    (use at locked_give [OF smp_invD(5) [OF inv], of c Idle] in auto)

section \<open>All sections\<close>

lemma smp_step_sim:
  assumes rb: "rb_laws (k_rb K)" and inv: "smp_inv K s" and step: "smp_step K c s s'"
  shows "smp_inv K s' \<and> (spec_run (spec_of (sm_log s)) \<longrightarrow> spec_run (spec_of (sm_log s')))"
  using step
proof (cases rule: smp_step.cases)
  case (take_lp ri lp pool si frames)
  with take_lp_sim [OF inv take_lp(2-5) refl, of si frames] show ?thesis by simp
next
  case (set_order ri si frames lp)
  with set_order_sim [OF inv set_order(2) refl] show ?thesis by simp
next
  case (take_st ri si frames lp st pool)
  with take_st_sim [OF inv take_st(2,3) refl] show ?thesis by simp
next
  case (set_st ri si frames lp st)
  with set_st_sim [OF inv set_st(2) refl] show ?thesis by simp
next
  case (save_frame ri si frames lp st a todo)
  with save_frame_sim [OF inv save_frame(2) refl] show ?thesis by simp
next
  case (save_modules ri si frames lp st)
  with save_modules_sim [OF inv save_modules(2) refl] show ?thesis by simp
next
  case (give_st ri si frames lp st)
  with give_st_sim [OF inv give_st(2) refl] show ?thesis by simp
next
  case (set_data ri si frames lp)
  with set_data_sim [OF inv set_data(2) refl] show ?thesis by (auto intro: spec_next)
next
  case (give_lp ri lp)
  with give_lp_sim [OF inv give_lp(2-4) refl] show ?thesis by (auto intro: spec_next)
next
  case (set_range ri lp order page)
  with set_range_sim [OF inv set_range(2-5) set_range(7-9) refl] show ?thesis by simp
next
  case (link_lp ri page order lp)
  with link_lp_sim [OF rb inv link_lp(2,3) refl] show ?thesis by (auto intro: spec_next)
next
  case (lock_free order page)
  with lock_free_sim [OF inv lock_free(2-4)] show ?thesis by simp
next
  case (free_round page "end" start start' l)
  have "s\<lparr>lp_lock := lp_lock s\<rparr> = s" by simp
  with free_sim(1,2) [OF rb inv free_round(2,3), of "Freeing page end start'" "lp_lock s"] free_round
  show ?thesis by simp
next
  case (free_last page "end" start start' l)
  with free_sim(1,2) [OF rb inv free_last(2,3), of Idle None] show ?thesis by simp
next
  case (lock_print page)
  with lock_print_sim [OF inv lock_print(2,3)] show ?thesis by simp
next
  case (print_it page)
  with print_sim [OF inv print_it(2)] show ?thesis by simp
qed

lemma smp_start_inv:
  assumes "smp_start s"
  shows "smp_inv K s \<and> spec_run (spec_of (sm_log s))"
proof -
  have st: "started (sm_log s)" and s: "lp_lock s = None" "pc s = (\<lambda>_. Idle)"
    using assms by (simp_all add: smp_start_def)
  have h: "holder s = (\<lambda>_. None)"
    using st s by (auto simp: holder_def started_def fun_eq_iff split: sum.splits)
  have "recs_inv [] (sm_log s)" using st by (simp add: started_def recs_inv_def ordered_def)
  then have "records_ok s" by (auto simp: records_ok_def h)
  moreover have "descriptors_ok s" using st s by (auto simp: descriptors_ok_def started_def)
  ultimately have "smp_inv K s" using s by (intro smp_invI) (simp_all add: apart_def locked_def)
  moreover have "spec_run (spec_of (sm_log s))" using started_inv [OF st] spec_start by simp
  ultimately show ?thesis ..
qed

lemma smp_run_sim:
  "smp_run K s s' \<Longrightarrow> rb_laws (k_rb K) \<Longrightarrow> smp_start s \<Longrightarrow> smp_inv K s' \<and> spec_run (spec_of (sm_log s'))"
proof (induction rule: smp_run.induct)
  case (smp_refl s)
  then show ?case by (simp add: smp_start_inv)
next
  case (smp_next s s' c s'')
  then show ?case using smp_step_sim [of K s' c s''] by blast
qed

end
