(* ===== verification/Log_Smp_Live.thy ===== *)
theory Log_Smp_Live
  imports Log_Smp_Sim
begin

text \<open>
  What a processor in a handler can do next, and how long it takes: each handler has a bounded number
  of sections left, and only the wait for \<open>lp_lock\<close> or the lack of a record keeps it from the next one.
\<close>

section \<open>The tree while the lock is held\<close>

definition tree_same :: "page_log \<Rightarrow> page_log \<Rightarrow> bool" where
  "tree_same l l' \<longleftrightarrow> lp_root l' = lp_root l \<and>
     (\<forall>q\<in>set_tree (lp_root l). lp_range (records l' q) = lp_range (records l q) \<and>
        lp_info (records l' q) = lp_info (records l q))"

lemma tree_same_owner:
  assumes "tree_same l l'"
  shows "owner l' = owner l" and "inside_one l' = inside_one l"
proof -
  show "owner l' = owner l"
    using assms by (auto simp: owner_def fun_eq_iff tree_same_def intro!: owner_of_cong)
  have "start_page (records l' q) = start_page (records l q) \<and> end_page (records l' q) = end_page (records l q)"
    if "q \<in> set_tree (lp_root l)" for q
    using assms that by (auto simp: tree_same_def lp_range_def)
  with assms show "inside_one l' = inside_one l"
    by (auto simp: inside_one_def tree_same_def fun_eq_iff)
qed

lemma tree_same_put: "lp \<notin> set_tree (lp_root l) \<Longrightarrow> tree_same l (put_lp lp r l)"
  by (auto simp: tree_same_def)

lemma tree_same_refl: "lp_root l' = lp_root l \<Longrightarrow> records l' = records l \<Longrightarrow> tree_same l l'"
  by (simp add: tree_same_def)

lemma not_in_tree:
  assumes "smp_inv K s" and "holder s k = Some lp"
  shows "lp \<notin> set_tree (lp_root (sm_log s))"
proof -
  from smp_invD(1) [OF assms(1)] obtain held where held: "set held = ran (holder s)" "recs_inv held (sm_log s)"
    by (auto simp: records_ok_def)
  from recs_distinct [OF held(2)] held(1) assms(2) show ?thesis by (auto simp: ran_def)
qed

lemma records_hw_save:
  assumes "smp_inv K s" and "pc s c = Entry ri si frames lp (Walking st (a # todo))" and "q \<noteq> lp"
  shows "lp_at (lp_pool (hw_save_stack_address st a (pl_pools (sm_log s)))) q = records (sm_log s) q"
proof -
  have "walking (records (sm_log s) lp) (st_at (st_pool (pl_pools (sm_log s))) st) (ucast si) lp frames (a # todo)"
    using smp_invD(3) [OF assms(1), of c] by (simp add: assms(2))
  from walking_save [OF this] assms(3) show ?thesis by auto
qed

text \<open>Another processor changes nothing in the tree while one holds the lock.\<close>

lemma other_step_tree:
  assumes inv: "smp_inv K s" and lock: "lp_lock s = Some c" and other: "d \<noteq> c" and step: "smp_step K d s s'"
  shows "tree_same (sm_log s) (sm_log s') \<and> lp_lock s' = Some c \<and> pc s' c = pc s c"
proof -
  have entry: "lp \<notin> set_tree (lp_root (sm_log s))" if "pc s d = Entry ri si frames lp g" for ri si frames lp g
    using not_in_tree [OF inv, of "Inr d"] that by (simp add: holder_def)
  have inst: "lp \<notin> set_tree (lp_root (sm_log s))" if "ri_data (sm_log s) ri = Some lp" for ri lp
    using not_in_tree [OF inv, of "Inl ri"] that by (simp add: holder_def)
  have hold: "\<not> holds_lock (pc s d)"
    using smp_invD(5) [OF inv] lock other by (auto simp: locked_def)
  from step show ?thesis
  proof (cases rule: smp_step.cases)
    case (take_lp ri lp pool si frames)
    from smp_invD(1) [OF inv] obtain held where "recs_inv held (sm_log s)" by (auto simp: records_ok_def)
    from recs_alloc(1,3) [OF this take_lp(5)] take_lp(1) lock other show ?thesis by (auto simp: tree_same_def)
  next
    case (set_order ri si frames lp)
    with entry lock other show ?thesis by (auto intro: tree_same_put)
  next
    case (save_frame ri si frames lp st a todo)
    with entry lock other records_hw_save [OF inv save_frame(2)] show ?thesis by (auto simp: tree_same_def) metis+
  next
    case (save_modules ri si frames lp st)
    with entry lock other show ?thesis by (auto simp: tree_same_def record_lp_modules_def Let_def)
  next
    case (give_lp ri lp)
    with lock other show ?thesis
      by (auto simp: tree_same_def free_lp_def u_free_lp_def lp_range_def lp_info_def)
  next
    case (set_range ri lp order page)
    with inst lock other show ?thesis by (auto intro: tree_same_put)
  qed (use lock other hold in \<open>auto simp: tree_same_def start_trace_def\<close>)
qed

section \<open>Sections left\<close>

fun sections_left :: "page_log \<Rightarrow> point \<Rightarrow> nat" where
  "sections_left l Idle = 0"
| "sections_left l (Entry ri si frames lp Took) = length frames + 7"
| "sections_left l (Entry ri si frames lp Ordered) = length frames + 6"
| "sections_left l (Entry ri si frames lp (Got_st st)) = length frames + 5"
| "sections_left l (Entry ri si frames lp (Walking st todo)) = length todo + 4"
| "sections_left l (Entry ri si frames lp (Recorded st)) = 3"
| "sections_left l (Entry ri si frames lp Filled) = 2"
| "sections_left l (Return ri page order lp) = 1"
| "sections_left l (Freeing page end start) =
     2 * nat (end - start) + (if inside_one l start end then 1 else 0)"
| "sections_left l (Printing page) = 1"

text \<open>A round that splits a record leaves nothing to split at the same place.\<close>

lemma free_step_progress:
  assumes "rb_laws (k_rb K)" and "recs_inv held l" and "start < end"
    and "free_step K end start l = Inr (start', l')"
  shows "start < start' \<or> start' = start \<and> inside_one l start end \<and> \<not> inside_one l' start end"
proof -
  have inv: "log_inv held (full_st l)" using assms(2) by (simp add: recs_inv_full)
  have step: "free_step K end start (full_st l) = Inr (start', full_st l')"
    by (simp add: free_step_full assms(4))
  have inside: "inside_one (full_st k) = inside_one k" for k by (simp add: inside_one_def fun_eq_iff)
  show ?thesis
  proof (cases "inside_one l start end")
    case False
    with round_log [OF assms(1) inv assms(3)] step show ?thesis by (auto simp: inside)
  next
    case True
    from free_step_recs(1,3,5) [OF assms] obtain x where x: "recs_inv held l'" "start \<le> start'" "start' \<le> x"
      "owner l' = (\<lambda>p. if start \<le> p \<and> p < x then None else owner l p)" by blast
    from True obtain lp where lp: "lp \<in> set_tree (lp_root (full_st l))" "start_page (records (full_st l) lp) < start"
      "end < end_page (records (full_st l) lp)" by (auto simp: inside_one_def)
    have "pool_left (full_st l)"
      using free_step_exhausted [OF inv assms(3), of K] True step by (auto simp: inside)
    from split_log [OF assms(1) inv this lp(1,2) assms(3) lp(3)] step
    have s: "start' = start" "owner l' start = None" using assms(3) by auto
    have "log_wf held (full_st l')" using x(1) by (simp add: recs_inv_full log_inv_def)
    from owner_None_iff [OF this, of start] s(2)
    have "\<forall>q\<in>set_tree (lp_root l'). start \<notin> pages (lp_range (records l' q))" by simp
    then have "\<not> inside_one l' start end" using assms(3) by (auto simp: inside_one_def mem_pages)
    with s(1) True show ?thesis by simp
  qed
qed

lemma sections_free:
  assumes "rb_laws (k_rb K)" and inv: "smp_inv K s" and at: "pc s c = Freeing page end start"
    and step: "free_step K end start (sm_log s) = Inr (start', l)"
  shows "sections_left l (Freeing page end start') < sections_left (sm_log s) (pc s c)"
proof -
  from smp_invD(1) [OF inv] obtain held where held: "recs_inv held (sm_log s)" by (auto simp: records_ok_def)
  have lt: "start < end" using smp_invD(3) [OF inv, of c] by (simp add: at)
  from free_step_progress [OF assms(1) held lt step] free_step_recs(4) [OF assms(1) held lt step] lt
  show ?thesis by (auto simp: at)
qed

lemma own_sections:
  assumes "rb_laws (k_rb K)" and "smp_inv K s" and "pc s c \<noteq> Idle" and "smp_step K c s s'"
  shows "sections_left (sm_log s') (pc s' c) < sections_left (sm_log s) (pc s c)"
  using assms(4)
proof (cases rule: smp_step.cases)
  case (free_round page "end" start start' l)
  with sections_free [OF assms(1,2) free_round(2,3)] show ?thesis by simp
next
  case (free_last page "end" start start' l)
  with smp_invD(3) [OF assms(2), of c] show ?thesis by simp
qed (use assms(3) in auto)

lemma other_sections:
  assumes "smp_inv K s" and "d \<noteq> c" and "smp_step K d s s'"
  shows "pc s' c = pc s c \<and> sections_left (sm_log s') (pc s' c) = sections_left (sm_log s) (pc s c)"
proof -
  have pc: "pc s' c = pc s c" using assms(3,2) by (cases rule: smp_step.cases) auto
  have "sections_left (sm_log s') (pc s c) = sections_left (sm_log s) (pc s c)"
  proof (cases "pc s c")
    case (Freeing page "end" start)
    then have "lp_lock s = Some c" using smp_invD(5) [OF assms(1)] by (simp add: locked_def)
    from other_step_tree [OF assms(1) this assms(2,3)] have "tree_same (sm_log s) (sm_log s')" by simp
    from tree_same_owner(2) [OF this] show ?thesis by (simp add: Freeing)
  next
    case (Entry ri si frames lp g)
    then show ?thesis by (cases g) auto
  qed auto
  with pc show ?thesis by simp
qed

section \<open>Progress\<close>

lemma descriptors_left:
  assumes "smp_inv K s" and "\<forall>d. pc s d \<noteq> Idle \<longrightarrow> d < n" and "n \<le> nr_st (st_pool (pl_pools (sm_log s)))"
    and "pc s c = Entry ri si frames lp Ordered"
  shows "\<exists>st pool. alloc_st (st_pool (pl_pools (sm_log s))) = Inr (st, pool)"
proof -
  let ?f = "\<lambda>d. descriptor_at (pc s d)" and ?P = "st_pool (pl_pools (sm_log s))"
  from smp_invD(2) [OF assms(1)] obtain xs where xs: "set xs = ran ?f" "stp.accounted xs ?P"
    by (auto simp: descriptors_ok_def)
  have sub: "dom ?f \<subseteq> {..<n} - {c}"
  proof
    fix d assume "d \<in> dom ?f"
    then have "pc s d \<noteq> Idle" "d \<noteq> c" using assms(4) by auto
    with assms(2) show "d \<in> {..<n} - {c}" by simp
  qed
  have c: "c < n" using assms(2,4) by auto
  have "card (dom ?f) \<le> card ({..<n} - {c})" by (rule card_mono [OF _ sub]) simp
  moreover have "ran ?f = (\<lambda>d. the (?f d)) ` dom ?f" by (force simp: ran_def)
  then have "card (ran ?f) \<le> card (dom ?f)" using finite_subset [OF sub] by (simp add: card_image_le)
  ultimately have "card (set xs) < card (st_slots ?P)"
    using assms(3) c by (simp add: xs(1) st_slots_def)
  then have "set xs \<noteq> st_slots ?P" by auto
  from stp.alloc_accounted [OF xs(2) this] show ?thesis by (auto simp: alloc_st_def)
qed

lemma smp_step_nr_st: "smp_step K c s s' \<Longrightarrow>
    nr_st (st_pool (pl_pools (sm_log s'))) = nr_st (st_pool (pl_pools (sm_log s)))"
proof (erule smp_step.cases, goal_cases)
  case (3 ri si frames lp st pool)
  then show ?case by (auto simp: alloc_st_def u_alloc_st_def split: option.splits)
next
  case (13 page "end" start start' l)
  with free_step_st [OF 13(3)] show ?case by simp
next
  case (14 page "end" start start' l)
  with free_step_st [OF 14(3)] show ?case by simp
qed (simp_all add: put_pool_def put_lp_def start_trace_def hw_save_stack_address_def record_lp_modules_def
    free_st_def u_free_st_def log_insert_def Let_def)

text \<open>A round faults only for want of a record.\<close>

lemma free_step_runs:
  assumes "rb_laws (k_rb K)" and "recs_inv held l" and "start < end"
  shows "(\<exists>start' l'. free_step K end start l = Inr (start', l')) \<or> free_step K end start l = Inl NullDeref"
proof -
  have inv: "log_inv held (full_st l)" using assms(2) by (simp add: recs_inv_full)
  have "(\<exists>start' l'. free_step K end start (full_st l) = Inr (start', l')) \<or>
      free_step K end start (full_st l) = Inl NullDeref"
  proof (cases "inside_one (full_st l) start end \<and> pool_left (full_st l)")
    case True
    then obtain lp where "lp \<in> set_tree (lp_root (full_st l))" "start_page (records (full_st l) lp) < start"
      "end < end_page (records (full_st l) lp)" by (auto simp: inside_one_def)
    with split_log [OF assms(1) inv _ _ _ assms(3)] True show ?thesis by blast
  next
    case False
    with round_log [OF assms(1) inv assms(3)] free_step_exhausted [OF inv assms(3), of K] show ?thesis by blast
  qed
  then show ?thesis by (cases "free_step K end start l") (auto simp: free_step_full)
qed

text \<open>What may keep a processor in a handler from its next section.\<close>

definition waits :: "smp \<Rightarrow> nat \<Rightarrow> bool" where
  "waits s c \<longleftrightarrow> (\<exists>ri page order lp d. pc s c = Return ri page order lp \<and> lp_lock s = Some d \<and> d \<noteq> c)"

definition faults :: "kernel \<Rightarrow> smp \<Rightarrow> nat \<Rightarrow> bool" where
  "faults K s c \<longleftrightarrow> (\<exists>page end start. pc s c = Freeing page end start \<and>
     free_step K end start (sm_log s) = Inl NullDeref)"

lemma can_step:
  assumes rb: "rb_laws (k_rb K)" and inv: "smp_inv K s" and cpus: "\<forall>d. pc s d \<noteq> Idle \<longrightarrow> d < n"
    and nr: "n \<le> nr_st (st_pool (pl_pools (sm_log s)))" and at: "pc s c \<noteq> Idle"
  shows "(\<exists>s'. smp_step K c s s') \<or> waits s c \<or> faults K s c"
proof (cases "pc s c")
  case Idle
  with at show ?thesis by simp
next
  case (Entry ri si frames lp g)
  show ?thesis
  proof (cases g)
    case Ordered
    from descriptors_left [OF inv cpus nr Entry [unfolded Ordered]] Entry Ordered show ?thesis
      by (blast intro: take_st)
  next
    case (Walking st todo)
    with Entry show ?thesis by (cases todo) (auto intro: save_frame save_modules)
  qed (use Entry in \<open>auto intro: set_order set_st give_st set_data\<close>)
next
  case (Return ri page order lp)
  show ?thesis
  proof (cases "lp_lock s")
    case None
    with Return show ?thesis by (blast intro: link_lp)
  next
    case (Some d)
    then have "holds_lock (pc s d)" using smp_invD(5) [OF inv] unfolding locked_def by blast
    with Return have "d \<noteq> c" by auto
    with Return Some show ?thesis by (auto simp: waits_def)
  qed
next
  case (Freeing page "end" start)
  from smp_invD(1) [OF inv] obtain held where held: "recs_inv held (sm_log s)" by (auto simp: records_ok_def)
  have "start < end" using smp_invD(3) [OF inv, of c] by (simp add: Freeing)
  from free_step_runs [OF rb held this] show ?thesis
  proof
    assume "free_step K end start (sm_log s) = Inl NullDeref"
    with Freeing show ?thesis by (auto simp: faults_def)
  next
    assume "\<exists>start' l'. free_step K end start (sm_log s) = Inr (start', l')"
    then obtain start' l' where "free_step K end start (sm_log s) = Inr (start', l')" by blast
    with free_round [OF Freeing this] free_last [OF Freeing this] show ?thesis by blast
  qed
next
  case (Printing page)
  then show ?thesis by (blast intro: print_it)
qed

lemma finishes:
  assumes "rb_laws (k_rb K)" and "smp_inv K s" and "\<forall>d. pc s d \<noteq> Idle \<longrightarrow> d < n"
    and "n \<le> nr_st (st_pool (pl_pools (sm_log s)))"
  shows "\<exists>k s'. k \<le> sections_left (sm_log s) (pc s c) \<and> (smp_step K c ^^ k) s s' \<and>
    (pc s' c = Idle \<or> waits s' c \<or> faults K s' c)"
  using assms(2-4)
proof (induction "sections_left (sm_log s) (pc s c)" arbitrary: s rule: less_induct)
  case less
  show ?case
  proof (cases "pc s c = Idle \<or> waits s c \<or> faults K s c")
    case True
    then show ?thesis by (intro exI [of _ 0] exI [of _ s]) simp
  next
    case False
    with can_step [OF assms(1) less(2,3,4)] obtain s1 where s1: "smp_step K c s s1" by blast
    note lt = own_sections [OF assms(1) less(2) _ s1]
    have "pc s1 d = pc s d" if "d \<noteq> c" for d using s1 that by (cases rule: smp_step.cases) auto
    then have cpus: "\<forall>d. pc s1 d \<noteq> Idle \<longrightarrow> d < n" using less(3) False by metis
    from less(1) [of s1] lt smp_step_sim [OF assms(1) less(2) s1] cpus smp_step_nr_st [OF s1] less(4) False
    obtain k s' where k: "k \<le> sections_left (sm_log s1) (pc s1 c)" "(smp_step K c ^^ k) s1 s'"
      "pc s' c = Idle \<or> waits s' c \<or> faults K s' c" by auto
    have "(smp_step K c ^^ Suc k) s s'" using relpowp_Suc_I2 [OF s1 k(2)] .
    with k lt False show ?thesis by (intro exI [of _ "Suc k"] exI [of _ s']) auto
  qed
qed

lemma smp_run_nr_st: "smp_run K s s' \<Longrightarrow>
    nr_st (st_pool (pl_pools (sm_log s'))) = nr_st (st_pool (pl_pools (sm_log s)))"
  by (induction rule: smp_run.induct) (simp_all add: smp_step_nr_st)

section \<open>Printing, interrupted\<close>

text \<open>Nobody gets the lock of a processor whose printing is interrupted by a handler that wants it.\<close>

lemma irq_stuck:
  assumes run: "irq_run K x y" and rb: "rb_laws (k_rb K)"
    and start: "smp_inv K (fst x)" "pc (fst x) c = Printing page" "c \<in> snd x"
  shows "smp_inv K (fst y) \<and> c \<in> snd y \<and> pc (fst y) c = Printing page \<and> lp_lock (fst y) = Some c \<and>
    owner (sm_log (fst y)) = owner (sm_log (fst x)) \<and>
    (\<forall>d ri page order lp. pc (fst x) d = Return ri page order lp \<longrightarrow> pc (fst y) d = pc (fst x) d)"
  using run start
proof (induction rule: irq_run.induct)
  case (irq_refl x)
  then have "lp_lock (fst x) = Some c" using smp_invD(5) [OF irq_refl(1)] by (simp add: locked_def)
  with irq_refl show ?case by simp
next
  case (irq_next x y z)
  note IH = irq_next.IH [OF irq_next.prems]
  from irq_next.hyps(2) show ?case
  proof (cases rule: irq_step.cases)
    case (section_runs d spin s s')
    then have inv: "smp_inv K s" and lock: "lp_lock s = Some c" and dc: "d \<noteq> c" using IH by auto
    note tree = other_step_tree [OF inv lock dc section_runs(4)]
    have "pc s' e = pc s e" if "pc s e = Return ri p order lp" for e ri p order lp
      using section_runs(4) lock that by (cases rule: smp_step.cases) (auto split: if_splits)
    with IH section_runs tree tree_same_owner(1) [of "sm_log s" "sm_log s'"]
      smp_step_sim [OF rb inv section_runs(4)] show ?thesis by auto
  next
    case (interrupted s d page' spin)
    with IH show ?thesis by auto
  next
    case (handled d spin s page' order l)
    with IH show ?thesis by simp
  qed
qed

end
