(* ===== verification/Log_Smp_Owners.thy ===== *)
theory Log_Smp_Owners
  imports Log_Smp_Sim
begin

text \<open>
  Types in the page log on several processors: what owns a page is always a full trace with its
  modules, and no section reads the wrong member of the union of a record.
\<close>

section \<open>Where owners come from\<close>

definition infos :: "spec_state \<Rightarrow> owner_info set" where
  "infos x = ran (fst x) \<union> {i. \<exists>ri order. snd x ri = Some (order, i)}"

lemma spec_step_infos:
  assumes "spec_step x y"
  shows "infos y \<subseteq> infos x \<union> {i. \<exists>ri order. snd x ri = None \<and> snd y ri = Some (order, i)}"
  using assms by cases (auto simp: infos_def ran_def split: if_splits)

lemma spec_dom: "smp_inv K s \<Longrightarrow> snd (spec_of (sm_log s)) ri = None \<longleftrightarrow> ri_data (sm_log s) ri = None"
  using instance_order by (fastforce simp: spec_of_def split: option.splits lp_union.splits)

text \<open>A step that starts no instance brings in no owner.\<close>

lemma spec_step_old:
  assumes "smp_inv K s" and "smp_inv K s'" and "spec_step (spec_of (sm_log s)) (spec_of (sm_log s'))"
    and "dom (ri_data (sm_log s')) \<subseteq> dom (ri_data (sm_log s))"
  shows "infos (spec_of (sm_log s')) \<subseteq> infos (spec_of (sm_log s))"
proof -
  have "snd (spec_of (sm_log s')) ri = None" if "snd (spec_of (sm_log s)) ri = None" for ri
  proof -
    have "ri \<notin> dom (ri_data (sm_log s))" using that spec_dom [OF assms(1), of ri] by (simp add: domIff)
    then have "ri \<notin> dom (ri_data (sm_log s'))" using assms(4) by blast
    with spec_dom [OF assms(2), of ri] show ?thesis by (simp add: domIff)
  qed
  then have "{i. \<exists>ri order. snd (spec_of (sm_log s)) ri = None \<and>
      snd (spec_of (sm_log s')) ri = Some (order, i)} = {}" by fastforce
  with spec_step_infos [OF assms(3)] show ?thesis by blast
qed

lemma free_step_infos:
  assumes "rb_laws (k_rb K)" and inv: "smp_inv K s" and at: "pc s c = Freeing page end start"
    and step: "free_step K end start (sm_log s) = Inr (start', l)"
  shows "infos (spec_of l) \<subseteq> infos (spec_of (sm_log s))"
proof -
  have lt: "start < end" using smp_invD(3) [OF inv, of c] by (simp add: at)
  from smp_invD(1) [OF inv] obtain held where held: "set held = ran (holder s)" "recs_inv held (sm_log s)"
    by (auto simp: records_ok_def)
  note f = free_step_recs [OF assms(1) held(2) lt step]
  have ri: "ri_data l = ri_data (sm_log s)" using f(2) by (simp add: frame_def)
  have "records l q = records (sm_log s) q" if "ri_data (sm_log s) m = Some q" for m q
  proof -
    have "q \<in> ran (holder s)" using that by (auto simp: ran_def holder_def intro!: exI [of _ "Inl m"])
    with f(2) held(1) show ?thesis by (simp add: frame_def)
  qed
  then have "snd (spec_of l) = snd (spec_of (sm_log s))"
    by (auto simp: spec_of_def ri fun_eq_iff split: option.splits lp_union.splits)
  moreover have "ran (owner l) \<subseteq> ran (owner (sm_log s))"
    using f(5) by (auto simp: ran_def split: if_splits)
  moreover have "fst (spec_of k) = owner k" for k by (simp add: spec_of_def)
  ultimately show ?thesis by (auto simp: infos_def)
qed

lemma set_data_infos:
  assumes inv: "smp_inv K s" and at: "pc s c = Entry ri si frames lp Filled"
    and l: "l = set_instance ri (Some lp) (sm_log s)"
  shows "infos (spec_of l) \<subseteq> insert (trace_info K frames) (infos (spec_of (sm_log s)))"
proof -
  have r: "records (sm_log s) lp = captured K si frames"
    using smp_invD(3) [OF inv, of c] by (simp add: at)
  have "snd (spec_of l) = (snd (spec_of (sm_log s)))(ri := Some (ucast si, trace_info K frames))"
    by (simp add: spec_of_def l r lp_info_def fun_eq_iff split: option.splits lp_union.splits)
  moreover have "fst (spec_of l) = fst (spec_of (sm_log s))" by (simp add: spec_of_def l)
  ultimately show ?thesis by (auto simp: infos_def split: if_splits)
qed

lemma smp_step_infos:
  assumes rb: "rb_laws (k_rb K)" and inv: "smp_inv K s" and step: "smp_step K c s s'"
  shows "infos (spec_of (sm_log s')) \<subseteq> infos (spec_of (sm_log s)) \<union> range (trace_info K)"
proof -
  have inv': "smp_inv K s'" using smp_step_sim [OF assms] ..
  note old = spec_step_old [OF inv inv']
  from step show ?thesis
  proof (cases rule: smp_step.cases)
    case (take_lp ri lp pool si frames)
    with take_lp_sim [OF inv take_lp(2-5) refl, of si frames] show ?thesis by auto
  next
    case (set_order ri si frames lp)
    with set_order_sim [OF inv set_order(2) refl] show ?thesis by auto
  next
    case (take_st ri si frames lp st pool)
    with take_st_sim [OF inv take_st(2,3) refl] show ?thesis by auto
  next
    case (set_st ri si frames lp st)
    with set_st_sim [OF inv set_st(2) refl] show ?thesis by auto
  next
    case (save_frame ri si frames lp st a todo)
    with save_frame_sim [OF inv save_frame(2) refl] show ?thesis by auto
  next
    case (save_modules ri si frames lp st)
    with save_modules_sim [OF inv save_modules(2) refl] show ?thesis by auto
  next
    case (give_st ri si frames lp st)
    with give_st_sim [OF inv give_st(2) refl] show ?thesis by auto
  next
    case (set_data ri si frames lp)
    with set_data_infos [OF inv set_data(2) refl] show ?thesis by auto
  next
    case (give_lp ri lp)
    then have "infos (spec_of (sm_log s')) \<subseteq> infos (spec_of (sm_log s))"
      using give_lp_sim [OF inv give_lp(2-4) refl] by (intro old) (auto simp: put_pool_def)
    then show ?thesis by blast
  next
    case (set_range ri lp order page)
    with set_range_sim [OF inv set_range(2-5) set_range(7-9) refl] show ?thesis by auto
  next
    case (link_lp ri page order lp)
    then have "infos (spec_of (sm_log s')) \<subseteq> infos (spec_of (sm_log s))"
      using link_lp_sim [OF rb inv link_lp(2,3) refl] by (intro old) (auto simp: log_insert_def)
    then show ?thesis by blast
  next
    case (free_round page "end" start start' l)
    with free_step_infos [OF rb inv free_round(2,3)] show ?thesis by auto
  next
    case (free_last page "end" start start' l)
    with free_step_infos [OF rb inv free_last(2,3)] show ?thesis by auto
  qed auto
qed

lemma smp_run_infos:
  "smp_run K s s' \<Longrightarrow> rb_laws (k_rb K) \<Longrightarrow> smp_start s \<Longrightarrow> infos (spec_of (sm_log s')) \<subseteq> range (trace_info K)"
proof (induction rule: smp_run.induct)
  case (smp_refl s)
  then have "owner (sm_log s) = (\<lambda>_. None)" "ri_data (sm_log s) = (\<lambda>_. None)"
    by (auto simp: smp_start_def started_def owner_def owner_of_def fun_eq_iff)
  then show ?case by (simp add: infos_def spec_of_def)
next
  case (smp_next s s' c s'')
  with smp_step_infos [of K s' c s''] smp_run_sim [OF smp_next(1)] show ?case by blast
qed

end
