(* ===== verification/Log_Smp_Props.thy ===== *)
theory Log_Smp_Props
  imports Log_Smp_Live Log_Smp_Owners Log_Props
begin

text \<open>
  The properties of the page log on several processors, mem_leak/kerspace/huawei_log_page.c, each with
  a witness on demonstration states.
\<close>

section \<open>The handlers are their sections\<close>

lemma walk_alone:
  "pc s c = Entry ri si frames lp (Walking st todo) \<Longrightarrow> (smp_step K c)\<^sup>*\<^sup>* s
     (goto c (Entry ri si frames lp (Walking st []))
        (on_pools (fold (hw_save_stack_address st) todo) (sm_log s)) s)"
proof (induction todo arbitrary: s)
  case Nil
  then have "goto c (Entry ri si frames lp (Walking st [])) (on_pools id (sm_log s)) s = s"
    by (simp add: goto_def on_pools_def fun_upd_idem)
  then show ?case by (simp add: id_def)
next
  case (Cons a todo)
  let ?s = "goto c (Entry ri si frames lp (Walking st todo)) (on_pools (hw_save_stack_address st a) (sm_log s)) s"
  from save_frame [OF Cons.prems, of K] have "smp_step K c s ?s" .
  also have "(smp_step K c)\<^sup>*\<^sup>* ?s (goto c (Entry ri si frames lp (Walking st []))
      (on_pools (fold (hw_save_stack_address st) todo) (sm_log ?s)) ?s)"
    by (rule Cons.IH) simp
  finally (converse_rtranclp_into_rtranclp) show ?case by (simp add: goto_def on_pools_def)
qed

lemma st_pool_upd: "st_pool_update f s = s\<lparr>st_pool := f (st_pool s)\<rparr>"
  by (cases s) simp

lemma entry_alone:
  assumes idle: "pc s c = Idle" and ri: "ri_data (sm_log s) ri = None" "\<not> busy s ri"
    and run: "alloc_pages_nodemask_entry_handler K frames ri si (sm_log s) = Inr l"
  shows "(smp_step K c)\<^sup>*\<^sup>* s (goto c Idle l s)"
proof -
  let ?L = "sm_log s" and ?E = "Entry ri si frames"
  from run obtain lp pool where al: "alloc_lp (lp_pool (pl_pools ?L)) = Inr (lp, pool)"
    by (cases "alloc_lp (lp_pool (pl_pools ?L))") (auto simp: alloc_pages_nodemask_entry_handler_def)
  define s1 where "s1 = goto c (?E lp Took) (put_pool pool ?L) s"
  define s2 where "s2 = goto c (?E lp Ordered)
    (put_lp lp ((records (sm_log s1) lp)\<lparr>lp_u := Order (ucast si)\<rparr>) (sm_log s1)) s1"
  have P2: "pl_pools (sm_log s2) = (pl_pools ?L)\<lparr>lp_pool := pool\<lparr>lp_at := (lp_at pool)
      (lp := (lp_at pool lp)\<lparr>lp_u := Order (ucast si)\<rparr>)\<rparr>\<rparr>"
    by (simp add: s2_def s1_def put_lp_def put_pool_def)
  from run al obtain ps where
    ps: "get_lp_call_stack (module_address K) (name_of_module K) frames lp (pl_pools (sm_log s2)) = Inr ps"
      "l = ?L\<lparr>pl_pools := ps, ri_data := (ri_data ?L)(ri := Some lp)\<rparr>"
    by (auto simp: alloc_pages_nodemask_entry_handler_def P2 Let_def bind_result_Inr)
  then obtain st stp where st: "alloc_st (st_pool (pl_pools (sm_log s2))) = Inr (st, stp)"
    by (auto simp: get_lp_call_stack_sections bind_result_Inr)
  define s3 where "s3 = goto c (?E lp (Got_st st)) (on_pools (st_pool_update (\<lambda>_. stp)) (sm_log s2)) s2"
  define s4 where "s4 = goto c (?E lp (Walking st frames)) (on_pools (start_trace st lp) (sm_log s3)) s3"
  define s5 where "s5 = goto c (?E lp (Walking st []))
    (on_pools (fold (hw_save_stack_address st) frames) (sm_log s4)) s4"
  define s6 where "s6 = goto c (?E lp (Recorded st)) (on_pools (record_lp_modules K lp) (sm_log s5)) s5"
  define s7 where "s7 = goto c (?E lp Filled) (on_pools (st_pool_update (free_st st)) (sm_log s6)) s6"
  define s8 where "s8 = goto c Idle (set_instance ri (Some lp) (sm_log s7)) s7"
  have "(smp_step K c)\<^sup>*\<^sup>* s s1"
    unfolding s1_def by (rule r_into_rtranclp, rule take_lp [OF idle ri al])
  also have "(smp_step K c)\<^sup>*\<^sup>* s1 s2"
    unfolding s2_def by (rule r_into_rtranclp, rule set_order) (simp add: s1_def)
  also have "(smp_step K c)\<^sup>*\<^sup>* s2 s3"
    unfolding s3_def by (rule r_into_rtranclp, rule take_st [OF _ st]) (simp add: s2_def)
  also have "(smp_step K c)\<^sup>*\<^sup>* s3 s4"
    unfolding s4_def by (rule r_into_rtranclp, rule set_st) (simp add: s3_def)
  also have "(smp_step K c)\<^sup>*\<^sup>* s4 s5" unfolding s5_def by (rule walk_alone) (simp add: s4_def)
  also have "(smp_step K c)\<^sup>*\<^sup>* s5 s6"
    unfolding s6_def by (rule r_into_rtranclp, rule save_modules) (simp add: s5_def)
  also have "(smp_step K c)\<^sup>*\<^sup>* s6 s7"
    unfolding s7_def by (rule r_into_rtranclp, rule give_st) (simp add: s6_def)
  also have "(smp_step K c)\<^sup>*\<^sup>* s7 s8"
    unfolding s8_def by (rule r_into_rtranclp, rule set_data) (simp add: s7_def)
  finally have "(smp_step K c)\<^sup>*\<^sup>* s s8" .
  moreover have "pl_pools (sm_log s7) = ps"
    using ps(1) st by (simp add: get_lp_call_stack_sections Let_def s7_def s6_def s5_def s4_def s3_def st_pool_upd [of "free_st st"])
  then have "sm_log s8 = l"
    by (simp add: s8_def ps(2) set_instance_def)
      (simp add: s7_def s6_def s5_def s4_def s3_def s2_def s1_def on_pools_def put_lp_def put_pool_def)
  moreover have "s8 = goto c Idle (sm_log s8) s"
    by (simp add: s8_def s7_def s6_def s5_def s4_def s3_def s2_def s1_def goto_def)
  ultimately show ?thesis by simp
qed



lemma at_rest_simps [simp]: "pc (at_rest l) c = Idle" "lp_lock (at_rest l) = None" "sm_log (at_rest l) = l"
  "\<not> busy (at_rest l) ri" "goto c Idle l' (at_rest l) = at_rest l'"
  by (simp_all add: at_rest_def busy_def goto_def fun_eq_iff)



section \<open>Demonstration states\<close>

text \<open>A machine with two processors and three page frames, and the log after it was loaded there.\<close>

definition demo_machine :: boot where
  "demo_machine = (demo_boot 0)\<lparr>NR_CPUS := 2,
     online_nodes := [\<lparr>node_start_pfn = 2, node_zones = [\<lparr>spanned_pages = 3\<rparr>]\<rparr>]\<rparr>"

definition demo_loaded :: log_module where
  "demo_loaded = snd (huawei_log_page_init demo_machine demo_unloaded)"

lemma demo_frames: "get_nr_pages (\<lambda>_. True) [\<lparr>node_start_pfn = 2, node_zones = [\<lparr>spanned_pages = 3\<rparr>]\<rparr>] = 3"
  by code_simp

lemma demo_loads: "huawei_log_page_init demo_machine demo_unloaded = (0, demo_loaded)"
  and demo_nr_lp: "nr_lp (the_lp_pool demo_loaded) = 3"
proof -
  obtain ret m where r: "huawei_log_page_init demo_machine demo_unloaded = (ret, m)" by fastforce
  then have "ret = 0 \<and> nr_lp (the_lp_pool m) = 3"
    by (auto simp: huawei_log_page_init_def init_lp_pool_def init_st_pool_def register_probes_def
        register_free_pages_ok_def register_free_hot_cold_page_def register_alloc_pages_nodemask_def
        demo_machine_def demo_boot_def demo_frames fold_free_lp_nr on_lp_pool_def on_st_pool_def put_pool_def
        Let_def MAXACTIVE_def)
  with r show "huawei_log_page_init demo_machine demo_unloaded = (0, demo_loaded)"
    and "nr_lp (the_lp_pool demo_loaded) = 3" by (simp_all add: demo_loaded_def)
qed

lemma demo_unloaded_empty: "unloaded demo_unloaded" "lp_root (m_log demo_unloaded) = Leaf"
  "ri_data (m_log demo_unloaded) = (\<lambda>_. None)" "0 < NR_CPUS demo_machine" "NR_CPUS demo_machine = 2"
  by (simp_all add: unloaded_def demo_unloaded_def demo_start_def demo_machine_def)

lemmas demo_init = demo_loads demo_unloaded_empty(1,4,2,3)

lemma demo_loaded_started: "started (m_log demo_loaded)"
  by (rule init_started(1) [OF demo_init])

lemma demo_loaded_left: "log_inv [] (m_log demo_loaded)" "pool_left (m_log demo_loaded)"
proof -
  show inv: "log_inv [] (m_log demo_loaded)" 
    using demo_loaded_started by (simp add: started_def log_inv_def log_wf_def ordered_def)
  then have "log_wf [] (m_log demo_loaded)" by (simp add: log_inv_def)
  moreover have "lp_root (m_log demo_loaded) = Leaf" using demo_loaded_started by (simp add: started_def)
  moreover have "0 \<in> lp_slots (the_lp_pool demo_loaded)" by (simp add: lp_slots_def demo_nr_lp)
  ultimately show "pool_left (m_log demo_loaded)" by (auto simp: pool_left_iff)
qed

lemma smp_run_alone: "(smp_step K c)\<^sup>*\<^sup>* s s' \<Longrightarrow> smp_run K s0 s \<Longrightarrow> smp_run K s0 s'"
  by (induction rule: rtranclp_induct) (auto intro: smp_next)

text \<open>One instance in flight, all processors idle; and two processors that each have just a record.\<close>

lemma demo_entered:
  obtains l where "smp_run demo_K (at_rest (m_log demo_loaded)) (goto 0 Idle l (at_rest (m_log demo_loaded)))"
    and "alloc_pages_nodemask_entry_handler demo_K [1, 2] 7 1 (m_log demo_loaded) = Inr l"
    and "ri_data l 7 \<noteq> None"
proof -
  have none: "ri_data (m_log demo_loaded) = (\<lambda>_. None)" using demo_loaded_started by (simp add: started_def)
  from entry_handler_log [OF demo_loaded_left, of demo_K "[1, 2]" 7 1] obtain lp l where
    l: "alloc_pages_nodemask_entry_handler demo_K [1, 2] 7 1 (m_log demo_loaded) = Inr l"
    "ri_data l = (ri_data (m_log demo_loaded))(7 := Some lp)" by blast
  let ?s = "at_rest (m_log demo_loaded)"
  have "(smp_step demo_K 0)\<^sup>*\<^sup>* ?s (goto 0 Idle l ?s)"
    by (rule entry_alone [of _ _ 7 _ "[1, 2]" 1]) (simp_all add: at_rest_def none busy_def l(1))
  from smp_run_alone [OF this smp_refl] l show thesis by (intro that) auto
qed


section \<open>Refinement\<close>



section \<open>No sharing\<close>






section \<open>Progress\<close>



section \<open>Handlers as one operation\<close>



section \<open>Types\<close>

text \<open>C7: In every state that the processors reach the memory is typed. No member of the union is read
  that was not written last: a record taken from the pool has a link, and a return handler of an
  instance in flight, with any page, runs. And whoever owns a page is the whole trace of a stack,
  26 addresses, with the modules on it, never one that is half written.\<close>

theorem smp_well_typed:
  assumes "rb_laws (k_rb K)" and "smp_start s0" and "smp_run K s0 s"
  shows "alloc_lp (lp_pool (pl_pools (sm_log s))) \<noteq> Inl BadUnion \<and>
    (\<forall>ri page. ri_data (sm_log s) ri \<noteq> None \<longrightarrow>
       (\<exists>l. alloc_pages_nodemask_ret_handler K ri page (sm_log s) = Inr l)) \<and>
    (\<forall>p i. owner (sm_log s) p = Some i \<longrightarrow> length (fst i) = LOG_PAGE_TRACE_LEVEL \<and>
       (\<exists>frames. fst i = trace_of frames) \<and>
       snd i = modules_of (module_address K) (name_of_module K) (fst i))"
proof (intro conjI allI impI)
  from smp_run_sim [OF assms(3,1,2)] have inv: "smp_inv K s" ..
  from smp_invD(1) [OF inv] obtain held where held: "recs_inv held (sm_log s)" by (auto simp: records_ok_def)
  show "alloc_lp (lp_pool (pl_pools (sm_log s))) \<noteq> Inl BadUnion"
  proof (cases "set (inorder (lp_root (sm_log s)) @ held) = lp_slots (lp_pool (pl_pools (sm_log s)))")
    case True
    with held lpp.alloc_fails_iff show ?thesis by (fastforce simp: recs_inv_def alloc_lp_def)
  next
    case False
    with held lpp.alloc_accounted show ?thesis by (fastforce simp: recs_inv_def alloc_lp_def)
  qed
  show "\<exists>l. alloc_pages_nodemask_ret_handler K ri page (sm_log s) = Inr l"
    if some: "ri_data (sm_log s) ri \<noteq> None" for ri page
  proof -
    from some obtain lp where lp: "ri_data (sm_log s) ri = Some lp" by blast
    from instance_order [OF inv this] lp show ?thesis
      by (auto simp: alloc_pages_nodemask_ret_handler_def)
  qed
  fix p i assume "owner (sm_log s) p = Some i"
  then have "i \<in> infos (spec_of (sm_log s))" by (auto simp: infos_def spec_of_def ran_def)
  with smp_run_infos [OF assms(3,1,2)] obtain frames where i: "i = trace_info K frames" by blast
  show "length (fst i) = LOG_PAGE_TRACE_LEVEL" by (simp add: i trace_of_def Let_def)
  show "\<exists>frames. fst i = trace_of frames" by (auto simp: i)
  show "snd i = modules_of (module_address K) (name_of_module K) (fst i)" by (simp add: i)
qed

theorem smp_well_typed_witness:
  "\<exists>s l. smp_run demo_K (at_rest (m_log demo_loaded)) s \<and>
     alloc_pages_nodemask_ret_handler demo_K 7 9 (sm_log s) = Inr l"
proof -
  from demo_entered obtain l where
    run: "smp_run demo_K (at_rest (m_log demo_loaded)) (goto 0 Idle l (at_rest (m_log demo_loaded)))"
    and l: "ri_data l 7 \<noteq> None" by blast
  from smp_well_typed [OF demo_laws _ run] demo_loaded_started l run show ?thesis by fastforce
qed

section \<open>Printing, interrupted\<close>



end
