(* ===== verification/Log_Test.thy ===== *)
theory Log_Test
  imports Log_Machine
begin

text \<open>
  The test modules of the page log, mem_leak/kerspace/huawei_log_page_test_1.c to
  huawei_log_page_test_4.c: a chain of four modules, each calling the one before, so that the trace
  of the allocation that module 4 makes on loading passes through several modules. On unloading the
  block is given back. The allocator the test calls is a parameter.
\<close>

section \<open>State\<close>

text \<open>What the modules print. A line of \<open>print_page\<close> is a \<open>LogLine\<close>.\<close>

datatype test_line =
    Hi string
  | Goodbye string
  | PagePointer page_ptr
  | PageAddress u64
  | Allocated u32 u64
  | Freed page_ptr u32
  | LogLine log_line

text \<open>The variable a \<open>struct page **\<close> points to: the one of module 1 or the one of module 4.\<close>

datatype page_var = Global_page | Page4

record log_test =
  t_log :: page_log
  addr_of_page :: u64
  page_vars :: "page_var \<Rightarrow> page_ptr"
  messages :: "test_line list"

text \<open>
  The kernel's \<open>alloc_pages\<close> and \<open>__free_page\<close> with the log's probes on their way: the page log
  is the state they change.
\<close>

record page_allocator =
  alloc_pages :: "u32 \<Rightarrow> page_log \<Rightarrow> (page_ptr \<times> page_log) result"
  u_free_page :: "page_ptr \<Rightarrow> page_log \<Rightarrow> page_log result option"

definition say :: "test_line list \<Rightarrow> log_test \<Rightarrow> log_test" where
  "say ls t = t\<lparr>messages := messages t @ ls\<rparr>"

definition say_page :: "kernel \<Rightarrow> page_ptr \<Rightarrow> log_test \<Rightarrow> log_test" where
  "say_page K page t =
     (let s = print_page K page (t_log t)
      in say (map LogLine (drop (length (console (t_log t))) (console s))) (t\<lparr>t_log := s\<rparr>))"

section \<open>Module 1\<close>

definition page_busy_test ::
  "kernel \<Rightarrow> page_allocator \<Rightarrow> page_var \<Rightarrow> u32 \<Rightarrow> log_test \<Rightarrow> log_test result"
where
  "page_busy_test K A pagep order t =
     bind_result (alloc_pages A order (t_log t)) (\<lambda>(page, s).
       let t = t\<lparr>t_log := s, page_vars := (page_vars t)(pagep := page), addr_of_page := page_address K page\<rparr>;
           t = say [Hi ''page_busy_test''] t;
           t = say [PagePointer page, PageAddress (addr_of_page t), Allocated order (addr_of_page t)] t
       in Inr (say_page K page t))"

definition test_start :: "kernel \<Rightarrow> page_allocator \<Rightarrow> log_test \<Rightarrow> log_test result" where
  "test_start K A t = page_busy_test K A Global_page 4 t"

definition huawei_log_page_test_1_init :: "log_test \<Rightarrow> int \<times> log_test" where
  "huawei_log_page_test_1_init t = (0, say [Hi ''huawei_log_page_test_1_init''] t)"

text \<open>The block is given back with \<open>__free_page\<close>, which takes no order.\<close>

definition page_busy_test_exit ::
  "kernel \<Rightarrow> page_allocator \<Rightarrow> page_var \<Rightarrow> u32 \<Rightarrow> log_test \<Rightarrow> log_test result option"
where
  "page_busy_test_exit K A pagep order t =
     (let page = page_vars t pagep in
      map_option (\<lambda>r. bind_result r (\<lambda>s.
        let t = say [Freed page order] (t\<lparr>t_log := s\<rparr>)
        in Inr (say [Goodbye ''page_busy_test_exit''] (say_page K page t))))
        (u_free_page A page (t_log t)))"

definition test_end :: "kernel \<Rightarrow> page_allocator \<Rightarrow> log_test \<Rightarrow> log_test result option" where
  "test_end K A t = page_busy_test_exit K A Global_page 4 t"

definition huawei_log_page_test_1_exit :: "log_test \<Rightarrow> log_test" where
  "huawei_log_page_test_1_exit t = say [Goodbye ''huawei_log_page_test_1_exit''] t"

section \<open>Modules 2 to 4\<close>

text \<open>What a caller prints after the callee returned.\<close>

definition then_say :: "test_line \<Rightarrow> log_test result option \<Rightarrow> log_test result option" where
  "then_say l r = map_option (map_sum id (say [l])) r"

definition huawei_log_page_test_2_alloc ::
  "kernel \<Rightarrow> page_allocator \<Rightarrow> page_var \<Rightarrow> u32 \<Rightarrow> log_test \<Rightarrow> log_test result"
where
  "huawei_log_page_test_2_alloc K A pagep order t =
     page_busy_test K A pagep order (say [Hi ''huawei_log_page_test_2_alloc''] t)"

definition huawei_log_page_test_2_init :: "log_test \<Rightarrow> int \<times> log_test" where
  "huawei_log_page_test_2_init t = (0, say [Hi ''huawei_log_page_test_2_init''] t)"

definition huawei_log_page_test_2_free ::
  "kernel \<Rightarrow> page_allocator \<Rightarrow> page_var \<Rightarrow> u32 \<Rightarrow> log_test \<Rightarrow> log_test result option"
where
  "huawei_log_page_test_2_free K A pagep order t =
     then_say (Goodbye ''huawei_log_page_test_2_free'') (page_busy_test_exit K A pagep order t)"

definition huawei_log_page_test_2_exit :: "log_test \<Rightarrow> log_test" where
  "huawei_log_page_test_2_exit t = say [Goodbye ''huawei_log_page_test_2_exit''] t"

definition huawei_log_page_test_3_alloc ::
  "kernel \<Rightarrow> page_allocator \<Rightarrow> page_var \<Rightarrow> u32 \<Rightarrow> log_test \<Rightarrow> log_test result"
where
  "huawei_log_page_test_3_alloc K A pagep order t =
     huawei_log_page_test_2_alloc K A pagep order (say [Hi ''huawei_log_page_test_3_alloc''] t)"

definition huawei_log_page_test_3_init :: "log_test \<Rightarrow> int \<times> log_test" where
  "huawei_log_page_test_3_init t = (0, say [Hi ''huawei_log_page_test_3_init''] t)"

definition huawei_log_page_test_3_free ::
  "kernel \<Rightarrow> page_allocator \<Rightarrow> page_var \<Rightarrow> u32 \<Rightarrow> log_test \<Rightarrow> log_test result option"
where
  "huawei_log_page_test_3_free K A pagep order t =
     then_say (Goodbye ''huawei_log_page_test_3_free'') (huawei_log_page_test_2_free K A pagep order t)"

definition huawei_log_page_test_3_exit :: "log_test \<Rightarrow> log_test" where
  "huawei_log_page_test_3_exit t = say [Goodbye ''huawei_log_page_test_3_exit''] t"

definition huawei_log_page_test_4_alloc ::
  "kernel \<Rightarrow> page_allocator \<Rightarrow> page_var \<Rightarrow> u32 \<Rightarrow> log_test \<Rightarrow> log_test result"
where
  "huawei_log_page_test_4_alloc K A pagep order t =
     huawei_log_page_test_3_alloc K A pagep order (say [Hi ''huawei_log_page_test_4_alloc''] t)"

definition huawei_log_page_test_4_init ::
  "kernel \<Rightarrow> page_allocator \<Rightarrow> log_test \<Rightarrow> (int \<times> log_test) result"
where
  "huawei_log_page_test_4_init K A t =
     bind_result (huawei_log_page_test_4_alloc K A Page4 4 (say [Hi ''huawei_log_page_test_4_init''] t))
       (\<lambda>t. Inr (0, t))"

definition huawei_log_page_test_4_free ::
  "kernel \<Rightarrow> page_allocator \<Rightarrow> page_var \<Rightarrow> u32 \<Rightarrow> log_test \<Rightarrow> log_test result option"
where
  "huawei_log_page_test_4_free K A pagep order t =
     then_say (Goodbye ''huawei_log_page_test_4_free'') (huawei_log_page_test_3_free K A pagep order t)"

definition huawei_log_page_test_4_exit ::
  "kernel \<Rightarrow> page_allocator \<Rightarrow> log_test \<Rightarrow> log_test result option"
where
  "huawei_log_page_test_4_exit K A t =
     then_say (Goodbye ''huawei_log_page_test_4_exit'') (huawei_log_page_test_4_free K A Page4 4 t)"

section \<open>The allocator with the probes\<close>

text \<open>
  The documented behaviour of the kernel under the probes of theory Log_Page. The kretprobe runs
  its entry handler before the allocator and its return handler, with the allocator's answer
  \<open>given\<close>, after it, and recycles the instance. A single page goes back through
  \<open>free_hot_cold_page\<close>, which is called with \<open>cold = 0\<close>; the page's use count is read first, through
  the null pointer if the page is null.
\<close>

definition probed :: "kernel \<Rightarrow> page_allocator \<Rightarrow> u64 list \<Rightarrow> nat \<Rightarrow> page_ptr \<Rightarrow> bool" where
  "probed K A frames ri given \<longleftrightarrow>
     (\<forall>order s. alloc_pages A order s =
        bind_result (alloc_pages_nodemask_entry_handler K frames ri (ucast order) s) (\<lambda>s.
        bind_result (alloc_pages_nodemask_ret_handler K ri given s) (\<lambda>s.
          Inr (given, s\<lparr>ri_data := (ri_data s)(ri := None)\<rparr>)))) \<and>
     (\<forall>page s. u_free_page A page s =
        (if page = 0 then Some (Inl NullDeref) else jfree_hot_cold_page K page 0 s))"

end
