(* ===== verification/Log_Test_Props.thy ===== *)
theory Log_Test_Props
  imports Log_Test Log_Demo
begin

text \<open>
  The test chain of the page log, mem_leak/kerspace/huawei_log_page_test_1.c to
  huawei_log_page_test_4.c, run with the log: what the log knows after loading and after unloading it.
\<close>

section \<open>The pieces\<close>

lemma owner_instances [simp]: "owner (s\<lparr>ri_data := d\<rparr>) = owner s"
  by (simp add: owner_def fun_eq_iff)

lemma log_inv_instances [simp]: "log_inv held (s\<lparr>ri_data := d\<rparr>) \<longleftrightarrow> log_inv held s"
  by (simp add: log_inv_def log_wf_def)

lemma owner_console [simp]: "owner (s\<lparr>console := c\<rparr>) = owner s"
  by (simp add: owner_def fun_eq_iff)

lemma print_page_same [simp]:
  "owner (print_page K page s) = owner s" "log_inv held (print_page K page s) \<longleftrightarrow> log_inv held s"
  "lp_root (print_page K page s) = lp_root s" "pl_pools (print_page K page s) = pl_pools s"
  by (simp_all add: print_page_def printk_def owner_def fun_eq_iff log_inv_def log_wf_def)

lemma print_page_untracked:
  assumes "log_inv held s" and "owner s page = None"
  shows "print_page K page s = s\<lparr>console := console s @ [Untracked]\<rparr>"
proof -
  have "log_wf held s" using assms(1) by (simp add: log_inv_def)
  from tree.owner_look [OF log_wfD(1) [OF this], of page] assms(2)
  have "find_lp (records s) page (lp_root s) = None" by (simp add: owner_def)
  then show ?thesis by (simp add: print_page_def printk_def print_log_page_def)
qed

text \<open>The log of the test, seen through its printing.\<close>

lemma say_simps [simp]:
  "t_log (say ls t) = t_log t" "page_vars (say ls t) = page_vars t" "messages (say ls t) = messages t @ ls"
  by (simp_all add: say_def)

lemma say_page_simps [simp]:
  "t_log (say_page K page t) = print_page K page (t_log t)" "page_vars (say_page K page t) = page_vars t"
  by (simp_all add: say_page_def Let_def)

lemma test_4_init_eq:
  assumes "alloc_pages A 4 (t_log t) = Inr (page, s)"
  shows "\<exists>t'. huawei_log_page_test_4_init K A t = Inr (0, t') \<and> t_log t' = print_page K page s \<and>
    page_vars t' Page4 = page"
  using assms by (simp add: huawei_log_page_test_4_init_def huawei_log_page_test_4_alloc_def
      huawei_log_page_test_3_alloc_def huawei_log_page_test_2_alloc_def page_busy_test_def Let_def)

lemma test_4_exit_eq:
  "huawei_log_page_test_4_exit K A t = map_option (map_sum id (\<lambda>s.
     say [Goodbye ''page_busy_test_exit'', Goodbye ''huawei_log_page_test_2_free'',
          Goodbye ''huawei_log_page_test_3_free'', Goodbye ''huawei_log_page_test_4_free'',
          Goodbye ''huawei_log_page_test_4_exit'']
       (say_page K (page_vars t Page4) (say [Freed (page_vars t Page4) 4] (t\<lparr>t_log := s\<rparr>)))))
     (u_free_page A (page_vars t Page4) (t_log t))"
proof (cases "u_free_page A (page_vars t Page4) (t_log t)")
  case (Some r)
  then show ?thesis
    by (cases r) (simp_all add: huawei_log_page_test_4_exit_def huawei_log_page_test_4_free_def
        huawei_log_page_test_3_free_def huawei_log_page_test_2_free_def page_busy_test_exit_def
        then_say_def Let_def say_def)
qed (simp add: huawei_log_page_test_4_exit_def huawei_log_page_test_4_free_def
    huawei_log_page_test_3_free_def huawei_log_page_test_2_free_def page_busy_test_exit_def then_say_def)

text \<open>When the allocator refuses, loading still succeeds, and unloading follows the null pointer.\<close>

lemma test_4_refused:
  assumes "log_inv held (t_log t)" and "pool_left (t_log t)" and "probed K A frames ri 0"
  shows "\<exists>t1. huawei_log_page_test_4_init K A t = Inr (0, t1) \<and> owner (t_log t1) = owner (t_log t) \<and>
    huawei_log_page_test_4_exit K A t1 = Some (Inl NullDeref)"
proof -
  let ?si = "ucast (4 :: u32) :: u64"
  from entry_handler_log [OF assms(1,2), of K frames ri ?si] obtain lp s1 where
    s1: "alloc_pages_nodemask_entry_handler K frames ri ?si (t_log t) = Inr s1"
      "log_inv (lp # held) s1" "ri_data s1 ri = Some lp" "owner s1 = owner (t_log t)" by auto
  from ret_handler_null [OF s1(2) _ s1(3), of K] obtain s2 where
    s2: "alloc_pages_nodemask_ret_handler K ri 0 s1 = Inr s2" "owner s2 = owner s1" by auto
  from s1(1) s2(1) have "alloc_pages A 4 (t_log t) = Inr (0, s2\<lparr>ri_data := (ri_data s2)(ri := None)\<rparr>)"
    using assms(3) by (simp add: probed_def)
  with test_4_init_eq [of A t 0] obtain t1 where t1: "huawei_log_page_test_4_init K A t = Inr (0, t1)"
    "t_log t1 = print_page K 0 (s2\<lparr>ri_data := (ri_data s2)(ri := None)\<rparr>)" "page_vars t1 Page4 = 0" by metis
  have "huawei_log_page_test_4_exit K A t1 = Some (Inl NullDeref)"
    using assms(3) t1(3) by (simp add: test_4_exit_eq probed_def)
  with t1 s1(4) s2(2) show ?thesis by auto
qed

section \<open>The property\<close>

text \<open>C17: On a log in order, with an allocator under the probes that grants sixteen pages nobody owns,
  loading test module 4 makes the caller's trace and modules the owner of exactly these pages.
  Unloading gives back only the first of them: fifteen pages stay owned, while the query the test
  ends with, for the first page, prints that it is untracked.\<close>

theorem test_chain_leaks:
  assumes "rb_laws (k_rb K)" and "log_inv held (t_log t)" and "pool_left (t_log t)"
    and "probed K A frames ri given" and "given \<noteq> 0"
    and "\<forall>p\<in>block given 4. owner (t_log t) p = None"
  shows "\<exists>t1 t2. huawei_log_page_test_4_init K A t = Inr (0, t1) \<and>
    owner (t_log t1) = (\<lambda>p. if p \<in> {given..<given + 16} then Some (trace_info K frames) else owner (t_log t) p) \<and>
    huawei_log_page_test_4_exit K A t1 = Some (Inr t2) \<and>
    owner (t_log t2) = (\<lambda>p. if p \<in> {given + 1..<given + 16} then Some (trace_info K frames) else owner (t_log t) p) \<and>
    messages t2 = messages t1 @ [Freed given 4, LogLine Untracked, Goodbye ''page_busy_test_exit'',
      Goodbye ''huawei_log_page_test_2_free'', Goodbye ''huawei_log_page_test_3_free'',
      Goodbye ''huawei_log_page_test_4_free'', Goodbye ''huawei_log_page_test_4_exit'']"
proof -
  let ?si = "ucast (4 :: u32) :: u64"
  have si: "(ucast ?si :: u32) = 4" by simp
  have free: "\<forall>p\<in>block given (ucast ?si). owner (t_log t) p = None" using assms(6) by simp
  from allocation_recorded [OF assms(1-3,5) _ free, of frames ri] obtain lp s1 s2 where
    s: "alloc_pages_nodemask_entry_handler K frames ri ?si (t_log t) = Inr s1"
      "alloc_pages_nodemask_ret_handler K ri given s1 = Inr s2" "log_inv held s2" and
    lp: "lp \<in> set_tree (lp_root s2)" "start_page (records s2 lp) = given"
      "end_page (records s2 lp) = page_end given 4" and
    o2: "owner s2 = (\<lambda>p. if p \<in> block given 4 then Some (trace_info K frames) else owner (t_log t) p)"
    by auto
  let ?s = "s2\<lparr>ri_data := (ri_data s2)(ri := None)\<rparr>"
  have "alloc_pages A 4 (t_log t) = Inr (given, ?s)" using assms(4) s(1,2) by (simp add: probed_def)
  with test_4_init_eq [of A t given ?s] obtain t1 where t1: "huawei_log_page_test_4_init K A t = Inr (0, t1)"
    "t_log t1 = print_page K given ?s" "page_vars t1 Page4 = given" by metis
  have inv: "log_inv held (t_log t1)" using s(3) t1(2) by simp
  have "\<not> inside_one (t_log t1) given (page_end given 0)"
    by (rule start_not_inside [OF inv, of lp]) (simp_all add: t1(2) lp page_end_eq)
  with free_block_owner [OF assms(1) inv, of given "page_end given 0"] obtain s3 where
    s3: "jfree_hot_cold_page K given 0 (t_log t1) = Some (Inr s3)" "log_inv held s3"
      "\<forall>p. owner s3 p = (if given \<le> p \<and> p < page_end given 0 then None else owner (t_log t1) p)"
    by (auto simp: jfree_hot_cold_page_def log_page_free_def do_log_page_free_def page_end_eq)
  have o1: "owner (t_log t1) =
      (\<lambda>p. if p \<in> {given..<given + 16} then Some (trace_info K frames) else owner (t_log t) p)"
    by (simp add: t1(2) o2 block_def)
  have o3: "owner s3 = (\<lambda>p. if p \<in> {given + 1..<given + 16} then Some (trace_info K frames) else owner (t_log t) p)"
    using s3(3) assms(6) by (auto simp: o1 page_end_eq block_def fun_eq_iff)
  have "print_page K given s3 = s3\<lparr>console := console s3 @ [Untracked]\<rparr>"
    by (rule print_page_untracked [OF s3(2)]) (simp add: s3(3) page_end_eq)
  with t1(1) o1 o3 s3(1) assms(4,5) t1(3) show ?thesis
    by (simp add: test_4_exit_eq probed_def say_page_def)
qed

text \<open>A test on the demonstration log, with an allocator that grants the sixteen pages from 9 on.\<close>

definition demo_allocator :: page_allocator where
  "demo_allocator = \<lparr>alloc_pages = (\<lambda>order s.
       bind_result (alloc_pages_nodemask_entry_handler demo_K [1, 2] 0 (ucast order) s) (\<lambda>s.
       bind_result (alloc_pages_nodemask_ret_handler demo_K 0 9 s) (\<lambda>s.
         Inr (9, s\<lparr>ri_data := (ri_data s)(0 := None)\<rparr>)))),
     u_free_page = (\<lambda>page s. if page = 0 then Some (Inl NullDeref) else jfree_hot_cold_page demo_K page 0 s)\<rparr>"

definition demo_test :: log_test where
  "demo_test = \<lparr>t_log = demo_log, addr_of_page = 0, page_vars = (\<lambda>_. 0), messages = []\<rparr>"

theorem test_chain_leaks_witness:
  "\<exists>t1 t2. huawei_log_page_test_4_init demo_K demo_allocator demo_test = Inr (0, t1) \<and>
     huawei_log_page_test_4_exit demo_K demo_allocator t1 = Some (Inr t2) \<and>
     owner (t_log t2) 9 = None \<and> owner (t_log t2) 10 \<noteq> None \<and> owner (t_log t2) 24 \<noteq> None"
proof -
  have "probed demo_K demo_allocator [1, 2] 0 9" by (simp add: probed_def demo_allocator_def)
  moreover have "\<forall>p\<in>block 9 4. owner (t_log demo_test) p = None"
    by (auto simp: demo_test_def demo_log_owner block_def)
  ultimately show ?thesis
    using test_chain_leaks [of demo_K "[]" demo_test demo_allocator "[1, 2]" 0 9]
    by (auto simp: demo_test_def demo_log_owner)
qed

end
