(* ===== verification/Kernel_Heap.thy ===== *)
theory Kernel_Heap
  imports Prelude
begin

text \<open>
  The kernel's allocators as the two overflow checkers see them (mem_overflow/code and
  mem_overflow_del_firstiso/code). What an allocator answers is a parameter, a function of the
  calls made so far; the state keeps the log of these calls, the bytes of memory and the texts
  written by \<open>sprint_symbol\<close>. A call the documentation of an allocator forbids, and an access
  outside the blocks that are out, is a fault.
\<close>

section \<open>Calls into the allocators\<close>

type_synonym gfp_t = u32

datatype request =
    Kmalloc u64 gfp_t
  | Vmalloc u64
  | DmaAllocCoherent u64 gfp_t
  | GetFreePages gfp_t u32
  | AllocPagesExact u64 gfp_t

datatype release =
    Kfree
  | Vfree
  | DmaFreeCoherent u64 u64
  | FreePages u32
  | FreePagesExact u64

datatype kcall = Got request u64 | Gave release u64

definition PAGE_SIZE :: u64 where "PAGE_SIZE = 4096"

text \<open>The bytes a block has, and which call gives it back.\<close>

fun extent :: "request \<Rightarrow> nat" where
  "extent (Kmalloc n _) = unat n"
| "extent (Vmalloc n) = unat n"
| "extent (DmaAllocCoherent n _) = unat n"
| "extent (GetFreePages _ order) = 2 ^ unat order * unat PAGE_SIZE"
| "extent (AllocPagesExact n _) = unat n"

fun releases :: "release \<Rightarrow> request \<Rightarrow> bool" where
  "releases Kfree r = (case r of Kmalloc _ _ \<Rightarrow> True | _ \<Rightarrow> False)"
| "releases Vfree r = (case r of Vmalloc _ \<Rightarrow> True | _ \<Rightarrow> False)"
| "releases (DmaFreeCoherent n _) r = (case r of DmaAllocCoherent m _ \<Rightarrow> n = m | _ \<Rightarrow> False)"
| "releases (FreePages order) r = (case r of GetFreePages _ o' \<Rightarrow> order = o' | _ \<Rightarrow> False)"
| "releases (FreePagesExact n) r = (case r of AllocPagesExact m _ \<Rightarrow> n = m | _ \<Rightarrow> False)"

text \<open>The blocks that are out, newest first.\<close>

fun live :: "kcall list \<Rightarrow> (u64 \<times> request) list" where
  "live [] = []"
| "live (Got r p # cs) = (if p = 0 then live cs else (p, r) # live cs)"
| "live (Gave _ p # cs) = filter (\<lambda>(b, _). b \<noteq> p) (live cs)"

record heap_env =
  answer :: "kcall list \<Rightarrow> request \<Rightarrow> u64"
  handle_after :: "kcall list \<Rightarrow> u64"
  symbol_of :: "u64 \<Rightarrow> string"
  GFP_KERNEL :: gfp_t
  GFP_DMA :: gfp_t

record heap =
  calls :: "kcall list"
  bytes :: "u64 \<Rightarrow> u8"
  texts :: "u64 \<Rightarrow> string"

definition ask :: "heap_env \<Rightarrow> request \<Rightarrow> heap \<Rightarrow> u64 \<times> heap" where
  "ask K r h = (let p = answer K (calls h) r in (p, h\<lparr>calls := Got r p # calls h\<rparr>))"

definition kmalloc :: "heap_env \<Rightarrow> u64 \<Rightarrow> gfp_t \<Rightarrow> heap \<Rightarrow> u64 \<times> heap" where
  "kmalloc K n flags h = ask K (Kmalloc n flags) h"

text \<open>\<open>kfree\<close> and \<open>vfree\<close> of the null pointer do nothing.\<close>

definition give :: "release \<Rightarrow> u64 \<Rightarrow> heap \<Rightarrow> heap result" where
  "give q p h =
     (if p = 0 \<and> (q = Kfree \<or> q = Vfree) then Inr h
      else if list_ex (\<lambda>(b, r). b = p \<and> releases q r) (live (calls h))
      then Inr (h\<lparr>calls := Gave q p # calls h\<rparr>)
      else Inl UseAfterFree)"

section \<open>Access to memory\<close>

text \<open>The \<open>n\<close> bytes at \<open>p\<close> lie in one block that is out.\<close>

definition in_live :: "heap \<Rightarrow> u64 \<Rightarrow> nat \<Rightarrow> bool" where
  "in_live h p n \<longleftrightarrow>
     list_ex (\<lambda>(b, r). unat b \<le> unat p \<and> unat p + n \<le> unat b + extent r) (live (calls h))"

definition poke :: "u64 \<Rightarrow> u8 \<Rightarrow> heap \<Rightarrow> heap result" where
  "poke p b h = (if in_live h p 1 then Inr (h\<lparr>bytes := (bytes h)(p := b)\<rparr>) else Inl OutOfBounds)"

definition sprint_symbol :: "heap_env \<Rightarrow> u64 \<Rightarrow> u64 \<Rightarrow> heap \<Rightarrow> heap result" where
  "sprint_symbol K buffer address h =
     (let t = symbol_of K address in
      if in_live h buffer (length t + 1) then Inr (h\<lparr>texts := (texts h)(buffer := t)\<rparr>)
      else Inl OutOfBounds)"

section \<open>What the allocators promise\<close>

definition apart :: "u64 \<times> request \<Rightarrow> u64 \<times> request \<Rightarrow> bool" where
  "apart x y \<longleftrightarrow>
     unat (fst x) + extent (snd x) \<le> unat (fst y) \<or> unat (fst y) + extent (snd y) \<le> unat (fst x)"

definition sound_block :: "u64 \<times> request \<Rightarrow> bool" where
  "sound_block x \<longleftrightarrow> fst x \<noteq> 0 \<and> 0 < extent (snd x) \<and> unat (fst x) + extent (snd x) < 2 ^ 64"

text \<open>
  Documented behaviour of the allocators: a block of at least one byte lies inside the address
  space and overlaps no block that is out.
\<close>

definition heap_laws :: "heap_env \<Rightarrow> bool" where
  "heap_laws K \<longleftrightarrow> (\<forall>cs r. answer K cs r \<noteq> 0 \<longrightarrow> 0 < extent r \<longrightarrow>
     unat (answer K cs r) + extent r < 2 ^ 64 \<and>
     (\<forall>x\<in>set (live cs). apart (answer K cs r, r) x))"

definition heap_ok :: "heap \<Rightarrow> bool" where
  "heap_ok h \<longleftrightarrow> (\<forall>x\<in>set (live (calls h)). sound_block x) \<and> sorted_wrt apart (live (calls h))"

lemma ask_eq: "ask K r h = (p, h') \<longleftrightarrow>
    p = answer K (calls h) r \<and> h' = h\<lparr>calls := Got r (answer K (calls h) r) # calls h\<rparr>"
  by (auto simp: ask_def Let_def)

lemma ask_simps [simp]:
  "ask K r h = (p, h') \<Longrightarrow> bytes h' = bytes h"
  "ask K r h = (p, h') \<Longrightarrow> texts h' = texts h"
  by (auto simp: ask_eq)

lemma ask_live:
  "ask K r h = (p, h') \<Longrightarrow> live (calls h') = (if p = 0 then live (calls h) else (p, r) # live (calls h))"
  by (auto simp: ask_eq)

lemma ask_ok:
  assumes "heap_laws K" and "heap_ok h" and "ask K r h = (p, h')" and "0 < extent r"
  shows "heap_ok h'"
proof -
  have "sound_block (p, r) \<and> (\<forall>x\<in>set (live (calls h)). apart (p, r) x)" if "p \<noteq> 0"
    using assms(1,3,4) that by (auto simp: heap_laws_def sound_block_def ask_eq)
  with assms(2) show ?thesis by (auto simp: heap_ok_def ask_live [OF assms(3)])
qed

lemma apart_addr: "sound_block x \<Longrightarrow> sound_block y \<Longrightarrow> apart x y \<Longrightarrow> fst x \<noteq> fst y"
  by (auto simp: apart_def sound_block_def)

lemma apart_sym: "apart x y \<Longrightarrow> apart y x"
  by (auto simp: apart_def)

lemma sorted_wrt_apart:
  "sorted_wrt apart xs \<Longrightarrow> x \<in> set xs \<Longrightarrow> y \<in> set xs \<Longrightarrow> x \<noteq> y \<Longrightarrow> apart x y"
  by (induction xs) (auto intro: apart_sym)

lemma live_apart:
  "heap_ok h \<Longrightarrow> x \<in> set (live (calls h)) \<Longrightarrow> y \<in> set (live (calls h)) \<Longrightarrow> x \<noteq> y \<Longrightarrow> apart x y"
  by (auto simp: heap_ok_def intro: sorted_wrt_apart)

lemma live_sound: "heap_ok h \<Longrightarrow> x \<in> set (live (calls h)) \<Longrightarrow> sound_block x"
  by (simp add: heap_ok_def)

text \<open>Two blocks that share a byte are the same.\<close>

lemma live_same:
  assumes "heap_ok h" and "x \<in> set (live (calls h))" and "y \<in> set (live (calls h))"
    and "unat (fst x) \<le> a" and "a < unat (fst x) + extent (snd x)"
    and "unat (fst y) \<le> a" and "a < unat (fst y) + extent (snd y)"
  shows "x = y"
  using live_apart [OF assms(1-3)] assms(4-7) by (auto simp: apart_def)

lemma live_addr:
  assumes "heap_ok h" and "(p, r) \<in> set (live (calls h))" and "(p, r') \<in> set (live (calls h))"
  shows "r = r'"
  using live_apart [OF assms] live_sound [OF assms(1,2)] live_sound [OF assms(1,3)] apart_addr by fastforce

lemma give_ok: "heap_ok h \<Longrightarrow> give q p h = Inr h' \<Longrightarrow> heap_ok h'"
  by (auto simp: give_def heap_ok_def sorted_wrt_filter split: if_splits)

lemma give_live:
  assumes "(p, r) \<in> set (live (calls h))" and "p \<noteq> 0" and "releases q r"
  shows "give q p h = Inr (h\<lparr>calls := Gave q p # calls h\<rparr>)"
  using assms by (auto simp: give_def list_ex_iff)

lemma give_dead:
  assumes "\<And>r. (p, r) \<notin> set (live (calls h))" and "p \<noteq> 0"
  shows "give q p h = Inl UseAfterFree"
  using assms by (auto simp: give_def list_ex_iff)

lemma in_liveI:
  "(b, r) \<in> set (live (calls h)) \<Longrightarrow> unat b \<le> unat p \<Longrightarrow> unat p + n \<le> unat b + extent r \<Longrightarrow> in_live h p n"
  by (auto simp: in_live_def list_ex_iff)

lemma in_live_calls [simp]:
  "in_live (h\<lparr>bytes := x\<rparr>) p n = in_live h p n"
  "in_live (h\<lparr>texts := y\<rparr>) p n = in_live h p n"
  by (simp_all add: in_live_def)

lemma in_live_iff: "in_live h p n \<longleftrightarrow> (\<exists>b r. (b, r) \<in> set (live (calls h)) \<and>
    unat b \<le> unat p \<and> unat p + n \<le> unat b + extent r)"
  by (auto simp: in_live_def list_ex_iff)

lemma in_live_mono: "in_live h p n \<Longrightarrow> m \<le> n \<Longrightarrow> in_live h p m"
  unfolding in_live_iff by (meson add_left_mono le_trans)

lemma in_live_step:
  assumes "in_live h p (Suc n)" and "unat p + Suc n < 2 ^ 64"
  shows "in_live h (p + 1) n"
proof -
  have "unat (p + 1) = unat p + 1" using assms(2) by (simp add: unat_plus_if')
  moreover from assms(1) obtain b r where "(b, r) \<in> set (live (calls h))"
    "unat b \<le> unat p" "unat p + Suc n \<le> unat b + extent r" by (auto simp: in_live_iff)
  ultimately show ?thesis by (intro in_liveI) auto
qed

lemma in_live_block: "(b, r) \<in> set (live (calls h)) \<Longrightarrow> n \<le> extent r \<Longrightarrow> in_live h b n"
  by (rule in_liveI) auto

lemma live_distinct:
  assumes "heap_ok h"
  shows "distinct (live (calls h))"
proof -
  have "distinct xs" if "sorted_wrt apart xs" "\<forall>x\<in>set xs. sound_block x" for xs
    using that by (induction xs) (auto simp: apart_def sound_block_def)
  with assms show ?thesis by (simp add: heap_ok_def)
qed

definition nameable :: "heap_env \<Rightarrow> u64 \<Rightarrow> bool" where
  "nameable K ra \<longleftrightarrow> ra \<noteq> 0 \<and> length (symbol_of K ra) < 200"


text \<open>Removing blocks by their address removes exactly these blocks.\<close>

lemma live_without:
  assumes "heap_ok h" and "set [x, y, z] \<subseteq> set (live (calls h))"
  shows "filter (\<lambda>(b, _). b \<noteq> fst z) (filter (\<lambda>(b, _). b \<noteq> fst x) (filter (\<lambda>(b, _). b \<noteq> fst y)
      (live (calls h)))) = filter (\<lambda>b. b \<notin> set [x, y, z]) (live (calls h))"
proof -
  have same: "fst u = fst v \<longleftrightarrow> u = v" if "u \<in> set (live (calls h))" "v \<in> set (live (calls h))" for u v
    using live_apart [OF assms(1) that] live_sound [OF assms(1) that(1)] live_sound [OF assms(1) that(2)]
      apart_addr by blast
  have "(fst b \<noteq> fst y \<and> fst b \<noteq> fst x \<and> fst b \<noteq> fst z) = (b \<notin> set [x, y, z])"
    if "b \<in> set (live (calls h))" for b
    using assms(2) same [OF that] by auto
  then show ?thesis by (auto simp: filter_filter case_prod_beta intro!: filter_cong)
qed

end
