(* ===== verification/Guard_Zone.thy ===== *)
theory Guard_Zone
  imports Kernel_Heap
begin

text \<open>
  What the two overflow checkers share (mem_overflow/code/mem_overflow_check.c, and the same
  text in mem_overflow_del_firstiso/code): the structure that describes a guard zone, the
  global list of zones, filling a zone, the search for a zone, the scan of all zones by the
  kernel thread and through /proc. The structures lie in memory from \<open>kmalloc\<close>: reading or
  linking one that was freed is a fault.
\<close>

section \<open>Zones and the global list\<close>

text \<open>\<open>struct iso_zone\<close> without the link, which is the position in \<open>iso_head\<close>.\<close>

record iso_zone =
  callerinfo :: u64
  iso_size :: u32
  addr :: u64
  flag :: bool

datatype message =
    AllocationFailed
  | HandleFailed
  | BufferFailed
  | StructFailed
  | MemoryOverflow string

record 'z guard =
  kheap :: heap
  zones :: "u64 \<Rightarrow> 'z"
  iso_head :: "u64 list"
  messages :: "message list"

definition say :: "message \<Rightarrow> 'z guard \<Rightarrow> 'z guard" where
  "say m s = s\<lparr>messages := messages s @ [m]\<rparr>"

text \<open>\<open>n\<close> is the size of the structure: the zone at \<open>p\<close> may be dereferenced.\<close>

definition node_live :: "nat \<Rightarrow> 'z guard \<Rightarrow> u64 \<Rightarrow> bool" where
  "node_live n s p = in_live (kheap s) p n"

text \<open>Inserting after the head writes the back link of the node that was first.\<close>

definition list_add :: "nat \<Rightarrow> u64 \<Rightarrow> 'z guard \<Rightarrow> 'z guard result" where
  "list_add n p s =
     (case iso_head s of
        [] \<Rightarrow> Inr (s\<lparr>iso_head := [p]\<rparr>)
      | q # qs \<Rightarrow> if node_live n s q then Inr (s\<lparr>iso_head := p # q # qs\<rparr>) else Inl UseAfterFree)"

text \<open>Unlinking a node writes to the nodes before and after it; \<open>prev\<close> is \<open>None\<close> for the head.\<close>

fun unlink :: "(u64 \<Rightarrow> bool) \<Rightarrow> u64 option \<Rightarrow> u64 \<Rightarrow> u64 list \<Rightarrow> u64 list result" where
  "unlink ok prev p [] = Inl ListCorrupt"
| "unlink ok prev p (q # qs) =
     (if q = p
      then (if (case prev of None \<Rightarrow> True | Some r \<Rightarrow> ok r) \<and> (case qs of [] \<Rightarrow> True | r # _ \<Rightarrow> ok r)
            then Inr qs else Inl UseAfterFree)
      else bind_result (unlink ok (Some q) p qs) (\<lambda>qs'. Inr (q # qs')))"

definition list_del :: "nat \<Rightarrow> u64 \<Rightarrow> 'z guard \<Rightarrow> 'z guard result" where
  "list_del n p s =
     bind_result (unlink (node_live n s) None p (iso_head s)) (\<lambda>ps. Inr (s\<lparr>iso_head := ps\<rparr>))"

text \<open>
  The loop over the list that looks for a zone: the last node visited (\<open>temp\<close>, 0 for NULL) and,
  when the loop left by its \<open>break\<close>, \<open>pos->prev\<close> (\<open>None\<close> for the list head).
\<close>

fun search_zone :: "(u64 \<Rightarrow> bool) \<Rightarrow> (u64 \<Rightarrow> bool) \<Rightarrow> u64 option \<Rightarrow> u64 \<Rightarrow> u64 list \<Rightarrow>
    (u64 \<times> u64 option option) result" where
  "search_zone ok hit prev temp [] = Inr (temp, None)"
| "search_zone ok hit prev temp (pos # rest) =
     (if \<not> ok pos then Inl UseAfterFree
      else if hit pos then Inr (pos, Some prev)
      else search_zone ok hit (Some pos) pos rest)"

text \<open>\<open>kfree(temp->callerinfo); kfree(temp);\<close>\<close>

definition free_temp :: "nat \<Rightarrow> u64 \<Rightarrow> ('z iso_zone_scheme) guard \<Rightarrow> ('z iso_zone_scheme) guard result" where
  "free_temp n temp s =
     (if temp = 0 then Inl NullDeref
      else if \<not> node_live n s temp then Inl UseAfterFree
      else bind_result (give Kfree (callerinfo (zones s temp)) (kheap s)) (\<lambda>h.
           bind_result (give Kfree temp h) (\<lambda>h. Inr (s\<lparr>kheap := h\<rparr>))))"

definition release :: "release \<Rightarrow> u64 \<Rightarrow> 'z guard \<Rightarrow> 'z guard result" where
  "release q p s = bind_result (give q p (kheap s)) (\<lambda>h. Inr (s\<lparr>kheap := h\<rparr>))"

section \<open>Filling\<close>

text \<open>The letter a.\<close>

definition guard_byte :: u8 where "guard_byte = 97"

fun fill_zone :: "u64 \<Rightarrow> nat \<Rightarrow> heap \<Rightarrow> heap result" where
  "fill_zone p 0 h = Inr h"
| "fill_zone p (Suc n) h = bind_result (poke p guard_byte h) (fill_zone (p + 1) n)"

text \<open>The loop that fills both zones, a byte of each per round.\<close>

fun fill_zones :: "u64 \<Rightarrow> u64 \<Rightarrow> nat \<Rightarrow> heap \<Rightarrow> heap result" where
  "fill_zones p q 0 h = Inr h"
| "fill_zones p q (Suc n) h =
     bind_result (poke p guard_byte h) (\<lambda>h.
     bind_result (poke q guard_byte h) (fill_zones (p + 1) (q + 1) n))"

section \<open>Scanning\<close>

text \<open>
  \<open>while(iso_size--)\<close> over a 32-bit counter: whether a byte of the zone is not the guard byte.
\<close>

function scan_zone :: "heap \<Rightarrow> u64 \<Rightarrow> u32 \<Rightarrow> bool result" where
  "scan_zone h checkptr n =
     (if n = 0 then Inr False
      else if \<not> in_live h checkptr 1 then Inl UseAfterFree
      else if bytes h checkptr \<noteq> guard_byte then Inr True
      else scan_zone h (checkptr + 1) (n - 1))"
  by pat_completeness auto
termination by (relation "measure (\<lambda>(_, _, n). unat n)") (auto simp: measure_unat)

declare scan_zone.simps [simp del]

definition overflow_line :: "('z iso_zone_scheme) guard \<Rightarrow> u64 \<Rightarrow> string result" where
  "overflow_line s pos =
     (let b = callerinfo (zones s pos) in
      if in_live (kheap s) b 1 then Inr (texts (kheap s) b) else Inl UseAfterFree)"

text \<open>The body of the loop of \<open>check_iso\<close>, and the loop.\<close>

definition check_zone ::
  "nat \<Rightarrow> u64 \<Rightarrow> ('z iso_zone_scheme) guard \<Rightarrow> ('z iso_zone_scheme) guard result" where
  "check_zone n pos s =
     (if \<not> node_live n s pos then Inl UseAfterFree
      else if flag (zones s pos) then Inr s
      else bind_result (scan_zone (kheap s) (addr (zones s pos)) (iso_size (zones s pos))) (\<lambda>bad.
           if \<not> bad then Inr s
           else bind_result (overflow_line s pos) (\<lambda>line.
             Inr (say (MemoryOverflow line)
                   (s\<lparr>zones := (zones s)(pos := (zones s pos)\<lparr>flag := True\<rparr>)\<rparr>)))))"

fun check_zones ::
  "nat \<Rightarrow> u64 list \<Rightarrow> ('z iso_zone_scheme) guard \<Rightarrow> ('z iso_zone_scheme) guard result" where
  "check_zones n [] s = Inr s"
| "check_zones n (pos # rest) s = bind_result (check_zone n pos s) (check_zones n rest)"

text \<open>What \<open>/proc\<close> shows: a line per damaged zone, a newline per unflagged zone.\<close>

datatype seq_line = SeqOverflow string | SeqNewline

fun show_zones :: "nat \<Rightarrow> ('z iso_zone_scheme) guard \<Rightarrow> u64 list \<Rightarrow> seq_line list result" where
  "show_zones n s [] = Inr []"
| "show_zones n s (pos # rest) =
     (if \<not> node_live n s pos then Inl UseAfterFree
      else if flag (zones s pos) then show_zones n s rest
      else bind_result (scan_zone (kheap s) (addr (zones s pos)) (iso_size (zones s pos))) (\<lambda>bad.
           bind_result (if bad then bind_result (overflow_line s pos) (\<lambda>l. Inr [SeqOverflow l]) else Inr [])
             (\<lambda>ls. bind_result (show_zones n s rest) (\<lambda>ls'. Inr (ls @ [SeqNewline] @ ls')))))"

section \<open>Page orders and the module\<close>

text \<open>\<open>(1<<order)*PAGE_SIZE\<close>: the shift is done in 32-bit \<open>int\<close>, the product in 64 bits.\<close>

definition page_bytes :: "u32 \<Rightarrow> u64" where
  "page_bytes order = scast (push_bit (unat order) (1 :: u32)) * PAGE_SIZE"

text \<open>
  The module: the handle of the thread and whether the file under /proc exists.
  \<open>run\<close> is the answer of \<open>kthread_run\<close>, an error or a thread.
\<close>

record checker_module =
  checklist :: "u64 option"
  proc_file :: bool

end
