(* ===== verification/Guard_Two.thy ===== *)
theory Guard_Two
  imports Guard_Zone
begin

text \<open>
  The overflow checker with a guard zone on each side of every block,
  mem_overflow/code/mem_overflow_check.c: the wrapped allocation and release functions, the
  scan, the file under /proc and the module itself.
\<close>

abbreviation (input) ISOSIZE_KMALLOC :: u64 where "ISOSIZE_KMALLOC \<equiv> 20"
abbreviation (input) ISOSIZE_DMA :: u64 where "ISOSIZE_DMA \<equiv> 20"
abbreviation (input) ISOSIZE_VMALLOC :: u64 where "ISOSIZE_VMALLOC \<equiv> 20"
abbreviation (input) ISOSIZE_GFPS :: u64 where "ISOSIZE_GFPS \<equiv> 20"
abbreviation (input) ISOSIZE_PAGE :: u64 where "ISOSIZE_PAGE \<equiv> 20"

text \<open>\<open>sizeof(struct iso_zone)\<close> on a 64-bit machine.\<close>

definition sizeof_iso_zone :: u64 where "sizeof_iso_zone = 48"

type_synonym guard2 = "iso_zone guard"

section \<open>Registering and dropping a pair of zones\<close>

text \<open>
  What every allocation does once it has a block: fill both zones of \<open>n\<close> bytes, name the
  caller, make the two structures and insert them, the first before the second.
\<close>

definition guard_block ::
  "heap_env \<Rightarrow> u64 \<Rightarrow> u64 \<Rightarrow> u64 \<Rightarrow> u64 \<Rightarrow> u64 \<Rightarrow> guard2 \<Rightarrow> (u64 \<times> guard2) result"
where
  "guard_block K ret_addr n first_iso_addr second_iso_addr ret s =
     bind_result (fill_zones first_iso_addr second_iso_addr (unat n) (kheap s)) (\<lambda>h.
     let (buffer, h) = kmalloc K 200 (GFP_KERNEL K) h in
     if buffer = 0 \<or> ret_addr = 0 then Inr (0, say BufferFailed (s\<lparr>kheap := h\<rparr>))
     else bind_result (sprint_symbol K buffer ret_addr h) (\<lambda>h.
     let (a, h) = kmalloc K (2 * sizeof_iso_zone) (GFP_KERNEL K) h in
     if a = 0 then Inr (0, say StructFailed (s\<lparr>kheap := h\<rparr>))
     else
       let zone = (\<lambda>p. \<lparr>callerinfo = buffer, iso_size = ucast n, addr = p, flag = False\<rparr>);
           s = s\<lparr>kheap := h, zones := (zones s)
                 (a := zone first_iso_addr, a + sizeof_iso_zone := zone second_iso_addr)\<rparr> in
       bind_result (list_add (unat sizeof_iso_zone) a s) (\<lambda>s.
       bind_result (list_add (unat sizeof_iso_zone) (a + sizeof_iso_zone) s) (\<lambda>s. Inr (ret, s)))))"

text \<open>
  What every release does under the lock: find the zone that starts at \<open>iso1_addr\<close>, unlink it
  and the one before it.
\<close>

definition drop_zones :: "u64 \<Rightarrow> guard2 \<Rightarrow> (u64 \<times> guard2) result" where
  "drop_zones iso1_addr s =
     bind_result (search_zone (node_live (unat sizeof_iso_zone) s) (\<lambda>p. iso1_addr = addr (zones s p))
                    None 0 (iso_head s)) (\<lambda>(temp, found).
       case found of
         None \<Rightarrow> Inr (temp, s)
       | Some second_iso_pos \<Rightarrow>
           bind_result (list_del (unat sizeof_iso_zone) temp s) (\<lambda>s.
           case second_iso_pos of
             None \<Rightarrow> Inl ListCorrupt
           | Some p \<Rightarrow> bind_result (list_del (unat sizeof_iso_zone) p s) (\<lambda>s. Inr (temp, s))))"

text \<open>The release itself: drop the zones, free the text and the structures, give the block back.\<close>

definition unguard_block :: "u64 \<Rightarrow> release \<Rightarrow> guard2 \<Rightarrow> guard2 result" where
  "unguard_block iso1_addr q s =
     bind_result (drop_zones iso1_addr s) (\<lambda>(temp, s).
     bind_result (free_temp (unat sizeof_iso_zone) temp s) (\<lambda>s.
     release q iso1_addr s))"

section \<open>kmalloc and vmalloc\<close>

definition skmalloc :: "heap_env \<Rightarrow> u64 \<Rightarrow> u64 \<Rightarrow> gfp_t \<Rightarrow> guard2 \<Rightarrow> (u64 \<times> guard2) result" where
  "skmalloc K ret_addr n flags s =
     (let (temp_ptr, h) = kmalloc K (n + 2 * ISOSIZE_KMALLOC) flags (kheap s);
          s = s\<lparr>kheap := h\<rparr> in
      if temp_ptr \<noteq> 0
      then guard_block K ret_addr ISOSIZE_KMALLOC temp_ptr (temp_ptr + ISOSIZE_KMALLOC + n)
             (temp_ptr + ISOSIZE_KMALLOC) s
      else Inr (0, say AllocationFailed s))"

definition skfree :: "u64 \<Rightarrow> guard2 \<Rightarrow> guard2 result" where
  "skfree objp s = (if objp = 0 then Inr s else unguard_block (objp - ISOSIZE_KMALLOC) Kfree s)"

definition svmalloc :: "heap_env \<Rightarrow> u64 \<Rightarrow> u64 \<Rightarrow> guard2 \<Rightarrow> (u64 \<times> guard2) result" where
  "svmalloc K ret_addr n s =
     (let (temp_addr, h) = ask K (Vmalloc (n + 2 * ISOSIZE_VMALLOC)) (kheap s);
          s = s\<lparr>kheap := h\<rparr> in
      if temp_addr \<noteq> 0
      then guard_block K ret_addr ISOSIZE_VMALLOC temp_addr (temp_addr + ISOSIZE_VMALLOC + n)
             (temp_addr + ISOSIZE_VMALLOC) s
      else Inr (0, say AllocationFailed s))"

definition svfree :: "u64 \<Rightarrow> guard2 \<Rightarrow> guard2 result" where
  "svfree p s = (if p = 0 then Inr s else unguard_block (p - ISOSIZE_VMALLOC) Vfree s)"

section \<open>DMA\<close>

text \<open>
  The bus address goes through a block of its own. The second component is what the call
  stored through \<open>dma_handle\<close>, \<open>None\<close> where it stored nothing.
\<close>

definition sdma_alloc_coherent ::
  "heap_env \<Rightarrow> u64 \<Rightarrow> u64 \<Rightarrow> gfp_t \<Rightarrow> guard2 \<Rightarrow> ((u64 \<times> u64 option) \<times> guard2) result"
where
  "sdma_alloc_coherent K ret_addr n gfp_flags s =
     (let (dma_handle_temp, h) = kmalloc K 8 (GFP_KERNEL K) (kheap s);
          s = s\<lparr>kheap := h\<rparr> in
      if dma_handle_temp = 0 then Inr ((0, None), say HandleFailed s)
      else let (temp_addr, h) = ask K (DmaAllocCoherent (n + 2 * ISOSIZE_DMA) gfp_flags) (kheap s);
               s = s\<lparr>kheap := h\<rparr>;
               handle = handle_after K (calls h) + ISOSIZE_DMA in
      if temp_addr \<noteq> 0
      then bind_result (guard_block K ret_addr ISOSIZE_DMA temp_addr (temp_addr + ISOSIZE_DMA + n)
             (temp_addr + ISOSIZE_DMA) s) (\<lambda>(ret, s). Inr ((ret, Some handle), s))
      else Inr ((0, Some handle), say AllocationFailed s))"

definition sdma_free_coherent :: "u64 \<Rightarrow> u64 \<Rightarrow> u64 \<Rightarrow> guard2 \<Rightarrow> guard2 result" where
  "sdma_free_coherent n vaddr bus s =
     (if vaddr = 0 then Inr s
      else unguard_block (vaddr - ISOSIZE_DMA)
             (DmaFreeCoherent (n + 2 * ISOSIZE_DMA) (bus - ISOSIZE_DMA)) s)"

section \<open>Pages\<close>

definition sget_free_pages :: "heap_env \<Rightarrow> u64 \<Rightarrow> gfp_t \<Rightarrow> u32 \<Rightarrow> guard2 \<Rightarrow> (u64 \<times> guard2) result" where
  "sget_free_pages K ret_addr gfp_mask order s =
     (let sorder = order + 1;
          half_need = page_bytes order div 2;
          (temp_addr, h) = ask K (GetFreePages gfp_mask sorder) (kheap s);
          s = s\<lparr>kheap := h\<rparr> in
      if temp_addr \<noteq> 0
      then guard_block K ret_addr half_need temp_addr (temp_addr + page_bytes order + half_need)
             (temp_addr + half_need) s
      else Inr (0, say AllocationFailed s))"

definition sget_free_page :: "heap_env \<Rightarrow> u64 \<Rightarrow> gfp_t \<Rightarrow> guard2 \<Rightarrow> (u64 \<times> guard2) result" where
  "sget_free_page K ret_addr gfp_mask s = sget_free_pages K ret_addr gfp_mask 0 s"

definition sget_dma_pages :: "heap_env \<Rightarrow> u64 \<Rightarrow> gfp_t \<Rightarrow> u32 \<Rightarrow> guard2 \<Rightarrow> (u64 \<times> guard2) result" where
  "sget_dma_pages K ret_addr gfp_mask order s =
     sget_free_pages K ret_addr (or gfp_mask (GFP_DMA K)) order s"

definition sfree_pages :: "u64 \<Rightarrow> u32 \<Rightarrow> guard2 \<Rightarrow> guard2 result" where
  "sfree_pages p order s =
     (if p = 0 then Inr s else unguard_block (p - page_bytes order div 2) (FreePages (order + 1)) s)"

definition sfree_page :: "u64 \<Rightarrow> guard2 \<Rightarrow> guard2 result" where
  "sfree_page p s = sfree_pages p 0 s"

text \<open>The second version: both zones inside the pages asked for.\<close>

definition nget_free_pages :: "heap_env \<Rightarrow> u64 \<Rightarrow> gfp_t \<Rightarrow> u32 \<Rightarrow> guard2 \<Rightarrow> (u64 \<times> guard2) result" where
  "nget_free_pages K ret_addr gfp_mask order s =
     (let (temp_addr, h) = ask K (GetFreePages gfp_mask order) (kheap s);
          s = s\<lparr>kheap := h\<rparr> in
      if temp_addr \<noteq> 0
      then guard_block K ret_addr ISOSIZE_GFPS temp_addr (temp_addr + page_bytes order - ISOSIZE_GFPS)
             (temp_addr + ISOSIZE_GFPS) s
      else Inr (0, say AllocationFailed s))"

definition nfree_pages :: "u64 \<Rightarrow> u32 \<Rightarrow> guard2 \<Rightarrow> guard2 result" where
  "nfree_pages p order s =
     (if p = 0 then Inr s else unguard_block (p - ISOSIZE_GFPS) (FreePages order) s)"

definition get_free_pages_ex :: "heap_env \<Rightarrow> u64 \<Rightarrow> gfp_t \<Rightarrow> u64 \<Rightarrow> guard2 \<Rightarrow> (u64 \<times> guard2) result" where
  "get_free_pages_ex K ret_addr gfp_mask n s =
     (let (temp_addr, h) = ask K (AllocPagesExact (n + 2 * ISOSIZE_PAGE) gfp_mask) (kheap s);
          s = s\<lparr>kheap := h\<rparr> in
      if temp_addr \<noteq> 0
      then guard_block K ret_addr ISOSIZE_PAGE temp_addr (temp_addr + n + ISOSIZE_PAGE)
             (temp_addr + ISOSIZE_PAGE) s
      else Inr (0, say AllocationFailed s))"

definition free_pages_ex :: "u64 \<Rightarrow> u64 \<Rightarrow> guard2 \<Rightarrow> guard2 result" where
  "free_pages_ex p n s =
     (if p = 0 then Inr s
      else unguard_block (p - ISOSIZE_PAGE) (FreePagesExact (n + 2 * ISOSIZE_PAGE)) s)"

section \<open>Scanning and the module\<close>

definition check_iso :: "guard2 \<Rightarrow> guard2 result" where
  "check_iso s =
     (if iso_head s = [] then Inr s else check_zones (unat sizeof_iso_zone) (iso_head s) s)"

text \<open>
  The kernel thread: each element of the list is what the rest of the system did to the state
  during the sleep of one round; the list ends when the thread is asked to stop.
\<close>

fun checklist_func :: "(guard2 \<Rightarrow> guard2) list \<Rightarrow> guard2 \<Rightarrow> guard2 result" where
  "checklist_func [] s = Inr s"
| "checklist_func (sleep # rounds) s = bind_result (check_iso (sleep s)) (checklist_func rounds)"

definition my_seq_start :: "int \<Rightarrow> unit option" where
  "my_seq_start pos = (if pos = 0 then Some () else None)"

definition my_seq_next :: "int \<Rightarrow> unit option \<times> int" where
  "my_seq_next pos = (None, pos + 1)"

definition my_seq_show :: "guard2 \<Rightarrow> seq_line list result" where
  "my_seq_show s =
     (if iso_head s = [] then Inr [] else show_zones (unat sizeof_iso_zone) s (iso_head s))"

definition init_proc :: "bool \<Rightarrow> checker_module \<Rightarrow> int \<times> checker_module" where
  "init_proc entry m = (0, if entry then m\<lparr>proc_file := True\<rparr> else m)"

definition exit_proc :: "checker_module \<Rightarrow> checker_module" where
  "exit_proc m = m\<lparr>proc_file := False\<rparr>"

definition kmalloc_init :: "int + u64 \<Rightarrow> checker_module \<Rightarrow> int \<times> checker_module" where
  "kmalloc_init run m =
     (case run of
        Inl err \<Rightarrow> (err, m\<lparr>checklist := None\<rparr>)
      | Inr thread \<Rightarrow> (0, m\<lparr>checklist := Some thread\<rparr>))"

definition kmalloc_exit :: "checker_module \<Rightarrow> checker_module" where
  "kmalloc_exit m = (case checklist m of None \<Rightarrow> m | Some _ \<Rightarrow> m\<lparr>checklist := None\<rparr>)"

end
