(* ===== verification/Guard_Inv.thy ===== *)
theory Guard_Inv
  imports Guard_Zone
begin

text \<open>
  Facts about the shared parts of the overflow checkers: what filling, searching, unlinking and
  scanning do, the description of a guarded block and the invariant that ties the list of zones
  to the blocks that are guarded.
\<close>

section \<open>Filling\<close>

definition bytes_at :: "u64 \<Rightarrow> nat \<Rightarrow> u64 set" where
  "bytes_at p n = {q. unat p \<le> unat q \<and> unat q < unat p + n}"

lemma bytes_at_0 [simp]: "bytes_at p 0 = {}"
  by (auto simp: bytes_at_def)

lemma bytes_at_Suc:
  assumes "unat p + Suc n < 2 ^ 64"
  shows "bytes_at p (Suc n) = insert p (bytes_at (p + 1) n)"
proof -
  have "unat (p + 1) = unat p + 1" using assms by (simp add: unat_plus_if')
  then show ?thesis
    by (auto simp: bytes_at_def word_unat_eq_iff)
qed

lemma fill_zones_ok:
  assumes "in_live h p n" and "in_live h q n" and "unat p + n < 2 ^ 64" and "unat q + n < 2 ^ 64"
  shows "fill_zones p q n h =
    Inr (h\<lparr>bytes := \<lambda>x. if x \<in> bytes_at p n \<union> bytes_at q n then guard_byte else bytes h x\<rparr>)"
  using assms
proof (induction n arbitrary: p q h)
  case 0
  then show ?case by simp
next
  case (Suc n)
  have w: "unat (p + 1) + n < 2 ^ 64" "unat (q + 1) + n < 2 ^ 64"
    using Suc.prems(3,4) by (simp_all add: unat_plus_if')
  have l: "in_live h (p + 1) n" "in_live h (q + 1) n"
    using Suc.prems by (auto intro: in_live_step)
  have one: "in_live h p 1" "in_live h q 1"
    using in_live_mono [OF Suc.prems(1), of 1] in_live_mono [OF Suc.prems(2), of 1] by simp_all
  let ?h = "h\<lparr>bytes := (bytes h)(p := guard_byte, q := guard_byte)\<rparr>"
  have "fill_zones p q (Suc n) h = fill_zones (p + 1) (q + 1) n ?h"
    using one by (simp add: poke_def)
  also have "\<dots> = Inr (?h\<lparr>bytes := \<lambda>x. if x \<in> bytes_at (p + 1) n \<union> bytes_at (q + 1) n
      then guard_byte else bytes ?h x\<rparr>)"
    by (rule Suc.IH) (use l w in simp_all)
  finally show ?case
    unfolding bytes_at_Suc [OF Suc.prems(3)] bytes_at_Suc [OF Suc.prems(4)]
    by (auto simp: fun_eq_iff)
qed

lemma fill_zone_ok:
  assumes "in_live h p n" and "unat p + n < 2 ^ 64"
  shows "fill_zone p n h = Inr (h\<lparr>bytes := \<lambda>x. if x \<in> bytes_at p n then guard_byte else bytes h x\<rparr>)"
  using assms
proof (induction n arbitrary: p h)
  case 0
  then show ?case by simp
next
  case (Suc n)
  have w: "unat (p + 1) + n < 2 ^ 64" using Suc.prems(2) by (simp add: unat_plus_if')
  have one: "in_live h p 1" using in_live_mono [OF Suc.prems(1), of 1] by simp
  let ?h = "h\<lparr>bytes := (bytes h)(p := guard_byte)\<rparr>"
  have "fill_zone p (Suc n) h = fill_zone (p + 1) n ?h" using one by (simp add: poke_def)
  also have "\<dots> = Inr (?h\<lparr>bytes := \<lambda>x. if x \<in> bytes_at (p + 1) n then guard_byte else bytes ?h x\<rparr>)"
    using in_live_step [OF Suc.prems] w by (intro Suc.IH) simp_all
  finally show ?case unfolding bytes_at_Suc [OF Suc.prems(2)] by (auto simp: fun_eq_iff)
qed

section \<open>Searching and unlinking\<close>

lemma search_zone_hit:
  assumes "\<forall>p\<in>set xs. ok p \<and> \<not> hit p" and "ok p" and "hit p"
  shows "search_zone ok hit prev temp (xs @ p # ys) = Inr (p, Some (last (prev # map Some xs)))"
  using assms by (induction xs arbitrary: prev temp) auto

lemma search_zone_miss:
  assumes "\<forall>p\<in>set xs. ok p \<and> \<not> hit p"
  shows "search_zone ok hit prev temp xs = Inr (last (temp # xs), None)"
  using assms by (induction xs arbitrary: prev temp) auto

lemma unlink_ok:
  assumes "\<forall>q\<in>set (xs @ p # ys). ok q" and "p \<notin> set xs" and "\<forall>r. prev = Some r \<longrightarrow> ok r"
  shows "unlink ok prev p (xs @ p # ys) = Inr (xs @ ys)"
  using assms by (induction xs arbitrary: prev) (auto split: option.splits list.splits)

lemma list_del_ok:
  assumes "iso_head s = xs @ p # ys" and "\<forall>q\<in>set (iso_head s). node_live n s q" and "p \<notin> set xs"
  shows "list_del n p s = Inr (s\<lparr>iso_head := xs @ ys\<rparr>)"
  using assms unlink_ok [of xs p ys "node_live n s" None] by (simp add: list_del_def)

lemma list_add_ok:
  assumes "\<forall>q\<in>set (iso_head s). node_live n s q"
  shows "list_add n p s = Inr (s\<lparr>iso_head := p # iso_head s\<rparr>)"
  using assms by (auto simp: list_add_def split: list.splits)

section \<open>Scanning\<close>

definition damaged :: "heap \<Rightarrow> u64 \<Rightarrow> u32 \<Rightarrow> bool" where
  "damaged h z n \<longleftrightarrow> (\<exists>x\<in>bytes_at z (unat n). bytes h x \<noteq> guard_byte)"

lemma scan_zone_ok:
  assumes "in_live h z (unat n)" and "unat z + unat n < 2 ^ 64"
  shows "scan_zone h z n = Inr (damaged h z n)"
  using assms
proof (induction "unat n" arbitrary: z n)
  case 0
  then have "n = 0" by (simp add: unat_eq_zero)
  then show ?case by (simp add: scan_zone.simps damaged_def)
next
  case (Suc k)
  have n: "n \<noteq> 0" using Suc.hyps(2) by auto
  then have k: "unat (n - 1) = k" using Suc.hyps(2) by (simp add: unat_minus_one)
  have one: "in_live h z 1" using in_live_mono [OF Suc.prems(1), of 1] Suc.hyps(2) by simp
  have "in_live h (z + 1) (unat (n - 1))" using Suc.prems Suc.hyps(2) k by (intro in_live_step) simp_all
  moreover have "unat (z + 1) + unat (n - 1) < 2 ^ 64"
    using Suc.prems(2) Suc.hyps(2) k by (simp add: unat_plus_if')
  ultimately have "scan_zone h (z + 1) (n - 1) = Inr (damaged h (z + 1) (n - 1))"
    using Suc.hyps(1) [OF k [symmetric]] by blast
  moreover have "bytes_at z (unat n) = insert z (bytes_at (z + 1) (unat (n - 1)))"
    using bytes_at_Suc [of z k] Suc.prems(2) Suc.hyps(2) k by simp
  ultimately show ?case using n one by (subst scan_zone.simps) (auto simp: damaged_def)
qed

text \<open>A zone whose structure, bytes and text may be read.\<close>

definition readable :: "nat \<Rightarrow> ('z iso_zone_scheme) guard \<Rightarrow> u64 \<Rightarrow> bool" where
  "readable n s p \<longleftrightarrow> node_live n s p \<and>
     in_live (kheap s) (addr (zones s p)) (unat (iso_size (zones s p))) \<and>
     unat (addr (zones s p)) + unat (iso_size (zones s p)) < 2 ^ 64 \<and>
     in_live (kheap s) (callerinfo (zones s p)) 1"

definition bad :: "('z iso_zone_scheme) guard \<Rightarrow> u64 \<Rightarrow> bool" where
  "bad s p \<longleftrightarrow> \<not> flag (zones s p) \<and> damaged (kheap s) (addr (zones s p)) (iso_size (zones s p))"

abbreviation owner_text :: "('z iso_zone_scheme) guard \<Rightarrow> u64 \<Rightarrow> string" where
  "owner_text s p \<equiv> texts (kheap s) (callerinfo (zones s p))"

text \<open>The state after a scan of the zones \<open>ps\<close>.\<close>

definition scanned :: "u64 list \<Rightarrow> ('z iso_zone_scheme) guard \<Rightarrow> ('z iso_zone_scheme) guard" where
  "scanned ps s =
     s\<lparr>zones := \<lambda>p. if p \<in> set ps \<and> bad s p then (zones s p)\<lparr>flag := True\<rparr> else zones s p,
       messages := messages s @ map (\<lambda>p. MemoryOverflow (owner_text s p)) (filter (bad s) ps)\<rparr>"

lemma scanned_id:
  fixes t :: "('z iso_zone_scheme) guard"
  assumes "\<forall>p\<in>set ps. \<not> bad t p"
  shows "scanned ps t = t"
proof -
  have "filter (bad t) ps = []" using assms by (simp add: filter_empty_conv)
  moreover have "(\<lambda>p. if p \<in> set ps \<and> bad t p then (zones t p)\<lparr>flag := True\<rparr> else zones t p) = zones t"
    using assms by (intro ext if_not_P) blast
  ultimately show ?thesis by (simp add: scanned_def)
qed

lemma scan_again:
  fixes s :: "('z iso_zone_scheme) guard"
  shows "filter (bad (scanned ps s)) ps = []"
  by (auto simp: filter_empty_conv bad_def scanned_def)


lemma check_zone_ok:
  assumes "readable n s p"
  shows "check_zone n p s = Inr (if bad s p
    then say (MemoryOverflow (owner_text s p)) (s\<lparr>zones := (zones s)(p := (zones s p)\<lparr>flag := True\<rparr>)\<rparr>)
    else s)"
  using assms scan_zone_ok
  by (auto simp: check_zone_def readable_def overflow_line_def bad_def Let_def)

lemma check_zones_ok:
  fixes s :: "('z iso_zone_scheme) guard"
  assumes "\<forall>p\<in>set ps. readable n s p" and "distinct ps"
  shows "check_zones n ps s = Inr (scanned ps s)"
  using assms
proof (induction ps arbitrary: s)
  case Nil
  then show ?case by (simp add: scanned_def)
next
  case (Cons p ps)
  define t where "t = (if bad s p
    then say (MemoryOverflow (owner_text s p)) (s\<lparr>zones := (zones s)(p := (zones s p)\<lparr>flag := True\<rparr>)\<rparr>)
    else s)"
  have np: "p \<notin> set ps" using Cons.prems(2) by simp
  have heap: "kheap t = kheap s" by (simp add: t_def say_def)
  have zone: "zones t q = zones s q" if "q \<noteq> p" for q using that by (simp add: t_def say_def)
  have eq: "readable n t q = readable n s q" "bad t q = bad s q" "owner_text t q = owner_text s q"
    if "q \<in> set ps" for q
  proof -
    have "q \<noteq> p" using np that by auto
    note z = zone [OF this]
    show "readable n t q = readable n s q" "bad t q = bad s q" "owner_text t q = owner_text s q"
      by (simp_all add: readable_def bad_def node_live_def heap z)
  qed
  have "check_zones n ps t = Inr (scanned ps t)"
    using Cons.prems eq(1) by (intro Cons.IH) auto
  moreover have "scanned ps t = scanned (p # ps) s"
  proof -
    have f: "filter (bad t) ps = filter (bad s) ps"
      by (rule filter_cong [OF refl eq(2)])
    have m: "map (\<lambda>q. MemoryOverflow (owner_text t q)) (filter (bad s) ps) =
        map (\<lambda>q. MemoryOverflow (owner_text s q)) (filter (bad s) ps)"
      by (rule map_cong [OF refl]) (simp add: eq(3))
    have z: "(\<lambda>q. if q \<in> set ps \<and> bad t q then (zones t q)\<lparr>flag := True\<rparr> else zones t q) =
        (\<lambda>q. if q \<in> set (p # ps) \<and> bad s q then (zones s q)\<lparr>flag := True\<rparr> else zones s q)"
    proof
      fix q show "(if q \<in> set ps \<and> bad t q then (zones t q)\<lparr>flag := True\<rparr> else zones t q) =
        (if q \<in> set (p # ps) \<and> bad s q then (zones s q)\<lparr>flag := True\<rparr> else zones s q)"
      proof (cases "q = p")
        case True
        then show ?thesis using np by (simp add: t_def say_def)
      next
        case False
        then show ?thesis using zone [OF False] eq(2) [of q] by (cases "q \<in> set ps") simp_all
      qed
    qed
    show ?thesis unfolding scanned_def f m z by (simp add: t_def say_def)
  qed
  ultimately show ?case using check_zone_ok [of n s p] Cons.prems(1) by (simp add: t_def [symmetric])
qed

definition shown :: "('z iso_zone_scheme) guard \<Rightarrow> u64 \<Rightarrow> seq_line list" where
  "shown s p = (if flag (zones s p) then []
     else (if bad s p then [SeqOverflow (owner_text s p)] else []) @ [SeqNewline])"

lemma show_zones_ok:
  assumes "\<forall>p\<in>set ps. readable n s p"
  shows "show_zones n s ps = Inr (concat (map (shown s) ps))"
  using assms
proof (induction ps)
  case Nil
  then show ?case by simp
next
  case (Cons p ps)
  then show ?case using scan_zone_ok
    by (auto simp: readable_def overflow_line_def bad_def shown_def Let_def)
qed

end
