(* ===== verification/Guard_Held.thy ===== *)
theory Guard_Held
  imports Guard_Inv
begin

text \<open>
  The invariant of the overflow checkers: the global list consists of the zones of the blocks
  that are guarded, newest first, and every structure, text and block is out and in one place.
\<close>

text \<open>
  One guarded block: \<open>g_nodes\<close> are the structures of its zones, in the order of the list, with
  the address each zone starts at; \<open>g_struct\<close> and \<open>g_text\<close> are the blocks that hold the
  structures and the name of the caller.
\<close>

record guarded =
  g_nodes :: "(u64 \<times> u64) list"
  g_struct :: u64
  g_struct_size :: u64
  g_text :: u64
  g_caller :: u64
  g_base :: u64
  g_req :: request
  g_size :: u32

definition blocks_of :: "heap_env \<Rightarrow> guarded \<Rightarrow> (u64 \<times> request) list" where
  "blocks_of K g = [(g_struct g, Kmalloc (g_struct_size g) (GFP_KERNEL K)),
     (g_text g, Kmalloc 200 (GFP_KERNEL K)), (g_base g, g_req g)]"

definition shaped :: "nat \<Rightarrow> guarded \<Rightarrow> bool" where
  "shaped n g \<longleftrightarrow> g_nodes g \<noteq> [] \<and> distinct (map fst (g_nodes g)) \<and> distinct (map snd (g_nodes g)) \<and>
     0 < g_size g \<and> 0 < n \<and>
     (\<forall>(p, z)\<in>set (g_nodes g).
        unat (g_struct g) \<le> unat p \<and> unat p + n \<le> unat (g_struct g) + unat (g_struct_size g) \<and>
        unat (g_base g) \<le> unat z \<and> unat z + unat (g_size g) \<le> unat (g_base g) + extent (g_req g))"

definition described :: "heap_env \<Rightarrow> ('z iso_zone_scheme) guard \<Rightarrow> guarded \<Rightarrow> bool" where
  "described K s g \<longleftrightarrow> texts (kheap s) (g_text g) = symbol_of K (g_caller g) \<and>
     (\<forall>(p, z)\<in>set (g_nodes g). callerinfo (zones s p) = g_text g \<and>
        iso_size (zones s p) = g_size g \<and> addr (zones s p) = z)"

definition nodes_of :: "guarded list \<Rightarrow> u64 list" where
  "nodes_of gs = concat (map (\<lambda>g. map fst (g_nodes g)) gs)"

definition guard_inv :: "nat \<Rightarrow> heap_env \<Rightarrow> guarded list \<Rightarrow> ('z iso_zone_scheme) guard \<Rightarrow> bool" where
  "guard_inv n K gs s \<longleftrightarrow> heap_ok (kheap s) \<and> iso_head s = nodes_of gs \<and>
     distinct (concat (map (\<lambda>g. map fst (blocks_of K g)) gs)) \<and>
     (\<forall>g\<in>set gs. shaped n g \<and> described K s g \<and> set (blocks_of K g) \<subseteq> set (live (calls (kheap s))))"

lemma nodes_of_simps [simp]:
  "nodes_of [] = []"
  "nodes_of (g # gs) = map fst (g_nodes g) @ nodes_of gs"
  "nodes_of (gs @ gs') = nodes_of gs @ nodes_of gs'"
  by (simp_all add: nodes_of_def)

lemma set_nodes_of: "p \<in> set (nodes_of gs) \<longleftrightarrow> (\<exists>g\<in>set gs. \<exists>z. (p, z) \<in> set (g_nodes g))"
  by (force simp: nodes_of_def)

lemma guard_invD:
  assumes "guard_inv n K gs s"
  shows "heap_ok (kheap s)" and "iso_head s = nodes_of gs"
    and "distinct (concat (map (\<lambda>g. map fst (blocks_of K g)) gs))"
    and "g \<in> set gs \<Longrightarrow> shaped n g" and "g \<in> set gs \<Longrightarrow> described K s g"
    and "g \<in> set gs \<Longrightarrow> x \<in> set (blocks_of K g) \<Longrightarrow> x \<in> set (live (calls (kheap s)))"
  using assms by (auto simp: guard_inv_def)

lemma concat_owner:
  "distinct (concat (map f xs)) \<Longrightarrow> x \<in> set xs \<Longrightarrow> y \<in> set xs \<Longrightarrow> a \<in> set (f x) \<Longrightarrow> a \<in> set (f y) \<Longrightarrow> x = y"
  by (induction xs) auto

text \<open>A block that is out belongs to at most one guarded block.\<close>

lemma block_owner:
  assumes "guard_inv n K gs s" and "g \<in> set gs" and "g' \<in> set gs"
    and "x \<in> set (blocks_of K g)" and "y \<in> set (blocks_of K g')" and "fst x = fst y"
  shows "g = g'"
proof (rule concat_owner [OF guard_invD(3) [OF assms(1)] assms(2,3)])
  show "fst x \<in> set (map fst (blocks_of K g))" using assms(4) by simp
  show "fst x \<in> set (map fst (blocks_of K g'))" using assms(5,6) by simp
qed

lemma shared_byte:
  assumes "guard_inv n K gs s" and "g \<in> set gs" and "g' \<in> set gs"
    and "x \<in> set (blocks_of K g)" and "y \<in> set (blocks_of K g')"
    and "unat (fst x) \<le> a" and "a < unat (fst x) + extent (snd x)"
    and "unat (fst y) \<le> a" and "a < unat (fst y) + extent (snd y)"
  shows "g = g'"
proof -
  have "x = y"
    by (rule live_same [OF guard_invD(1) [OF assms(1)] guard_invD(6) [OF assms(1,2,4)]
          guard_invD(6) [OF assms(1,3,5)] assms(6-9)])
  with block_owner [OF assms(1-5)] show ?thesis by simp
qed

lemma shapedD:
  assumes "shaped n g" and "(p, z) \<in> set (g_nodes g)"
  shows "unat (g_struct g) \<le> unat p" and "unat p + n \<le> unat (g_struct g) + unat (g_struct_size g)"
    and "unat (g_base g) \<le> unat z" and "unat z + unat (g_size g) \<le> unat (g_base g) + extent (g_req g)"
    and "0 < n" and "0 < unat (g_size g)"
  using assms by (auto simp: shaped_def word_less_nat_alt)

lemma node_owner:
  assumes "guard_inv n K gs s" and "g \<in> set gs" and "g' \<in> set gs"
    and "(p, z) \<in> set (g_nodes g)" and "(p, z') \<in> set (g_nodes g')"
  shows "g = g'"
proof (rule shared_byte [OF assms(1-3), where a = "unat p"])
  show "(g_struct g, Kmalloc (g_struct_size g) (GFP_KERNEL K)) \<in> set (blocks_of K g)"
    "(g_struct g', Kmalloc (g_struct_size g') (GFP_KERNEL K)) \<in> set (blocks_of K g')"
    by (simp_all add: blocks_of_def)
qed (use shapedD [OF guard_invD(4) [OF assms(1,2)] assms(4)]
    shapedD [OF guard_invD(4) [OF assms(1,3)] assms(5)] in simp_all)

lemma zone_owner:
  assumes "guard_inv n K gs s" and "g \<in> set gs" and "g' \<in> set gs"
    and "(p, z) \<in> set (g_nodes g)" and "(p', z) \<in> set (g_nodes g')"
  shows "g = g' \<and> p = p'"
proof -
  have "g = g'"
  proof (rule shared_byte [OF assms(1-3), where a = "unat z"])
    show "(g_base g, g_req g) \<in> set (blocks_of K g)" "(g_base g', g_req g') \<in> set (blocks_of K g')"
      by (simp_all add: blocks_of_def)
  qed (use shapedD [OF guard_invD(4) [OF assms(1,2)] assms(4)]
      shapedD [OF guard_invD(4) [OF assms(1,3)] assms(5)] in simp_all)
  have "distinct (map snd (g_nodes g))"
    using guard_invD(4) [OF assms(1,2)] by (simp add: shaped_def)
  then have "inj_on snd (set (g_nodes g))" by (simp add: distinct_map)
  from inj_onD [OF this, of "(p, z)" "(p', z)"] have "p = p'"
    using assms(4,5) \<open>g = g'\<close> by simp
  with \<open>g = g'\<close> show ?thesis by simp
qed

lemma distinct_heads: "distinct (concat (map f xs)) \<Longrightarrow> (\<And>x. f x \<noteq> []) \<Longrightarrow> distinct xs"
proof (induction xs)
  case (Cons x xs)
  then have "hd (f x) \<in> set (f x)" and "set (f x) \<inter> (\<Union>a\<in>set xs. set (f a)) = {}" by auto
  then have "x \<notin> set xs" by blast
  with Cons show ?case by auto
qed simp

lemma nodes_distinct:
  assumes "guard_inv n K gs s"
  shows "distinct (nodes_of gs)"
proof -
  have "distinct gs"
    by (rule distinct_heads [OF guard_invD(3) [OF assms]]) (simp add: blocks_of_def)
  moreover have "distinct (nodes_of hs)" if "set hs \<subseteq> set gs" "distinct hs" for hs
    using that
  proof (induction hs)
    case Nil
    then show ?case by simp
  next
    case (Cons g hs)
    have "distinct (map fst (g_nodes g))"
      using guard_invD(4) [OF assms, of g] Cons.prems(1) by (meson list.set_intros(1) shaped_def subsetD)
    moreover have "set (map fst (g_nodes g)) \<inter> set (nodes_of hs) = {}"
    proof (rule ccontr)
      assume "set (map fst (g_nodes g)) \<inter> set (nodes_of hs) \<noteq> {}"
      then obtain p z g' z' where "(p, z) \<in> set (g_nodes g)" "g' \<in> set hs" "(p, z') \<in> set (g_nodes g')"
        by (force simp: set_nodes_of)
      with node_owner [OF assms, of g g'] Cons.prems show False by auto
    qed
    ultimately show ?case using Cons by simp
  qed
  ultimately show ?thesis by simp
qed

text \<open>Under the invariant every zone may be scanned.\<close>

lemma inv_readable:
  assumes "guard_inv n K gs s" and "g \<in> set gs" and "(p, z) \<in> set (g_nodes g)"
  shows "readable n s p"
proof -
  note sh = shapedD [OF guard_invD(4) [OF assms(1,2)] assms(3)]
  have b: "(g_struct g, Kmalloc (g_struct_size g) (GFP_KERNEL K)) \<in> set (live (calls (kheap s)))"
    "(g_text g, Kmalloc 200 (GFP_KERNEL K)) \<in> set (live (calls (kheap s)))"
    "(g_base g, g_req g) \<in> set (live (calls (kheap s)))"
    using guard_invD(6) [OF assms(1,2)] by (simp_all add: blocks_of_def)
  have d: "callerinfo (zones s p) = g_text g" "iso_size (zones s p) = g_size g" "addr (zones s p) = z"
    using guard_invD(5) [OF assms(1,2)] assms(3) by (auto simp: described_def)
  have "unat z + unat (g_size g) < 2 ^ 64"
    using live_sound [OF guard_invD(1) [OF assms(1)] b(3)] sh by (simp add: sound_block_def)
  moreover have "node_live n s p" unfolding node_live_def using sh by (intro in_liveI [OF b(1)]) auto
  moreover have "in_live (kheap s) z (unat (g_size g))" using sh by (intro in_liveI [OF b(3)]) auto
  moreover have "in_live (kheap s) (g_text g) 1" by (intro in_live_block [OF b(2)]) simp
  ultimately show ?thesis by (simp add: readable_def d)
qed

lemma inv_list_readable:
  assumes "guard_inv n K gs s"
  shows "\<forall>p\<in>set (iso_head s). readable n s p"
  using inv_readable [OF assms] by (auto simp: guard_invD(2) [OF assms] set_nodes_of)

lemma inv_nodes_live: "guard_inv n K gs s \<Longrightarrow> \<forall>p\<in>set (iso_head s). node_live n s p"
  using inv_list_readable [of n K gs s] by (simp add: readable_def)

section \<open>What keeps the invariant\<close>

lemma guard_inv_frame:
  assumes "guard_inv n K gs s" and "heap_ok (kheap s')" and "iso_head s' = iso_head s"
    and "\<And>g x. g \<in> set gs \<Longrightarrow> x \<in> set (blocks_of K g) \<Longrightarrow> x \<in> set (live (calls (kheap s')))"
    and "\<And>g. g \<in> set gs \<Longrightarrow> described K s' g"
  shows "guard_inv n K gs s'"
  using assms by (auto simp: guard_inv_def)

lemma described_frame:
  assumes "described K s g" and "texts (kheap s') (g_text g) = texts (kheap s) (g_text g)"
    and "\<And>p z. (p, z) \<in> set (g_nodes g) \<Longrightarrow> zones s' p = zones s p"
  shows "described K s' g"
  using assms by (auto simp: described_def)

lemma guard_inv_ask:
  assumes "guard_inv n K gs s" and "heap_laws K" and "ask K r (kheap s) = (p, h)" and "0 < extent r"
  shows "guard_inv n K gs (s\<lparr>kheap := h\<rparr>)"
proof (rule guard_inv_frame [OF assms(1)])
  show "heap_ok (kheap (s\<lparr>kheap := h\<rparr>))"
    using ask_ok [OF assms(2) guard_invD(1) [OF assms(1)] assms(3,4)] by simp
  show "x \<in> set (live (calls (kheap (s\<lparr>kheap := h\<rparr>))))" if "g \<in> set gs" "x \<in> set (blocks_of K g)" for g x
    using guard_invD(6) [OF assms(1) that] ask_live [OF assms(3)] by simp
  show "described K (s\<lparr>kheap := h\<rparr>) g" if "g \<in> set gs" for g
    using assms(3) by (intro described_frame [OF guard_invD(5) [OF assms(1) that]]) simp_all
qed simp

lemma guard_inv_messages: "guard_inv n K gs s \<Longrightarrow> guard_inv n K gs (s\<lparr>messages := x\<rparr>)"
  by (simp add: guard_inv_def described_def)

lemma guard_inv_say: "guard_inv n K gs s \<Longrightarrow> guard_inv n K gs (say m s)"
  unfolding say_def by (rule guard_inv_messages)

lemma guard_inv_bytes: "guard_inv n K gs s \<Longrightarrow> guard_inv n K gs (s\<lparr>kheap := (kheap s)\<lparr>bytes := x\<rparr>\<rparr>)"
  by (simp add: guard_inv_def described_def heap_ok_def)

lemma guard_inv_scanned:
  assumes "guard_inv n K gs s"
  shows "guard_inv n K gs (scanned ps s)"
proof (rule guard_inv_frame [OF assms])
  show "described K (scanned ps s) g" if "g \<in> set gs" for g
    using guard_invD(5) [OF assms that] by (auto simp: described_def scanned_def)
qed (use assms in \<open>auto simp: guard_inv_def scanned_def\<close>)


section \<open>A new guarded block\<close>

definition unused :: "heap_env \<Rightarrow> guarded list \<Rightarrow> u64 \<Rightarrow> bool" where
  "unused K gs p \<longleftrightarrow> (\<forall>g\<in>set gs. p \<notin> set (map fst (blocks_of K g)))"

lemma ask_apart:
  assumes "heap_laws K" and "ask K r h = (p, h')" and "p \<noteq> 0" and "0 < extent r"
    and "x \<in> set (live (calls h))"
  shows "apart (p, r) x"
  using assms by (auto simp: heap_laws_def ask_eq)

lemma ask_sound:
  assumes "heap_laws K" and "ask K r h = (p, h')" and "p \<noteq> 0" and "0 < extent r"
  shows "sound_block (p, r)"
  using assms by (auto simp: heap_laws_def ask_eq sound_block_def)

lemma ask_new:
  assumes "heap_laws K" and "heap_ok h" and "ask K r h = (p, h')" and "p \<noteq> 0" and "0 < extent r"
    and "x \<in> set (live (calls h))"
  shows "p \<noteq> fst x"
  using apart_addr [OF ask_sound [OF assms(1,3-5)] live_sound [OF assms(2,6)]
      ask_apart [OF assms(1,3-6)]] by simp

lemma ask_unused:
  assumes "guard_inv n K gs s" and "heap_laws K" and "ask K r (kheap s) = (p, h)" and "p \<noteq> 0"
    and "0 < extent r"
  shows "unused K gs p"
  using ask_new [OF assms(2) guard_invD(1) [OF assms(1)] assms(3-5) guard_invD(6) [OF assms(1)]]
  by (auto simp: unused_def)

text \<open>A refused request changes nothing but the log of calls.\<close>

lemma ask_refused:
  assumes "guard_inv n K gs s" and "ask K r (kheap s) = (0, h)"
  shows "guard_inv n K gs (s\<lparr>kheap := h\<rparr>)" and "live (calls h) = live (calls (kheap s))"
proof -
  show l: "live (calls h) = live (calls (kheap s))" using ask_live [OF assms(2)] by simp
  show "guard_inv n K gs (s\<lparr>kheap := h\<rparr>)"
    by (rule guard_inv_frame [OF assms(1)])
      (use guard_invD(1,6) [OF assms(1)] assms(2) described_frame [OF guard_invD(5) [OF assms(1)]] l
        in \<open>simp_all add: heap_ok_def\<close>)
qed

text \<open>A text was allocated and written.\<close>

lemma guard_inv_text:
  assumes inv: "guard_inv n K gs s0" and laws: "heap_laws K"
    and b: "ask K (Kmalloc 200 (GFP_KERNEL K)) (kheap s0) = (buffer, h1)" "buffer \<noteq> 0"
    and s: "iso_head s = iso_head s0" "zones s = zones s0"
  shows "guard_inv n K gs (s\<lparr>kheap := h1\<lparr>texts := (texts h1)(buffer := name)\<rparr>\<rparr>)"
proof (rule guard_inv_frame [OF inv])
  let ?h2 = "h1\<lparr>texts := (texts h1)(buffer := name)\<rparr>"
  have "heap_ok h1" by (rule ask_ok [OF laws guard_invD(1) [OF inv] b(1)]) simp
  then show "heap_ok (kheap (s\<lparr>kheap := ?h2\<rparr>))" by (simp add: heap_ok_def)
  show "x \<in> set (live (calls (kheap (s\<lparr>kheap := ?h2\<rparr>))))" if "g \<in> set gs" "x \<in> set (blocks_of K g)" for g x
    using guard_invD(6) [OF inv that] ask_live [OF b(1)] by simp
  show "described K (s\<lparr>kheap := ?h2\<rparr>) g" if "g \<in> set gs" for g
  proof (rule described_frame [OF guard_invD(5) [OF inv that]])
    have "buffer \<noteq> g_text g"
      using ask_unused [OF inv laws b] that by (simp add: unused_def blocks_of_def)
    then show "texts (kheap (s\<lparr>kheap := ?h2\<rparr>)) (g_text g) = texts (kheap s0) (g_text g)"
      using b(1) by simp
  qed (simp add: s)
qed (simp add: s)

lemma text_written:
  assumes "ask K (Kmalloc 200 (GFP_KERNEL K)) h = (buffer, h1)" and "buffer \<noteq> 0"
    and "length (symbol_of K ra) < 200"
  shows "sprint_symbol K buffer ra h1 = Inr (h1\<lparr>texts := (texts h1)(buffer := symbol_of K ra)\<rparr>)"
    and "live (calls h1) = (buffer, Kmalloc 200 (GFP_KERNEL K)) # live (calls h)"
proof -
  show l: "live (calls h1) = (buffer, Kmalloc 200 (GFP_KERNEL K)) # live (calls h)"
    using ask_live [OF assms(1)] assms(2) by simp
  have "in_live h1 buffer (length (symbol_of K ra) + 1)"
    using assms(3) by (intro in_live_block [of _ "Kmalloc 200 (GFP_KERNEL K)"]) (auto simp: l)
  then show "sprint_symbol K buffer ra h1 = Inr (h1\<lparr>texts := (texts h1)(buffer := symbol_of K ra)\<rparr>)"
    by (simp add: sprint_symbol_def)
qed

text \<open>A structure just allocated holds none of the zones on the list.\<close>

lemma new_struct_apart:
  fixes s :: "('z iso_zone_scheme) guard"
  assumes laws: "heap_laws K" and inv: "guard_inv n K gs s" and shp: "shaped n g"
    and ask: "ask K (Kmalloc (g_struct_size g) (GFP_KERNEL K)) (kheap s) = (g_struct g, h)" "g_struct g \<noteq> 0"
    and size: "0 < unat (g_struct_size g)" and p: "p \<in> set (iso_head s)"
  shows "p \<notin> fst ` set (g_nodes g)"
proof
  assume "p \<in> fst ` set (g_nodes g)"
  then obtain z where z: "(p, z) \<in> set (g_nodes g)" by auto
  from p obtain g' z' where g': "g' \<in> set gs" "(p, z') \<in> set (g_nodes g')"
    by (auto simp: guard_invD(2) [OF inv] set_nodes_of)
  have "(g_struct g', Kmalloc (g_struct_size g') (GFP_KERNEL K)) \<in> set (live (calls (kheap s)))"
    using guard_invD(6) [OF inv g'(1), of "(g_struct g', Kmalloc (g_struct_size g') (GFP_KERNEL K))"]
    by (simp add: blocks_of_def)
  from ask_apart [OF laws ask _ this] size
  show False using shapedD [OF shp z] shapedD [OF guard_invD(4) [OF inv g'(1)] g'(2)]
    by (auto simp: apart_def)
qed

text \<open>Writing structures that are not on the list.\<close>

lemma guard_inv_zones:
  fixes s :: "('z iso_zone_scheme) guard"
  assumes inv: "guard_inv n K gs s" and zs: "\<And>p. p \<in> set (iso_head s) \<Longrightarrow> zs p = zones s p"
  shows "guard_inv n K gs (s\<lparr>zones := zs\<rparr>)"
proof (rule guard_inv_frame [OF inv])
  show "described K (s\<lparr>zones := zs\<rparr>) g'" if "g' \<in> set gs" for g'
  proof (rule described_frame [OF guard_invD(5) [OF inv that]])
    show "zones (s\<lparr>zones := zs\<rparr>) p = zones s p" if "(p, z) \<in> set (g_nodes g')" for p z
      using zs [of p] that \<open>g' \<in> set gs\<close> by (auto simp: guard_invD(2) [OF inv] set_nodes_of)
  qed simp
  show "x \<in> set (live (calls (kheap (s\<lparr>zones := zs\<rparr>))))" if "g' \<in> set gs" "x \<in> set (blocks_of K g')" for g' x
    using guard_invD(6) [OF inv that] by simp
qed (use guard_invD(1) [OF inv] in simp_all)

lemma guard_inv_Cons:
  assumes "guard_inv n K gs s" and "iso_head s = nodes_of (g # gs) \<or> iso_head s = nodes_of gs"
    and "shaped n g" and "described K s g" and "set (blocks_of K g) \<subseteq> set (live (calls (kheap s)))"
    and "distinct (map fst (blocks_of K g))" and "\<And>x. x \<in> set (blocks_of K g) \<Longrightarrow> unused K gs (fst x)"
  shows "guard_inv n K (g # gs) (s\<lparr>iso_head := nodes_of (g # gs)\<rparr>)"
proof -
  have "set (map fst (blocks_of K g)) \<inter> set (concat (map (\<lambda>g. map fst (blocks_of K g)) gs)) = {}"
    using assms(7) by (auto simp: unused_def)
  moreover have "\<And>h. described K (s\<lparr>iso_head := x\<rparr>) h = described K s h" for x
    by (simp add: described_def)
  ultimately show ?thesis using assms(1,3-6) by (simp add: guard_inv_def)
qed

text \<open>
  Registering: a text and the structures are allocated, the text is written, the structures are
  filled in and inserted.
\<close>

lemma guard_inv_register:
  fixes s :: "('z iso_zone_scheme) guard"
  assumes laws: "heap_laws K" and inv: "guard_inv n K gs s"
    and base: "(g_base g, g_req g) \<in> set (live (calls (kheap s)))" "unused K gs (g_base g)"
    and buf: "kmalloc K 200 (GFP_KERNEL K) (kheap s) = (g_text g, h1)" "g_text g \<noteq> 0"
    and h2: "h2 = h1\<lparr>texts := (texts h1)(g_text g := symbol_of K (g_caller g))\<rparr>"
    and str: "kmalloc K (g_struct_size g) (GFP_KERNEL K) h2 = (g_struct g, h3)" "g_struct g \<noteq> 0"
    and size: "0 < unat (g_struct_size g)"
    and shp: "shaped n g"
    and new: "\<And>p z. (p, z) \<in> set (g_nodes g) \<Longrightarrow>
      callerinfo (zs p) = g_text g \<and> iso_size (zs p) = g_size g \<and> addr (zs p) = z"
    and old: "\<And>p. p \<notin> fst ` set (g_nodes g) \<Longrightarrow> zs p = zones s p"
  shows "guard_inv n K (g # gs) (s\<lparr>kheap := h3, zones := zs, iso_head := map fst (g_nodes g) @ iso_head s\<rparr>)"
    and "live (calls h3) = (g_struct g, Kmalloc (g_struct_size g) (GFP_KERNEL K)) #
      (g_text g, Kmalloc 200 (GFP_KERNEL K)) # live (calls (kheap s))"
    and "\<And>p. p \<in> set (iso_head s) \<Longrightarrow> zs p = zones s p"
    and "bytes h3 = bytes (kheap s)"
proof -
  let ?t = "(g_text g, Kmalloc 200 (GFP_KERNEL K))"
  let ?a = "(g_struct g, Kmalloc (g_struct_size g) (GFP_KERNEL K))"
  let ?s2 = "s\<lparr>kheap := h2\<rparr>" and ?s3 = "s\<lparr>kheap := h3\<rparr>" and ?s = "s\<lparr>kheap := h3, zones := zs\<rparr>"
  note ask = buf(1) [unfolded kmalloc_def] str(1) [unfolded kmalloc_def]
  have ext: "0 < extent (Kmalloc (g_struct_size g) (GFP_KERNEL K))" using size by simp
  have unt: "unused K gs (g_text g)" by (rule ask_unused [OF inv laws ask(1) buf(2)]) simp
  have inv2: "guard_inv n K gs ?s2" unfolding h2 by (rule guard_inv_text [OF inv laws ask(1) buf(2)]) simp_all
  have a2: "ask K (Kmalloc (g_struct_size g) (GFP_KERNEL K)) (kheap ?s2) = (g_struct g, h3)" using ask(2) by simp
  have inv3: "guard_inv n K gs ?s3" using guard_inv_ask [OF inv2 laws a2 ext] by simp
  have una: "unused K gs (g_struct g)" by (rule ask_unused [OF inv2 laws a2 str(2) ext])
  have l2: "live (calls h2) = ?t # live (calls (kheap s))"
    using ask_live [OF ask(1)] buf(2) by (simp add: h2)
  show l3: "live (calls h3) = ?a # ?t # live (calls (kheap s))"
    using ask_live [OF ask(2)] str(2) l2 by simp
  have nb: "g_text g \<noteq> g_base g"
    using ask_new [OF laws guard_invD(1) [OF inv] ask(1) buf(2) _ base(1)] by simp
  have na: "g_struct g \<noteq> fst x" if "x \<in> set (live (calls h2))" for x
    using ask_new [OF laws _ ask(2) str(2) _ that] guard_invD(1) [OF inv2] size by simp
  show zs: "\<And>p. p \<in> set (iso_head s) \<Longrightarrow> zs p = zones s p"
    using new_struct_apart [OF laws inv2 shp a2 str(2) size] old by simp
  have inv4: "guard_inv n K gs ?s" using guard_inv_zones [OF inv3, of zs] zs by simp
  have t3: "texts h3 = texts h2" using ask(2) by simp
  have "guard_inv n K (g # gs) (?s\<lparr>iso_head := nodes_of (g # gs)\<rparr>)"
  proof (rule guard_inv_Cons [OF inv4 _ shp])
    show "iso_head ?s = nodes_of (g # gs) \<or> iso_head ?s = nodes_of gs"
      using guard_invD(2) [OF inv] by simp
    show "described K ?s g" using new by (auto simp: described_def t3 h2)
    show "set (blocks_of K g) \<subseteq> set (live (calls (kheap ?s)))"
      using base(1) by (auto simp: blocks_of_def l3)
    show "distinct (map fst (blocks_of K g))"
      using nb na [of ?t] na [of "(g_base g, g_req g)"] base(1) by (simp add: blocks_of_def l2)
    show "unused K gs (fst x)" if "x \<in> set (blocks_of K g)" for x
      using that base(2) unt una by (auto simp: blocks_of_def)
  qed
  then show "guard_inv n K (g # gs) (s\<lparr>kheap := h3, zones := zs, iso_head := map fst (g_nodes g) @ iso_head s\<rparr>)"
    by (simp add: guard_invD(2) [OF inv])
  show "bytes h3 = bytes (kheap s)" using ask by (simp add: h2)
qed

section \<open>A guarded block goes\<close>

lemma guard_inv_drop:
  assumes "guard_inv n K (gs1 @ g # gs2) s"
  shows "guard_inv n K (gs1 @ gs2) (s\<lparr>iso_head := nodes_of (gs1 @ gs2)\<rparr>)"
    and "distinct (map fst (blocks_of K g))"
    and "x \<in> set (blocks_of K g) \<Longrightarrow> unused K (gs1 @ gs2) (fst x)"
proof -
  let ?f = "\<lambda>g. map fst (blocks_of K g)"
  have d: "distinct (concat (map ?f gs1) @ ?f g @ concat (map ?f gs2))"
    using guard_invD(3) [OF assms] by simp
  then have "distinct (concat (map ?f (gs1 @ gs2)))"
    unfolding map_append concat_append distinct_append set_append by blast
  moreover have "described K (s\<lparr>iso_head := y\<rparr>) h = described K s h" for y h
    by (simp add: described_def)
  ultimately show "guard_inv n K (gs1 @ gs2) (s\<lparr>iso_head := nodes_of (gs1 @ gs2)\<rparr>)"
    using assms by (simp add: guard_inv_def)
  show "distinct (?f g)" using d by (simp only: distinct_append)
  show "unused K (gs1 @ gs2) (fst x)" if "x \<in> set (blocks_of K g)"
  proof -
    have "fst x \<in> set (?f g)" using that by simp
    then have "fst x \<notin> set (concat (map ?f gs1)) \<union> set (concat (map ?f gs2))"
      using d unfolding distinct_append set_append by blast
    then show ?thesis unfolding unused_def by auto
  qed
qed

lemma guard_inv_give:
  assumes "guard_inv n K gs s" and "unused K gs p"
  shows "guard_inv n K gs (s\<lparr>kheap := (kheap s)\<lparr>calls := Gave q p # calls (kheap s)\<rparr>\<rparr>)"
proof (rule guard_inv_frame [OF assms(1)])
  show "heap_ok (kheap (s\<lparr>kheap := (kheap s)\<lparr>calls := Gave q p # calls (kheap s)\<rparr>\<rparr>))"
    using guard_invD(1) [OF assms(1)] by (auto simp: heap_ok_def sorted_wrt_filter)
  show "x \<in> set (live (calls (kheap (s\<lparr>kheap := (kheap s)\<lparr>calls := Gave q p # calls (kheap s)\<rparr>\<rparr>))))"
    if "g \<in> set gs" "x \<in> set (blocks_of K g)" for g x
  proof -
    have "fst x \<noteq> p" using assms(2) that unfolding unused_def by (metis image_eqI list.set_map)
    then show ?thesis using guard_invD(6) [OF assms(1) that] by (cases x) auto
  qed
  show "described K (s\<lparr>kheap := (kheap s)\<lparr>calls := Gave q p # calls (kheap s)\<rparr>\<rparr>) g" if "g \<in> set gs" for g
    using guard_invD(5) [OF assms(1) that] by (simp add: described_def)
qed simp

text \<open>Giving back the text and the structures of a guarded block.\<close>

lemma free_temp_ok:
  fixes s :: "('z iso_zone_scheme) guard"
  assumes inv: "guard_inv n K gs s" and gin: "g \<in> set gs" and node: "(g_struct g, z) \<in> set (g_nodes g)"
    and s1: "kheap s1 = kheap s" "zones s1 = zones s"
  shows "free_temp n (g_struct g) s1 = Inr (s1\<lparr>kheap := (kheap s)
      \<lparr>calls := Gave Kfree (g_struct g) # Gave Kfree (g_text g) # calls (kheap s)\<rparr>\<rparr>)"
    and "g_struct g \<noteq> 0" and "g_text g \<noteq> 0" and "g_base g \<noteq> 0"
    and "distinct [g_struct g, g_text g, g_base g]"
proof -
  let ?live = "set (live (calls (kheap s)))"
  have b: "(g_struct g, Kmalloc (g_struct_size g) (GFP_KERNEL K)) \<in> ?live"
    "(g_text g, Kmalloc 200 (GFP_KERNEL K)) \<in> ?live" "(g_base g, g_req g) \<in> ?live"
    using guard_invD(6) [OF inv gin] by (simp_all add: blocks_of_def)
  show nz: "g_struct g \<noteq> 0" "g_text g \<noteq> 0" "g_base g \<noteq> 0"
    using live_sound [OF guard_invD(1) [OF inv] b(1)] live_sound [OF guard_invD(1) [OF inv] b(2)]
      live_sound [OF guard_invD(1) [OF inv] b(3)] by (simp_all add: sound_block_def)
  obtain gs1 gs2 where gs: "gs = gs1 @ g # gs2" using split_list [OF gin] by blast
  show ne: "distinct [g_struct g, g_text g, g_base g]"
    using guard_inv_drop(2) [OF inv [unfolded gs]] by (simp add: blocks_of_def)
  have nl: "node_live n s1 (g_struct g)"
    using inv_readable [OF inv gin node] by (simp add: readable_def node_live_def s1)
  have ci: "callerinfo (zones s (g_struct g)) = g_text g"
    using guard_invD(5) [OF inv gin] node by (auto simp: described_def)
  let ?h1 = "(kheap s)\<lparr>calls := Gave Kfree (g_text g) # calls (kheap s)\<rparr>"
  have "give Kfree (g_text g) (kheap s) = Inr ?h1"
    by (rule give_live [OF b(2) nz(2)]) simp
  moreover have "give Kfree (g_struct g) ?h1 = Inr (?h1\<lparr>calls := Gave Kfree (g_struct g) # calls ?h1\<rparr>)"
    by (rule give_live [OF _ nz(1)]) (use b(1) ne in auto)
  ultimately show "free_temp n (g_struct g) s1 = Inr (s1\<lparr>kheap := (kheap s)
      \<lparr>calls := Gave Kfree (g_struct g) # Gave Kfree (g_text g) # calls (kheap s)\<rparr>\<rparr>)"
    using nl by (simp add: free_temp_def nz s1 ci)
qed

lemma free_blocks:
  fixes s :: "('z iso_zone_scheme) guard"
  assumes inv: "guard_inv n K (gs1 @ g # gs2) s" and node: "(g_struct g, z) \<in> set (g_nodes g)"
    and q: "releases q (g_req g)"
    and s1: "s1 = s\<lparr>iso_head := nodes_of (gs1 @ gs2)\<rparr>"
    and h: "h = (kheap s)\<lparr>calls := Gave q (g_base g) # Gave Kfree (g_struct g) # Gave Kfree (g_text g) #
      calls (kheap s)\<rparr>"
  shows "bind_result (free_temp n (g_struct g) s1) (release q (g_base g)) = Inr (s1\<lparr>kheap := h\<rparr>)"
    and "guard_inv n K (gs1 @ gs2) (s1\<lparr>kheap := h\<rparr>)"
proof -
  have gin: "g \<in> set (gs1 @ g # gs2)" by simp
  note temp = free_temp_ok [OF inv gin node, of s1]
  have b: "(g_base g, g_req g) \<in> set (live (calls (kheap s)))"
    using guard_invD(6) [OF inv gin] by (simp add: blocks_of_def)
  let ?h2 = "(kheap s)\<lparr>calls := Gave Kfree (g_struct g) # Gave Kfree (g_text g) # calls (kheap s)\<rparr>"
  have "give q (g_base g) ?h2 = Inr h"
    unfolding h by (subst give_live [OF _ temp(4) q]) (use b temp(5) in \<open>auto simp: s1\<close>)
  with temp show "bind_result (free_temp n (g_struct g) s1) (release q (g_base g)) = Inr (s1\<lparr>kheap := h\<rparr>)"
    by (simp add: release_def s1)
  have un: "unused K (gs1 @ gs2) (g_struct g)" "unused K (gs1 @ gs2) (g_text g)" "unused K (gs1 @ gs2) (g_base g)"
    using guard_inv_drop(3) [OF inv, of "(g_struct g, Kmalloc (g_struct_size g) (GFP_KERNEL K))"]
      guard_inv_drop(3) [OF inv, of "(g_text g, Kmalloc 200 (GFP_KERNEL K))"]
      guard_inv_drop(3) [OF inv, of "(g_base g, g_req g)"] by (simp_all add: blocks_of_def)
  show "guard_inv n K (gs1 @ gs2) (s1\<lparr>kheap := h\<rparr>)"
    using guard_inv_give [OF guard_inv_give [OF guard_inv_give [OF guard_inv_drop(1) [OF inv] un(2),
        of Kfree] un(1), of Kfree] un(3), of q] by (simp add: s1 h)
qed

section \<open>Scanning a list with a dead node\<close>

lemma scan_zone_fault: "scan_zone h p n = Inl e \<Longrightarrow> e = UseAfterFree"
proof (induction h p n rule: scan_zone.induct)
  case (1 h p n)
  then show ?case by (subst (asm) (2) scan_zone.simps) (simp split: if_splits)
qed

lemma check_zone_heap: "check_zone n q s = Inr s' \<Longrightarrow> kheap s' = kheap s"
  by (auto simp: check_zone_def bind_result_def say_def split: sum.splits if_splits)

lemma check_zone_fault: "check_zone n q s = Inl e \<Longrightarrow> e = UseAfterFree"
  using scan_zone_fault
  by (fastforce simp: check_zone_def overflow_line_def bind_result_def Let_def split: sum.splits if_splits)

lemma dead_node_faults:
  assumes "p \<in> set ps" and "\<not> node_live n s p"
  shows "check_zones n ps s = Inl UseAfterFree"
  using assms
proof (induction ps arbitrary: s)
  case (Cons q ps)
  show ?case
  proof (cases "check_zone n q s")
    case (Inl e)
    with check_zone_fault show ?thesis by fastforce
  next
    case (Inr s')
    have "q \<noteq> p" using Inr Cons.prems(2) by (auto simp: check_zone_def)
    moreover have "\<not> node_live n s' p"
      using Cons.prems(2) check_zone_heap [OF Inr] by (simp add: node_live_def)
    ultimately show ?thesis using Cons Inr by simp
  qed
qed simp

section \<open>Quiet states and stores\<close>

text \<open>Zones that are neither flagged nor damaged, and nothing reported.\<close>

definition quiet :: "('z iso_zone_scheme) guard \<Rightarrow> bool" where
  "quiet s \<longleftrightarrow> (\<forall>q\<in>set (iso_head s). \<not> flag (zones s q) \<and>
     \<not> damaged (kheap s) (addr (zones s q)) (iso_size (zones s q))) \<and>
     (\<forall>t. MemoryOverflow t \<notin> set (messages s))"

text \<open>The zones on the list are as they were: the structures and whether a byte was overwritten.\<close>

definition same_zones :: "('z iso_zone_scheme) guard \<Rightarrow> ('z iso_zone_scheme) guard \<Rightarrow> bool" where
  "same_zones s s' \<longleftrightarrow> (\<forall>q\<in>set (iso_head s). zones s' q = zones s q \<and>
     damaged (kheap s') (addr (zones s q)) (iso_size (zones s q)) =
     damaged (kheap s) (addr (zones s q)) (iso_size (zones s q)))"

text \<open>What an allocation leaves behind: nothing registered, or one block more with its zones whole.\<close>

definition failed_alloc :: "('z iso_zone_scheme) guard \<Rightarrow> ('z iso_zone_scheme) guard \<Rightarrow> bool" where
  "failed_alloc s s' \<longleftrightarrow> iso_head s' = iso_head s \<and> same_zones s s' \<and>
     (\<exists>m\<in>{AllocationFailed, HandleFailed, BufferFailed, StructFailed}. messages s' = messages s @ [m])"

definition new_block :: "guarded \<Rightarrow> ('z iso_zone_scheme) guard \<Rightarrow> ('z iso_zone_scheme) guard \<Rightarrow> bool" where
  "new_block g s s' \<longleftrightarrow> iso_head s' = map fst (g_nodes g) @ iso_head s \<and> same_zones s s' \<and>
     (\<forall>(q, z)\<in>set (g_nodes g). \<not> flag (zones s' q) \<and> \<not> damaged (kheap s') z (g_size g)) \<and>
     messages s' = messages s"

lemma quiet_failed: "quiet s \<Longrightarrow> failed_alloc s s' \<Longrightarrow> quiet s'"
  by (auto simp: quiet_def failed_alloc_def same_zones_def)

lemma quiet_new:
  assumes "quiet s" and "new_block g s s'" and "described K s' g"
  shows "quiet s'"
  using assms by (fastforce simp: quiet_def new_block_def same_zones_def described_def)

text \<open>A write to memory that is not the checker's.\<close>

definition store :: "u64 \<Rightarrow> u8 \<Rightarrow> 'z guard \<Rightarrow> 'z guard" where
  "store p b s = s\<lparr>kheap := (kheap s)\<lparr>bytes := (bytes (kheap s))(p := b)\<rparr>\<rparr>"

lemma zone_apart:
  assumes "guard_inv n K gs s" and "g \<in> set gs" and "(p, z) \<in> set (g_nodes g)"
    and "(b, r) \<in> set (live (calls (kheap s)))" and "unused K gs b"
    and "x \<in> bytes_at z (unat (g_size g))"
  shows "\<not> (unat b \<le> unat x \<and> unat x < unat b + extent r)"
proof
  assume x: "unat b \<le> unat x \<and> unat x < unat b + extent r"
  have bs: "(g_base g, g_req g) \<in> set (blocks_of K g)" by (simp add: blocks_of_def)
  have "(g_base g, g_req g) = (b, r)"
    by (rule live_same [OF guard_invD(1) [OF assms(1)] guard_invD(6) [OF assms(1,2) bs] assms(4),
          of "unat x"])
      (use x shapedD [OF guard_invD(4) [OF assms(1,2)] assms(3)] assms(6) in \<open>auto simp: bytes_at_def\<close>)
  then show False using assms(2,5) bs by (force simp: unused_def)
qed


text \<open>A byte of exactly one zone is overwritten in a quiet state: what a scan finds.\<close>

lemma one_bad:
  fixes s :: "('z iso_zone_scheme) guard"
  assumes inv: "guard_inv n K gs s" and quiet: "quiet s" and g: "g \<in> set gs" "(q, z) \<in> set (g_nodes g)"
    and x: "x \<in> bytes_at z (unat (g_size g))" and b: "b \<noteq> guard_byte"
    and only: "\<And>g' q' z'. g' \<in> set gs \<Longrightarrow> (q', z') \<in> set (g_nodes g') \<Longrightarrow>
      x \<in> bytes_at z' (unat (g_size g')) \<Longrightarrow> q' = q"
  shows "filter (bad (store x b s)) (iso_head s) = [q]"
proof (rule filter_single)
  show "distinct (iso_head s)" using nodes_distinct [OF inv] guard_invD(2) [OF inv] by simp
  show "q \<in> set (iso_head s)" using g by (auto simp: guard_invD(2) [OF inv] set_nodes_of)
next
  fix y assume y: "y \<in> set (iso_head s)"
  then obtain g' z' where g': "g' \<in> set gs" "(y, z') \<in> set (g_nodes g')"
    by (auto simp: guard_invD(2) [OF inv] set_nodes_of)
  have d: "addr (zones s y) = z'" "iso_size (zones s y) = g_size g'"
    using guard_invD(5) [OF inv g'(1)] g'(2) by (auto simp: described_def)
  have q: "\<not> flag (zones s y)" "\<not> damaged (kheap s) z' (g_size g')"
    using quiet y d by (auto simp: quiet_def)
  have dd: "addr (zones s q) = z" "iso_size (zones s q) = g_size g"
    using guard_invD(5) [OF inv g(1)] g(2) by (auto simp: described_def)
  have "bad (store x b s) y \<longleftrightarrow> damaged (kheap (store x b s)) z' (g_size g')"
    using q(1) d by (simp add: bad_def store_def)
  also have "\<dots> \<longleftrightarrow> x \<in> bytes_at z' (unat (g_size g'))"
    using q(2) b by (auto simp: damaged_def store_def)
  also have "\<dots> \<longleftrightarrow> y = q" using only [OF g'] x d dd by auto
  finally show "bad (store x b s) y \<longleftrightarrow> y = q" .
qed

lemma scan_one_bad:
  fixes s :: "('z iso_zone_scheme) guard"
  assumes inv: "guard_inv n K gs s" and g: "g \<in> set gs" "(q, z) \<in> set (g_nodes g)"
    and one: "filter (bad (store x b s)) (iso_head s) = [q]"
  obtains s' where "check_zones n (iso_head s) (store x b s) = Inr s'"
    "messages s' = messages s @ [MemoryOverflow (symbol_of K (g_caller g))]"
    "iso_head s' = iso_head s" "check_zones n (iso_head s) s' = Inr s'"
proof -
  let ?s = "store x b s" and ?ps = "iso_head s"
  have inv1: "guard_inv n K gs ?s" unfolding store_def by (rule guard_inv_bytes [OF inv])
  have h: "iso_head ?s = ?ps" by (simp add: store_def)
  have dist: "distinct ?ps" using nodes_distinct [OF inv] guard_invD(2) [OF inv] by simp
  have chk: "check_zones n ?ps t = Inr (scanned ?ps t)" if "guard_inv n K gs t" "iso_head t = ?ps"
    for t :: "('z iso_zone_scheme) guard"
    using check_zones_ok [OF _ dist] inv_list_readable [OF that(1)] that(2) by simp
  let ?t = "scanned ?ps ?s"
  have c1: "check_zones n ?ps ?s = Inr ?t" by (rule chk [OF inv1 h])
  have "callerinfo (zones s q) = g_text g" "texts (kheap s) (g_text g) = symbol_of K (g_caller g)"
    using guard_invD(5) [OF inv g(1)] g(2) by (auto simp: described_def)
  then have msg: "messages ?t = messages s @ [MemoryOverflow (symbol_of K (g_caller g))]"
    using one by (simp add: scanned_def store_def)
  have none: "\<not> bad ?t p" if "p \<in> set ?ps" for p
    using scan_again [of ?ps ?s] that by (auto simp: filter_empty_conv)
  have "scanned ?ps ?t = ?t" by (rule scanned_id) (use none in blast)
  moreover have ih: "iso_head ?t = ?ps" by (simp add: scanned_def h)
  ultimately have "check_zones n ?ps ?t = Inr ?t" using chk [OF guard_inv_scanned [OF inv1] ih] by simp
  with c1 msg ih that show ?thesis by blast
qed

section \<open>Sequences of writes\<close>

text \<open>A sequence of writes, first to last.\<close>

definition stores :: "(u64 \<times> u8) list \<Rightarrow> 'z guard \<Rightarrow> 'z guard" where
  "stores ws s = fold (\<lambda>(x, b). store x b) ws s"

lemma stores_Nil [simp]: "stores [] s = s"
  by (simp add: stores_def)

lemma stores_append [simp]: "stores (us @ ws) s = stores ws (stores us s)"
  by (simp add: stores_def)

lemma stores_fields [simp]:
  "zones (stores ws s) = zones s" "iso_head (stores ws s) = iso_head s" "messages (stores ws s) = messages s"
  "texts (kheap (stores ws s)) = texts (kheap s)"
  by (induction ws arbitrary: s) (auto simp: stores_def store_def)

lemma stores_heap: "kheap u = kheap t \<Longrightarrow> kheap (stores ws u) = kheap (stores ws t)"
proof (induction ws arbitrary: u t)
  case (Cons w ws)
  then have "kheap (store (fst w) (snd w) u) = kheap (store (fst w) (snd w) t)" by (simp add: store_def)
  from Cons.IH [OF this] show ?case by (simp add: stores_def case_prod_beta)
qed (simp add: stores_def)

lemma stores_inv: "guard_inv n K gs s \<Longrightarrow> guard_inv n K gs (stores ws s)"
proof (induction ws arbitrary: s)
  case (Cons w ws)
  then have "guard_inv n K gs (store (fst w) (snd w) s)" unfolding store_def by (intro guard_inv_bytes)
  from Cons.IH [OF this] show ?case by (simp add: stores_def case_prod_beta)
qed (simp add: stores_def)

end
