(* ===== verification/Guard_Two_Inv.thy ===== *)
theory Guard_Two_Inv
  imports Guard_Two Guard_Held
begin

text \<open>
  What registering and dropping a pair of zones does in the checker with two zones
  (mem_overflow/code/mem_overflow_check.c), under the invariant.
\<close>

text \<open>A block with a zone at its start and a zone at \<open>second\<close>.\<close>

definition pair_of :: "u64 \<Rightarrow> u64 \<Rightarrow> u64 \<Rightarrow> u64 \<Rightarrow> request \<Rightarrow> u64 \<Rightarrow> u64 \<Rightarrow> guarded" where
  "pair_of a buffer ret_addr base r n second =
     \<lparr>g_nodes = [(a + sizeof_iso_zone, second), (a, base)], g_struct = a,
      g_struct_size = 2 * sizeof_iso_zone, g_text = buffer, g_caller = ret_addr,
      g_base = base, g_req = r, g_size = ucast n\<rparr>"

lemma pair_of_simps [simp]:
  "g_nodes (pair_of a buffer ra base r n second) = [(a + sizeof_iso_zone, second), (a, base)]"
  "g_struct (pair_of a buffer ra base r n second) = a"
  "g_struct_size (pair_of a buffer ra base r n second) = 2 * sizeof_iso_zone"
  "g_text (pair_of a buffer ra base r n second) = buffer"
  "g_caller (pair_of a buffer ra base r n second) = ra"
  "g_base (pair_of a buffer ra base r n second) = base"
  "g_req (pair_of a buffer ra base r n second) = r"
  "g_size (pair_of a buffer ra base r n second) = ucast n"
  by (simp_all add: pair_of_def)

abbreviation inv2 :: "heap_env \<Rightarrow> guarded list \<Rightarrow> guard2 \<Rightarrow> bool" where
  "inv2 \<equiv> guard_inv (unat sizeof_iso_zone)"

text \<open>Two zones of \<open>n\<close> bytes fit into the block: one at its start, one at \<open>second\<close>.\<close>

definition fits :: "u64 \<Rightarrow> request \<Rightarrow> u64 \<Rightarrow> u64 \<Rightarrow> bool" where
  "fits base r n second \<longleftrightarrow> 0 < unat n \<and> unat n < 2 ^ 32 \<and> unat n \<le> extent r \<and>
     unat base < unat second \<and> unat second + unat n \<le> unat base + extent r"

lemma in_live_more:
  assumes "in_live h p n" and "set (live (calls h)) \<subseteq> set (live (calls h'))"
  shows "in_live h' p n"
  using assms by (auto simp: in_live_iff)

lemma shaped_pair:
  assumes "sound_block (a, Kmalloc (2 * sizeof_iso_zone) fl)" and "fits base r n second"
  shows "shaped (unat sizeof_iso_zone) (pair_of a buffer ra base r n second)"
proof -
  have "unat a + 96 < 2 ^ 64" using assms(1) by (simp add: sound_block_def sizeof_iso_zone_def)
  then have "unat (a + sizeof_iso_zone) = unat a + 48"
    by (simp add: sizeof_iso_zone_def unat_plus_if')
  moreover from this have "a + sizeof_iso_zone \<noteq> a" by (metis add_cancel_right_right zero_neq_numeral)
  moreover have "unat (ucast n :: u32) = unat n"
    using assms(2) by (simp add: fits_def unsigned_ucast_eq take_bit_nat_eq_self)
  ultimately show ?thesis using assms(2)
    by (auto simp: shaped_def fits_def sizeof_iso_zone_def word_less_nat_alt)
qed

text \<open>The state after the zones were filled.\<close>

definition filled :: "u64 \<Rightarrow> u64 \<Rightarrow> u64 \<Rightarrow> heap \<Rightarrow> heap" where
  "filled n first second h = h\<lparr>bytes := \<lambda>x. if x \<in> bytes_at first (unat n) \<union> bytes_at second (unat n)
     then guard_byte else bytes h x\<rparr>"

lemma filled_simps [simp]:
  "calls (filled n p q h) = calls h"
  "texts (filled n p q h) = texts h"
  by (simp_all add: filled_def)

definition failed2 :: "u64 \<Rightarrow> u64 \<Rightarrow> u64 \<Rightarrow> guard2 \<Rightarrow> guard2 \<Rightarrow> bool" where
  "failed2 n base second s s' \<longleftrightarrow> iso_head s' = iso_head s \<and> zones s' = zones s \<and>
     bytes (kheap s') = bytes (filled n base second (kheap s)) \<and>
     set (live (calls (kheap s))) \<subseteq> set (live (calls (kheap s'))) \<and>
     (messages s' = messages s @ [BufferFailed] \<or> messages s' = messages s @ [StructFailed])"

definition registered2 :: "heap_env \<Rightarrow> u64 \<Rightarrow> u64 \<Rightarrow> u64 \<Rightarrow> u64 \<Rightarrow> u64 \<Rightarrow> request \<Rightarrow> u64 \<Rightarrow> guard2 \<Rightarrow> guard2 \<Rightarrow> bool"
where
  "registered2 K a buffer ra n base r second s s' \<longleftrightarrow>
     iso_head s' = [a + sizeof_iso_zone, a] @ iso_head s \<and>
     (\<forall>p\<in>set (iso_head s). zones s' p = zones s p) \<and>
     \<not> flag (zones s' a) \<and> \<not> flag (zones s' (a + sizeof_iso_zone)) \<and>
     bytes (kheap s') = bytes (filled n base second (kheap s)) \<and>
     live (calls (kheap s')) = (a, Kmalloc (2 * sizeof_iso_zone) (GFP_KERNEL K)) #
       (buffer, Kmalloc 200 (GFP_KERNEL K)) # live (calls (kheap s)) \<and>
     messages s' = messages s"

text \<open>
  Guarding a block after its zones are filled: without a text, without structures, and with both.
\<close>

lemma guard_block_no_text:
  assumes laws: "heap_laws K" and inv: "inv2 K gs (s\<lparr>kheap := filled n base second (kheap s)\<rparr>)"
    and fill: "fill_zones base second (unat n) (kheap s) = Inr (filled n base second (kheap s))"
    and b: "ask K (Kmalloc 200 (GFP_KERNEL K)) (filled n base second (kheap s)) = (0, h1)"
  shows "\<exists>s'. guard_block K ra n base second ret s = Inr (0, s') \<and> inv2 K gs s' \<and> failed2 n base second s s'"
proof -
  let ?s' = "say BufferFailed (s\<lparr>kheap := h1\<rparr>)"
  have "guard_block K ra n base second ret s = Inr (0, ?s')"
    unfolding guard_block_def fill using b by (simp add: kmalloc_def)
  moreover have "inv2 K gs (s\<lparr>kheap := h1\<rparr>)" using guard_inv_ask [OF inv laws, of "Kmalloc 200 (GFP_KERNEL K)"] b by simp
  moreover have "failed2 n base second s ?s'"
    using b ask_live [OF b] by (simp add: failed2_def say_def)
  ultimately show ?thesis using guard_inv_say by blast
qed

lemma guard_block_no_struct:
  assumes laws: "heap_laws K" and inv: "inv2 K gs (s\<lparr>kheap := filled n base second (kheap s)\<rparr>)"
    and fill: "fill_zones base second (unat n) (kheap s) = Inr (filled n base second (kheap s))"
    and name: "nameable K ra"
    and b: "ask K (Kmalloc 200 (GFP_KERNEL K)) (filled n base second (kheap s)) = (buffer, h1)" "buffer \<noteq> 0"
    and a: "ask K (Kmalloc (2 * sizeof_iso_zone) (GFP_KERNEL K))
      (h1\<lparr>texts := (texts h1)(buffer := symbol_of K ra)\<rparr>) = (0, h3)"
  shows "\<exists>s'. guard_block K ra n base second ret s = Inr (0, s') \<and> inv2 K gs s' \<and> failed2 n base second s s'"
proof -
  let ?s' = "say StructFailed (s\<lparr>kheap := h3\<rparr>)"
  note written = text_written [OF b, of ra]
  have "guard_block K ra n base second ret s = Inr (0, ?s')"
    unfolding guard_block_def fill using b written a name by (simp add: kmalloc_def nameable_def)
  moreover have "failed2 n base second s ?s'"
    using b written name ask_live [OF a] a by (auto simp: failed2_def say_def nameable_def)
  moreover have "inv2 K gs (s\<lparr>kheap := h1\<lparr>texts := (texts h1)(buffer := symbol_of K ra)\<rparr>\<rparr>)"
    by (rule guard_inv_text [OF inv laws _ b(2)]) (use b(1) in simp_all)
  from guard_inv_ask [OF this laws, of "Kmalloc (2 * sizeof_iso_zone) (GFP_KERNEL K)"] a
  have "inv2 K gs (s\<lparr>kheap := h3\<rparr>)" by (simp add: sizeof_iso_zone_def)
  ultimately show ?thesis using guard_inv_say by blast
qed

lemma guard_block_both:
  assumes laws: "heap_laws K" and inv: "inv2 K gs (s\<lparr>kheap := filled n base second (kheap s)\<rparr>)"
    and base: "(base, r) \<in> set (live (calls (kheap s)))" "unused K gs base" and fits: "fits base r n second"
    and fill: "fill_zones base second (unat n) (kheap s) = Inr (filled n base second (kheap s))"
    and name: "nameable K ra"
    and b: "ask K (Kmalloc 200 (GFP_KERNEL K)) (filled n base second (kheap s)) = (buffer, h1)" "buffer \<noteq> 0"
    and a: "ask K (Kmalloc (2 * sizeof_iso_zone) (GFP_KERNEL K))
      (h1\<lparr>texts := (texts h1)(buffer := symbol_of K ra)\<rparr>) = (a, h3)" "a \<noteq> 0"
  shows "\<exists>s'. guard_block K ra n base second ret s = Inr (ret, s') \<and>
    inv2 K (pair_of a buffer ra base r n second # gs) s' \<and> registered2 K a buffer ra n base r second s s'"
proof -
  let ?s0 = "s\<lparr>kheap := filled n base second (kheap s)\<rparr>" and ?h2 = "h1\<lparr>texts := (texts h1)(buffer := symbol_of K ra)\<rparr>"
  let ?g = "pair_of a buffer ra base r n second"
  let ?zone = "\<lambda>p. \<lparr>callerinfo = buffer, iso_size = ucast n, addr = p, flag = False\<rparr>"
  let ?zs = "(zones s)(a := ?zone base, a + sizeof_iso_zone := ?zone second)"
  let ?s' = "s\<lparr>kheap := h3, zones := ?zs, iso_head := [a + sizeof_iso_zone, a] @ iso_head s\<rparr>"
  note written = text_written [OF b, of ra]
  have "sound_block (a, Kmalloc (2 * sizeof_iso_zone) (GFP_KERNEL K))"
    by (rule ask_sound [OF laws a]) (simp add: sizeof_iso_zone_def)
  note shp = shaped_pair [OF this fits, of buffer ra]
  have ne: "a + sizeof_iso_zone \<noteq> a" by (simp add: sizeof_iso_zone_def)
  have new: "callerinfo (?zs p) = g_text ?g \<and> iso_size (?zs p) = g_size ?g \<and> addr (?zs p) = z"
    if "(p, z) \<in> set (g_nodes ?g)" for p z using that ne by auto
  have old: "?zs p = zones ?s0 p" if "p \<notin> fst ` set (g_nodes ?g)" for p using that by simp
  have sz: "0 < unat (g_struct_size ?g)" by (simp add: sizeof_iso_zone_def)
  have pre: "(g_base ?g, g_req ?g) \<in> set (live (calls (kheap ?s0)))" "unused K gs (g_base ?g)"
    "kmalloc K 200 (GFP_KERNEL K) (kheap ?s0) = (g_text ?g, h1)" "g_text ?g \<noteq> 0"
    "?h2 = h1\<lparr>texts := (texts h1)(g_text ?g := symbol_of K (g_caller ?g))\<rparr>"
    "kmalloc K (g_struct_size ?g) (GFP_KERNEL K) ?h2 = (g_struct ?g, h3)" "g_struct ?g \<noteq> 0"
    using base b a by (simp_all add: kmalloc_def)
  note reg = guard_inv_register [where zs = ?zs, OF laws inv pre sz shp new old]
  have inv': "inv2 K (?g # gs) ?s'" using reg(1) by simp
  have nl: "\<forall>q\<in>set ([a + sizeof_iso_zone, a] @ iso_head s). in_live h3 q (unat sizeof_iso_zone)"
    using inv_nodes_live [OF inv'] by (simp add: node_live_def)
  have "guard_block K ra n base second ret s = Inr (ret, ?s')"
    unfolding guard_block_def fill using b written a name nl
    by (simp add: list_add_ok node_live_def Let_def kmalloc_def nameable_def)
  moreover have "registered2 K a buffer ra n base r second s ?s'"
    unfolding registered2_def using reg(2-4) ne by (simp add: sizeof_iso_zone_def)
  ultimately show ?thesis using inv' by blast
qed

lemma guard_block_ok:
  assumes laws: "heap_laws K" and inv: "inv2 K gs s"
    and base: "(base, r) \<in> set (live (calls (kheap s)))" "unused K gs base" and fits: "fits base r n second"
    and name: "nameable K ra"
  shows "\<exists>p s'. guard_block K ra n base second ret s = Inr (p, s') \<and>
    (p = 0 \<and> inv2 K gs s' \<and> failed2 n base second s s' \<or>
     p = ret \<and> (\<exists>a buffer. inv2 K (pair_of a buffer ra base r n second # gs) s' \<and>
       registered2 K a buffer ra n base r second s s'))"
proof -
  note snd = live_sound [OF guard_invD(1) [OF inv] base(1)]
  let ?h0 = "filled n base second (kheap s)"
  have fill: "fill_zones base second (unat n) (kheap s) = Inr ?h0"
    unfolding filled_def using snd fits
    by (intro fill_zones_ok in_liveI [OF base(1)]) (auto simp: fits_def sound_block_def)
  have inv0: "inv2 K gs (s\<lparr>kheap := ?h0\<rparr>)" using guard_inv_bytes [OF inv] by (simp add: filled_def)
  obtain buffer h1 where b: "ask K (Kmalloc 200 (GFP_KERNEL K)) ?h0 = (buffer, h1)" by fastforce
  obtain a h3 where a: "ask K (Kmalloc (2 * sizeof_iso_zone) (GFP_KERNEL K))
      (h1\<lparr>texts := (texts h1)(buffer := symbol_of K ra)\<rparr>) = (a, h3)" by fastforce
  consider (none) "buffer = 0" | (struct) "buffer \<noteq> 0" "a = 0" | (both) "buffer \<noteq> 0" "a \<noteq> 0" by blast
  then show ?thesis
  proof cases
    case none
    with guard_block_no_text [OF laws inv0 fill, of h1 ra ret] b show ?thesis by blast
  next
    case struct
    with guard_block_no_struct [OF laws inv0 fill name b, of h3 ret] a show ?thesis by blast
  next
    case both
    from guard_block_both [OF laws inv0 base fits fill name b both(1) a both(2), of ret] show ?thesis by blast
  qed
qed

text \<open>Dropping a registered block.\<close>

lemma drop_zones_ok:
  assumes inv: "inv2 K (gs1 @ g # gs2) s" and g: "g = pair_of a buffer ra base r n second"
  shows "drop_zones base s = Inr (a, s\<lparr>iso_head := nodes_of (gs1 @ gs2)\<rparr>)"
proof -
  let ?n = "unat sizeof_iso_zone"
  let ?b = "a + sizeof_iso_zone"
  have gin: "g \<in> set (gs1 @ g # gs2)" by simp
  have head: "iso_head s = (nodes_of gs1 @ [?b]) @ a # nodes_of gs2"
    using guard_invD(2) [OF inv] by (simp add: g)
  have dist: "distinct (iso_head s)" using nodes_distinct [OF inv] guard_invD(2) [OF inv] by simp
  note live = inv_nodes_live [OF inv]
  have addr: "addr (zones s p) = z" if "h \<in> set (gs1 @ g # gs2)" "(p, z) \<in> set (g_nodes h)" for h p z
    using guard_invD(5) [OF inv that(1)] that(2) by (auto simp: described_def)
  have hit: "base = addr (zones s a)" using addr [OF gin, of a base] by (simp add: g)
  have miss: "\<forall>p\<in>set (nodes_of gs1 @ [?b]). node_live ?n s p \<and> base \<noteq> addr (zones s p)"
  proof
    fix p assume p: "p \<in> set (nodes_of gs1 @ [?b])"
    then obtain h z where h: "h \<in> set (gs1 @ g # gs2)" "(p, z) \<in> set (g_nodes h)"
    proof (cases "p = ?b")
      case True
      then show ?thesis using that [OF gin, of second] by (simp add: g)
    next
      case False
      with p have "p \<in> set (nodes_of gs1)" by simp
      then show ?thesis using that by (auto simp: set_nodes_of)
    qed
    have "p \<noteq> a" using p dist by (auto simp: head)
    have "base \<noteq> z"
    proof
      assume "base = z"
      with zone_owner [OF inv h(1) gin h(2), of a] \<open>p \<noteq> a\<close> show False by (simp add: g)
    qed
    moreover have "node_live ?n s p" using live p by (auto simp: head)
    ultimately show "node_live ?n s p \<and> base \<noteq> addr (zones s p)" using addr [OF h] by simp
  qed
  have "search_zone (node_live ?n s) (\<lambda>p. base = addr (zones s p)) None 0 (iso_head s) =
      Inr (a, Some (Some ?b))"
    unfolding head using search_zone_hit [OF miss _ hit] live by (simp add: head)
  moreover have "list_del ?n a s = Inr (s\<lparr>iso_head := nodes_of gs1 @ ?b # nodes_of gs2\<rparr>)"
    using list_del_ok [OF head live] dist by (simp add: head)
  moreover have "list_del ?n ?b (s\<lparr>iso_head := nodes_of gs1 @ ?b # nodes_of gs2\<rparr>) =
      Inr (s\<lparr>iso_head := nodes_of gs1 @ nodes_of gs2\<rparr>)"
    using live dist by (subst list_del_ok [where xs = "nodes_of gs1" and ys = "nodes_of gs2"])
      (auto simp: head node_live_def)
  ultimately show ?thesis by (simp add: drop_zones_def)
qed

lemma unguard_block_ok:
  assumes inv: "inv2 K (gs1 @ g # gs2) s" and g: "g = pair_of a buffer ra base r n second"
    and q: "releases q r"
    and s': "s' = s\<lparr>iso_head := nodes_of (gs1 @ gs2), kheap := (kheap s)
      \<lparr>calls := Gave q base # Gave Kfree a # Gave Kfree buffer # calls (kheap s)\<rparr>\<rparr>"
  shows "unguard_block base q s = Inr s'" and "inv2 K (gs1 @ gs2) s'"
proof -
  note drop = drop_zones_ok [OF inv g]
  have "(g_struct g, base) \<in> set (g_nodes g)" by (simp add: g)
  from free_blocks [OF inv this _ refl refl, of q] q drop show "unguard_block base q s = Inr s'" "inv2 K (gs1 @ gs2) s'"
    by (simp_all add: unguard_block_def s' g)
qed

end
