(* ===== verification/Guard_Contract.thy ===== *)
theory Guard_Contract
  imports Guard_Zone
begin

text \<open>
  The contract between an overflow checker and its clients, as a locale: a client that only
  releases what it was given and only writes inside what it asked for never raises a fault, and
  a scan finds nothing to report. The two checkers of the repository interpret it.
\<close>

text \<open>The allocation functions both checkers export.\<close>

datatype call =
    Skmalloc u64 gfp_t
  | Svmalloc u64
  | SdmaAlloc u64 gfp_t
  | SgetPages gfp_t u32
  | SgetPage gfp_t
  | SgetDmaPages gfp_t u32
  | NgetPages gfp_t u32
  | GetPagesEx gfp_t u64

text \<open>
  What a client and the scanning thread do. A release (with a bus address, for DMA) and a write
  name the call that made the block and the pointer it returned.
\<close>

datatype 'c client_event =
    Allocate 'c
  | Free 'c u64 u64
  | Write 'c u64 nat u8
  | Scan

text \<open>
  A run of a disciplined client: \<open>held\<close> are its blocks, newest first; a release or a write that
  is not about a block held, or a write beyond \<open>room\<close>, is not issued.
\<close>

fun client_run ::
  "('c \<Rightarrow> 's \<Rightarrow> (u64 \<times> 's) result) \<Rightarrow> ('c \<Rightarrow> u64 \<Rightarrow> u64 \<Rightarrow> 's \<Rightarrow> 's result) \<Rightarrow>
   (u64 \<Rightarrow> u8 \<Rightarrow> 's \<Rightarrow> 's) \<Rightarrow> ('s \<Rightarrow> 's result) \<Rightarrow> ('c \<Rightarrow> nat) \<Rightarrow>
   'c client_event list \<Rightarrow> ('c \<times> u64) list \<Rightarrow> 's \<Rightarrow> (('c \<times> u64) list \<times> 's) result"
where
  "client_run alloc free put scan room [] held s = Inr (held, s)"
| "client_run alloc free put scan room (Allocate c # es) held s =
     bind_result (alloc c s) (\<lambda>(p, s).
       client_run alloc free put scan room es (if p = 0 then held else (c, p) # held) s)"
| "client_run alloc free put scan room (Free c p bus # es) held s =
     (if (c, p) \<in> set held
      then bind_result (free c p bus s) (client_run alloc free put scan room es (remove1 (c, p) held))
      else client_run alloc free put scan room es held s)"
| "client_run alloc free put scan room (Write c p i b # es) held s =
     client_run alloc free put scan room es held
       (if (c, p) \<in> set held \<and> i < room c then put (p + of_nat i) b s else s)"
| "client_run alloc free put scan room (Scan # es) held s =
     bind_result (scan s) (client_run alloc free put scan room es held)"

fun asks :: "'c client_event \<Rightarrow> 'c set" where
  "asks (Allocate c) = {c}"
| "asks _ = {}"

lemma order_cases:
  assumes "unat (order :: u32) < 11"
  shows "order \<in> {0, 1, 2, 3, 4, 5, 6, 7, 8, 9, 10}"
proof -
  have "unat order \<in> {0, 1, 2, 3, 4, 5, 6, 7, 8, 9, 10}"
    using assms unfolding insert_iff empty_iff by presburger
  then show ?thesis by (auto simp: word_unat_eq_iff)
qed

lemma page_bytes_eq:
  assumes "unat order < 11"
  shows "unat (page_bytes order) = 2 ^ unat order * 4096"
    and "unat (page_bytes order div 2) = 2 ^ unat order * 2048"
    and "unat (order + 1) = unat order + 1"
  using order_cases [OF assms]
  by (auto simp: page_bytes_def PAGE_SIZE_def push_bit_eq_mult)

locale overflow_guard =
  fixes alloc :: "'c \<Rightarrow> 's \<Rightarrow> (u64 \<times> 's) result"
    and free :: "'c \<Rightarrow> u64 \<Rightarrow> u64 \<Rightarrow> 's \<Rightarrow> 's result"
    and put :: "u64 \<Rightarrow> u8 \<Rightarrow> 's \<Rightarrow> 's"
    and scan :: "'s \<Rightarrow> 's result"
    and room :: "'c \<Rightarrow> nat"
    and sane :: "'c \<Rightarrow> bool"
    and inv :: "('c \<times> u64) list \<Rightarrow> 's \<Rightarrow> bool"
  assumes alloc_law: "inv held s \<Longrightarrow> sane c \<Longrightarrow>
      \<exists>p s'. alloc c s = Inr (p, s') \<and> inv (if p = 0 then held else (c, p) # held) s'"
    and free_law: "inv held s \<Longrightarrow> (c, p) \<in> set held \<Longrightarrow>
      \<exists>s'. free c p bus s = Inr s' \<and> inv (remove1 (c, p) held) s'"
    and put_law: "inv held s \<Longrightarrow> (c, p) \<in> set held \<Longrightarrow> i < room c \<Longrightarrow> inv held (put (p + of_nat i) b s)"
    and scan_law: "inv held s \<Longrightarrow> scan s = Inr s"
begin

lemma run_ok:
  assumes "inv held s" and "\<forall>e\<in>set es. \<forall>c\<in>asks e. sane c"
  shows "\<exists>held' s'. client_run alloc free put scan room es held s = Inr (held', s') \<and> inv held' s'"
  using assms
proof (induction es arbitrary: held s)
  case Nil
  then show ?case by simp
next
  case (Cons e es)
  then have rest: "\<forall>e\<in>set es. \<forall>c\<in>asks e. sane c" by simp
  show ?case
  proof (cases e)
    case (Allocate c)
    with Cons.prems(2) have "sane c" by simp
    from alloc_law [OF Cons.prems(1) this] obtain p s' where
      "alloc c s = Inr (p, s')" "inv (if p = 0 then held else (c, p) # held) s'" by blast
    with Cons.IH [OF this(2) rest] Allocate show ?thesis by simp
  next
    case (Free c p bus)
    show ?thesis
    proof (cases "(c, p) \<in> set held")
      case True
      from free_law [OF Cons.prems(1) this] obtain s' where
        "free c p bus s = Inr s'" "inv (remove1 (c, p) held) s'" by blast
      with Cons.IH [OF this(2) rest] Free True show ?thesis by simp
    next
      case False
      with Cons.IH [OF Cons.prems(1) rest] Free show ?thesis by simp
    qed
  next
    case (Write c p i b)
    have "inv held (if (c, p) \<in> set held \<and> i < room c then put (p + of_nat i) b s else s)"
      using put_law [OF Cons.prems(1), of c p i b] Cons.prems(1) by simp
    from Cons.IH [OF this rest] Write show ?thesis by simp
  next
    case Scan
    with Cons.IH [OF Cons.prems(1) rest] scan_law [OF Cons.prems(1)] show ?thesis by simp
  qed
qed

text \<open>After a run without faults the invariant holds, and a further scan changes nothing.\<close>

lemma run_inv:
  assumes "inv held s" and "\<forall>e\<in>set es. \<forall>c\<in>asks e. sane c"
    and "client_run alloc free put scan room es held s = Inr (held', s')"
  shows "inv held' s'"
  using run_ok [OF assms(1,2)] assms(3) by auto

lemma run_silent:
  assumes "inv held s" and "\<forall>e\<in>set es. \<forall>c\<in>asks e. sane c"
  shows "\<exists>held' s'. client_run alloc free put scan room es held s = Inr (held', s') \<and> scan s' = Inr s'"
  using run_ok [OF assms] scan_law by blast

end

end
