(* ===== verification/Guard_Two_Ops.thy ===== *)
theory Guard_Two_Ops
  imports Guard_Two_Inv Guard_Contract
begin

text \<open>
  The operations of the checker with two zones seen uniformly: each allocation function asks for
  one block and puts a zone at its start and one behind the room of the caller. From this the
  contract of the checkers is interpreted.
\<close>

section \<open>The operations as data\<close>

fun do_alloc :: "heap_env \<Rightarrow> call \<times> u64 \<Rightarrow> guard2 \<Rightarrow> (u64 \<times> guard2) result" where
  "do_alloc K (Skmalloc n flags, ra) s = skmalloc K ra n flags s"
| "do_alloc K (Svmalloc n, ra) s = svmalloc K ra n s"
| "do_alloc K (SdmaAlloc n flags, ra) s =
     bind_result (sdma_alloc_coherent K ra n flags s) (\<lambda>((p, handle), s). Inr (p, s))"
| "do_alloc K (SgetPages gm order, ra) s = sget_free_pages K ra gm order s"
| "do_alloc K (SgetPage gm, ra) s = sget_free_page K ra gm s"
| "do_alloc K (SgetDmaPages gm order, ra) s = sget_dma_pages K ra gm order s"
| "do_alloc K (NgetPages gm order, ra) s = nget_free_pages K ra gm order s"
| "do_alloc K (GetPagesEx gm n, ra) s = get_free_pages_ex K ra gm n s"

fun do_free :: "call \<times> u64 \<Rightarrow> u64 \<Rightarrow> u64 \<Rightarrow> guard2 \<Rightarrow> guard2 result" where
  "do_free (Skmalloc _ _, _) p bus s = skfree p s"
| "do_free (Svmalloc _, _) p bus s = svfree p s"
| "do_free (SdmaAlloc n _, _) p bus s = sdma_free_coherent n p bus s"
| "do_free (SgetPages _ order, _) p bus s = sfree_pages p order s"
| "do_free (SgetPage _, _) p bus s = sfree_page p s"
| "do_free (SgetDmaPages _ order, _) p bus s = sfree_pages p order s"
| "do_free (NgetPages _ order, _) p bus s = nfree_pages p order s"
| "do_free (GetPagesEx _ n, _) p bus s = free_pages_ex p n s"

text \<open>The block asked for, the size of a zone, the room of the caller, the release call.\<close>

fun request_of :: "heap_env \<Rightarrow> call \<Rightarrow> request" where
  "request_of K (Skmalloc n flags) = Kmalloc (n + 40) flags"
| "request_of K (Svmalloc n) = Vmalloc (n + 40)"
| "request_of K (SdmaAlloc n flags) = DmaAllocCoherent (n + 40) flags"
| "request_of K (SgetPages gm order) = GetFreePages gm (order + 1)"
| "request_of K (SgetPage gm) = GetFreePages gm 1"
| "request_of K (SgetDmaPages gm order) = GetFreePages (or gm (GFP_DMA K)) (order + 1)"
| "request_of K (NgetPages gm order) = GetFreePages gm order"
| "request_of K (GetPagesEx gm n) = AllocPagesExact (n + 40) gm"

fun zone_bytes :: "call \<Rightarrow> u64" where
  "zone_bytes (SgetPages gm order) = page_bytes order div 2"
| "zone_bytes (SgetPage gm) = page_bytes 0 div 2"
| "zone_bytes (SgetDmaPages gm order) = page_bytes order div 2"
| "zone_bytes _ = 20"

fun user_bytes :: "call \<Rightarrow> u64" where
  "user_bytes (Skmalloc n flags) = n"
| "user_bytes (Svmalloc n) = n"
| "user_bytes (SdmaAlloc n flags) = n"
| "user_bytes (SgetPages gm order) = page_bytes order"
| "user_bytes (SgetPage gm) = page_bytes 0"
| "user_bytes (SgetDmaPages gm order) = page_bytes order"
| "user_bytes (NgetPages gm order) = page_bytes order - 40"
| "user_bytes (GetPagesEx gm n) = n"

fun release_of :: "call \<Rightarrow> u64 \<Rightarrow> release" where
  "release_of (Skmalloc n flags) bus = Kfree"
| "release_of (Svmalloc n) bus = Vfree"
| "release_of (SdmaAlloc n flags) bus = DmaFreeCoherent (n + 40) (bus - 20)"
| "release_of (SgetPages gm order) bus = FreePages (order + 1)"
| "release_of (SgetPage gm) bus = FreePages 1"
| "release_of (SgetDmaPages gm order) bus = FreePages (order + 1)"
| "release_of (NgetPages gm order) bus = FreePages order"
| "release_of (GetPagesEx gm n) bus = FreePagesExact (n + 40)"

text \<open>
  The size a caller asks for plus the zones stays below \<open>2 ^ 64\<close>; page orders are below the
  \<open>MAX_ORDER\<close> of the buddy allocator.
\<close>

fun sane_call :: "call \<Rightarrow> bool" where
  "sane_call (Skmalloc n flags) \<longleftrightarrow> unat n + 40 < 2 ^ 64"
| "sane_call (Svmalloc n) \<longleftrightarrow> unat n + 40 < 2 ^ 64"
| "sane_call (SdmaAlloc n flags) \<longleftrightarrow> unat n + 40 < 2 ^ 64"
| "sane_call (SgetPages gm order) \<longleftrightarrow> unat order < 11"
| "sane_call (SgetPage gm) \<longleftrightarrow> True"
| "sane_call (SgetDmaPages gm order) \<longleftrightarrow> unat order < 11"
| "sane_call (NgetPages gm order) \<longleftrightarrow> unat order < 11"
| "sane_call (GetPagesEx gm n) \<longleftrightarrow> unat n + 40 < 2 ^ 64"

definition is_dma :: "call \<Rightarrow> bool" where
  "is_dma c \<longleftrightarrow> (case c of SdmaAlloc _ _ \<Rightarrow> True | _ \<Rightarrow> False)"

text \<open>Every allocation but that for DMA is one request followed by \<open>guard_block\<close>.\<close>

lemma do_alloc_eq:
  assumes "\<not> is_dma c"
  shows "do_alloc K (c, ra) s = (let (base, h) = ask K (request_of K c) (kheap s); s = s\<lparr>kheap := h\<rparr> in
    if base \<noteq> 0 then guard_block K ra (zone_bytes c) base (base + zone_bytes c + user_bytes c)
      (base + zone_bytes c) s
    else Inr (0, say AllocationFailed s))"
  using assms
  by (cases c) (simp_all add: is_dma_def skmalloc_def svmalloc_def sget_free_pages_def sget_free_page_def
      sget_dma_pages_def nget_free_pages_def get_free_pages_ex_def kmalloc_def Let_def case_prod_beta
      algebra_simps cong: if_cong)

lemma do_free_eq:
  "do_free (c, ra) p bus s =
     (if p = 0 then Inr s else unguard_block (p - zone_bytes c) (release_of c bus) s)"
  by (cases c) (simp_all add: skfree_def svfree_def sdma_free_coherent_def sfree_pages_def sfree_page_def
      nfree_pages_def free_pages_ex_def)

lemma releases_request: "releases (release_of c bus) (request_of K c)"
  by (cases c) simp_all

lemma half_page:
  assumes "unat order < 11"
  shows "20 \<le> unat (page_bytes order div 2)" and "unat (page_bytes order div 2) < 2 ^ 32"
proof -
  have "20 \<le> 2 ^ unat order * (2048 :: nat)" using one_le_power [of "2 :: nat" "unat order"] by linarith
  moreover have "2 ^ unat order < (2 :: nat) ^ 11" by (rule power_strict_increasing [OF assms]) simp
  ultimately show "20 \<le> unat (page_bytes order div 2)" "unat (page_bytes order div 2) < 2 ^ 32"
    unfolding page_bytes_eq(2) [OF assms] by simp_all
qed

lemma room_fits:
  assumes "sane_call c" and "sound_block (base, request_of K c)"
  shows "fits base (request_of K c) (zone_bytes c) (base + zone_bytes c + user_bytes c)"
    and "0 < extent (request_of K c)"
    and "unat (base + zone_bytes c) = unat base + unat (zone_bytes c)"
    and "unat (base + zone_bytes c + user_bytes c) = unat base + unat (zone_bytes c) + unat (user_bytes c)"
    and "extent (request_of K c) = unat (zone_bytes c) + unat (user_bytes c) + unat (zone_bytes c)"
proof -
  have add: "unat (x + y) = unat x + unat y" if "unat x + unat y < 2 ^ 64" for x y :: u64
    using that by (simp add: unat_plus_if')
  have sb: "0 < unat base" "unat base + extent (request_of K c) < 2 ^ 64"
    using assms(2) by (auto simp: sound_block_def unat_gt_0)
  show ext: "extent (request_of K c) = unat (zone_bytes c) + unat (user_bytes c) + unat (zone_bytes c)"
  proof (cases c)
    case (NgetPages gm order)
    with assms(1) have o: "unat order < 11" by simp
    have "(1 :: nat) \<le> 2 ^ unat order" by simp
    then have "40 \<le> 2 ^ unat order * (4096 :: nat)" by linarith
    then have "40 \<le> page_bytes order" using page_bytes_eq(1) [OF o] by (simp add: word_le_nat_alt)
    then have "unat (page_bytes order - 40) = 2 ^ unat order * 4096 - 40"
      using page_bytes_eq(1) [OF o] by (simp add: unat_sub)
    then show ?thesis using \<open>40 \<le> 2 ^ unat order * 4096\<close> by (simp add: NgetPages PAGE_SIZE_def)
  qed (use assms(1) page_bytes_eq [of 0] page_bytes_eq in \<open>auto simp: add PAGE_SIZE_def\<close>)
  have z: "20 \<le> unat (zone_bytes c)" "unat (zone_bytes c) < 2 ^ 32"
    using half_page assms(1) half_page [of 0] by (cases c; simp)+
  have b1: "unat (base + zone_bytes c) = unat base + unat (zone_bytes c)"
    using sb ext by (intro add) simp
  moreover have b2: "unat (base + zone_bytes c + user_bytes c) = unat base + unat (zone_bytes c) + unat (user_bytes c)"
    using sb ext b1 by (subst add) simp_all
  ultimately show "unat (base + zone_bytes c) = unat base + unat (zone_bytes c)"
    "unat (base + zone_bytes c + user_bytes c) = unat base + unat (zone_bytes c) + unat (user_bytes c)" .
  show "fits base (request_of K c) (zone_bytes c) (base + zone_bytes c + user_bytes c)"
    using z ext b2 by (simp add: fits_def)
  show "0 < extent (request_of K c)" using z ext by simp
qed


section \<open>What an allocation does under the invariant\<close>

definition holds :: "heap_env \<Rightarrow> (call \<times> u64) \<times> u64 \<Rightarrow> guarded \<Rightarrow> bool" where
  "holds K x g \<longleftrightarrow> (case x of ((c, ra), p) \<Rightarrow> \<exists>a buffer base.
     g = pair_of a buffer ra base (request_of K c) (zone_bytes c) (base + zone_bytes c + user_bytes c) \<and>
     p = base + zone_bytes c \<and> sane_call c)"

lemma same_zones_filled:
  assumes inv: "inv2 K gs s" and base: "(base, r) \<in> set (live (calls (kheap s)))" "unused K gs base"
    and fits: "fits base r n second"
    and "\<forall>q\<in>set (iso_head s). zones s' q = zones s q"
    and "bytes (kheap s') = bytes (filled n base second (kheap s))"
  shows "same_zones s s'"
  unfolding same_zones_def
proof (intro ballI conjI)
  fix q assume q: "q \<in> set (iso_head s)"
  with assms(5) show "zones s' q = zones s q" by simp
  from q obtain g z where g: "g \<in> set gs" "(q, z) \<in> set (g_nodes g)"
    by (auto simp: guard_invD(2) [OF inv] set_nodes_of)
  have d: "addr (zones s q) = z" "iso_size (zones s q) = g_size g"
    using guard_invD(5) [OF inv g(1)] g(2) by (auto simp: described_def)
  have "bytes (kheap s') x = bytes (kheap s) x" if "x \<in> bytes_at z (unat (g_size g))" for x
  proof -
    have "x \<notin> bytes_at base (unat n) \<union> bytes_at second (unat n)"
      using zone_apart [OF inv g base that] fits unfolding bytes_at_def fits_def by auto
    then show ?thesis by (simp add: assms(6) filled_def)
  qed
  then show "damaged (kheap s') (addr (zones s q)) (iso_size (zones s q)) =
      damaged (kheap s) (addr (zones s q)) (iso_size (zones s q))" by (simp add: d damaged_def)
qed

definition guarded_alloc :: "heap_env \<Rightarrow> call \<Rightarrow> u64 \<Rightarrow> guard2 \<Rightarrow> (u64 \<times> guard2) result" where
  "guarded_alloc K c ra s = (let (base, h) = ask K (request_of K c) (kheap s); s = s\<lparr>kheap := h\<rparr> in
    if base \<noteq> 0 then guard_block K ra (zone_bytes c) base (base + zone_bytes c + user_bytes c)
      (base + zone_bytes c) s
    else Inr (0, say AllocationFailed s))"

lemma request_positive: "sane_call c \<Longrightarrow> 0 < extent (request_of K c)"
proof (rule ccontr)
  assume c: "sane_call c" and "\<not> 0 < extent (request_of K c)"
  then have "extent (request_of K c) = 0" by simp
  with c show False using page_bytes_eq(3) by (cases c) (auto simp: unat_plus_if' PAGE_SIZE_def)
qed

text \<open>The outcomes of an allocation: the block refused, its zones not registered, all done.\<close>

inductive alloc_out :: "heap_env \<Rightarrow> guarded list \<Rightarrow> guard2 \<Rightarrow> call \<Rightarrow> u64 \<Rightarrow> u64 \<Rightarrow> guard2 \<Rightarrow> bool"
  for K gs s c ra
where
  alloc_failed: "inv2 K gs s' \<Longrightarrow> failed_alloc s s' \<Longrightarrow>
     (answer K (calls (kheap s)) (request_of K c) \<noteq> 0 \<Longrightarrow>
        (answer K (calls (kheap s)) (request_of K c), request_of K c) \<in> set (live (calls (kheap s')))) \<Longrightarrow>
     alloc_out K gs s c ra 0 s'"
| alloc_done: "p \<noteq> 0 \<Longrightarrow> holds K ((c, ra), p) g \<Longrightarrow> inv2 K (g # gs) s' \<Longrightarrow> new_block g s s' \<Longrightarrow>
     live (calls (kheap s')) = blocks_of K g @ live (calls (kheap s)) \<Longrightarrow> alloc_out K gs s c ra p s'"

lemma alloc_refused:
  assumes inv: "inv2 K gs s" and ask: "ask K (request_of K c) (kheap s) = (0, h)"
  shows "alloc_out K gs s c ra 0 (say AllocationFailed (s\<lparr>kheap := h\<rparr>))"
proof (rule alloc_failed)
  show "inv2 K gs (say AllocationFailed (s\<lparr>kheap := h\<rparr>))"
    by (rule guard_inv_say) (rule ask_refused(1) [OF inv ask])
  show "failed_alloc s (say AllocationFailed (s\<lparr>kheap := h\<rparr>))"
    using ask_refused(2) [OF inv ask] ask
    by (simp add: failed_alloc_def same_zones_def say_def damaged_def)
qed (use ask in \<open>simp add: ask_eq\<close>)

text \<open>A block was given out: what \<open>guard_block\<close> then does, seen from before the request.\<close>

lemma alloc_unregistered:
  assumes ask: "ask K (request_of K c) (kheap s) = (base, h)" and nz: "base \<noteq> 0"
    and inv: "inv2 K gs (s\<lparr>kheap := h\<rparr>)" and un: "unused K gs base"
    and fits: "fits base (request_of K c) (zone_bytes c) second"
    and i: "inv2 K gs s'" and f: "failed2 (zone_bytes c) base second (s\<lparr>kheap := h\<rparr>) s'"
  shows "alloc_out K gs s c ra 0 s'"
proof (rule alloc_failed [OF i])
  let ?r = "request_of K c"
  have ans: "answer K (calls (kheap s)) ?r = base" using ask by (simp add: ask_eq)
  have l: "live (calls h) = (base, ?r) # live (calls (kheap s))" using ask_live [OF ask] nz by simp
  have mem: "(base, ?r) \<in> set (live (calls (kheap (s\<lparr>kheap := h\<rparr>))))" by (simp add: l)
  have "same_zones (s\<lparr>kheap := h\<rparr>) s'"
    by (rule same_zones_filled [OF inv mem un fits]) (use f in \<open>auto simp: failed2_def\<close>)
  then have "same_zones s s'" using ask by (simp add: same_zones_def damaged_def)
  then show "failed_alloc s s'" using f by (auto simp: failed_alloc_def failed2_def l)
  show "(answer K (calls (kheap s)) ?r, ?r) \<in> set (live (calls (kheap s')))"
    unfolding ans using f by (auto simp: failed2_def l)
qed

lemma alloc_registered:
  assumes ask: "ask K (request_of K c) (kheap s) = (base, h)" and nz: "base \<noteq> 0"
    and inv: "inv2 K gs (s\<lparr>kheap := h\<rparr>)" and un: "unused K gs base" and c: "sane_call c"
    and sb: "sound_block (base, request_of K c)"
    and i: "inv2 K (pair_of a buffer ra base (request_of K c) (zone_bytes c)
      (base + zone_bytes c + user_bytes c) # gs) s'"
    and f: "registered2 K a buffer ra (zone_bytes c) base (request_of K c)
      (base + zone_bytes c + user_bytes c) (s\<lparr>kheap := h\<rparr>) s'"
  shows "alloc_out K gs s c ra (base + zone_bytes c) s'"
proof (rule alloc_done [OF _ _ i])
  let ?r = "request_of K c" and ?n = "zone_bytes c" and ?snd = "base + zone_bytes c + user_bytes c"
  let ?g = "pair_of a buffer ra base ?r ?n ?snd"
  note fits = room_fits [OF c sb]
  have l: "live (calls h) = (base, ?r) # live (calls (kheap s))" using ask_live [OF ask] nz by simp
  have mem: "(base, ?r) \<in> set (live (calls (kheap (s\<lparr>kheap := h\<rparr>))))" by (simp add: l)
  have sz: "unat (g_size ?g) = unat ?n" using fits(1)
    by (simp add: fits_def unsigned_ucast_eq take_bit_nat_eq_self)
  have "same_zones (s\<lparr>kheap := h\<rparr>) s'"
    by (rule same_zones_filled [OF inv mem un fits(1)]) (use f in \<open>auto simp: registered2_def\<close>)
  then have "same_zones s s'" using ask by (simp add: same_zones_def damaged_def)
  moreover have "\<not> damaged (kheap s') z (g_size ?g)" if "z \<in> {base, ?snd}" for z
    using f that sz by (auto simp: registered2_def damaged_def filled_def)
  ultimately show "new_block ?g s s'" using f by (auto simp: new_block_def registered2_def)
  show "live (calls (kheap s')) = blocks_of K ?g @ live (calls (kheap s))"
    using f by (simp add: registered2_def blocks_of_def l)
  show "holds K ((c, ra), base + ?n) ?g" using c by (auto simp: holds_def)
  have "0 < unat base" using sb by (simp add: sound_block_def unat_gt_0)
  then show "base + ?n \<noteq> 0" using fits(3) by (metis add_gr_0 less_numeral_extra(3) unsigned_0)
qed

lemma guarded_alloc_out:
  assumes laws: "heap_laws K" and inv: "inv2 K gs s" and c: "sane_call c" and name: "nameable K ra"
  shows "\<exists>p s'. guarded_alloc K c ra s = Inr (p, s') \<and> alloc_out K gs s c ra p s'"
proof -
  let ?r = "request_of K c"
  obtain base h where ask: "ask K ?r (kheap s) = (base, h)" by fastforce
  show ?thesis
  proof (cases "base = 0")
    case True
    with alloc_refused [OF inv, of c h ra] ask show ?thesis by (auto simp: guarded_alloc_def)
  next
    case False
    let ?s = "s\<lparr>kheap := h\<rparr>" and ?n = "zone_bytes c" and ?snd = "base + zone_bytes c + user_bytes c"
    note ext = request_positive [OF c, of K]
    have sb: "sound_block (base, ?r)" by (rule ask_sound [OF laws ask False ext])
    note fits = room_fits [OF c sb]
    have inv1: "inv2 K gs ?s" by (rule guard_inv_ask [OF inv laws ask ext])
    have un: "unused K gs base" by (rule ask_unused [OF inv laws ask False ext])
    have mem: "(base, ?r) \<in> set (live (calls (kheap ?s)))" using ask_live [OF ask] False by simp
    have eq: "guarded_alloc K c ra s = guard_block K ra ?n base ?snd (base + ?n) ?s"
      using ask False by (simp add: guarded_alloc_def)
    from guard_block_ok [OF laws inv1 mem un fits(1) name, of "base + ?n"] show ?thesis
      unfolding eq using alloc_unregistered [OF ask False inv1 un fits(1)]
        alloc_registered [OF ask False inv1 un c sb] by blast
  qed
qed

lemma guarded_alloc_ok:
  assumes laws: "heap_laws K" and inv: "inv2 K gs s" and c: "sane_call c" and name: "nameable K ra"
  shows "\<exists>p s'. guarded_alloc K c ra s = Inr (p, s') \<and>
    (p = 0 \<and> inv2 K gs s' \<and> failed_alloc s s' \<and>
       (answer K (calls (kheap s)) (request_of K c) \<noteq> 0 \<longrightarrow>
        (answer K (calls (kheap s)) (request_of K c), request_of K c) \<in> set (live (calls (kheap s')))) \<or>
     p \<noteq> 0 \<and> (\<exists>g. holds K ((c, ra), p) g \<and> inv2 K (g # gs) s' \<and> new_block g s s' \<and>
       live (calls (kheap s')) = blocks_of K g @ live (calls (kheap s))))"
proof -
  from guarded_alloc_out [OF assms] obtain p s' where
    "guarded_alloc K c ra s = Inr (p, s')" and out: "alloc_out K gs s c ra p s'" by blast
  moreover from out have "p = 0 \<and> inv2 K gs s' \<and> failed_alloc s s' \<and>
       (answer K (calls (kheap s)) (request_of K c) \<noteq> 0 \<longrightarrow>
        (answer K (calls (kheap s)) (request_of K c), request_of K c) \<in> set (live (calls (kheap s')))) \<or>
     p \<noteq> 0 \<and> (\<exists>g. holds K ((c, ra), p) g \<and> inv2 K (g # gs) s' \<and> new_block g s s' \<and>
       live (calls (kheap s')) = blocks_of K g @ live (calls (kheap s)))"
    by (cases rule: alloc_out.cases) blast+
  ultimately show ?thesis by (intro exI conjI)
qed


text \<open>The allocation for DMA leaves the block it made for the bus address out.\<close>

definition handle_blocks :: "heap_env \<Rightarrow> call \<Rightarrow> heap \<Rightarrow> (u64 \<times> request) list" where
  "handle_blocks K c h = (if is_dma c \<and> answer K (calls h) (Kmalloc 8 (GFP_KERNEL K)) \<noteq> 0
     then [(answer K (calls h) (Kmalloc 8 (GFP_KERNEL K)), Kmalloc 8 (GFP_KERNEL K))] else [])"

lemma do_alloc_dma:
  "do_alloc K (SdmaAlloc n flags, ra) s =
     (let (handle, h) = kmalloc K 8 (GFP_KERNEL K) (kheap s); s = s\<lparr>kheap := h\<rparr> in
      if handle = 0 then Inr (0, say HandleFailed s) else guarded_alloc K (SdmaAlloc n flags) ra s)"
proof -
  obtain handle h where k: "kmalloc K 8 (GFP_KERNEL K) (kheap s) = (handle, h)" by fastforce
  obtain base h' where a: "ask K (DmaAllocCoherent (n + 40) flags) h = (base, h')" by fastforce
  have b: "bind_result (bind_result m (\<lambda>(ret, s). Inr ((ret, x), s))) (\<lambda>((p, y), s). Inr (p, s)) = m"
    for m :: "(u64 \<times> guard2) result" and x :: "u64 option"
    by (cases m) auto
  show ?thesis by (simp add: sdma_alloc_coherent_def guarded_alloc_def k a b Let_def)
qed

lemma do_alloc_ok:
  assumes laws: "heap_laws K" and inv: "inv2 K gs s" and c: "sane_call c" and name: "nameable K ra"
  shows "\<exists>p s'. do_alloc K (c, ra) s = Inr (p, s') \<and>
    (p = 0 \<and> inv2 K gs s' \<and> failed_alloc s s' \<or>
     p \<noteq> 0 \<and> (\<exists>g. holds K ((c, ra), p) g \<and> inv2 K (g # gs) s' \<and> new_block g s s' \<and>
       live (calls (kheap s')) = blocks_of K g @ handle_blocks K c (kheap s) @ live (calls (kheap s))))"
proof (cases "is_dma c")
  case False
  then have "do_alloc K (c, ra) s = guarded_alloc K c ra s"
    by (simp add: do_alloc_eq guarded_alloc_def)
  with guarded_alloc_ok [OF assms] False show ?thesis by (fastforce simp: handle_blocks_def)
next
  case True
  then obtain n flags where c': "c = SdmaAlloc n flags" by (cases c) (auto simp: is_dma_def)
  obtain hd h where k: "kmalloc K 8 (GFP_KERNEL K) (kheap s) = (hd, h)" by fastforce
  have ask: "ask K (Kmalloc 8 (GFP_KERNEL K)) (kheap s) = (hd, h)" using k by (simp add: kmalloc_def)
  have inv1: "inv2 K gs (s\<lparr>kheap := h\<rparr>)" by (rule guard_inv_ask [OF inv laws ask]) simp
  have bytes: "bytes h = bytes (kheap s)" using ask by simp
  have hb: "live (calls h) = handle_blocks K c (kheap s) @ live (calls (kheap s))"
    using ask_live [OF ask] ask True by (simp add: handle_blocks_def ask_eq)
  show ?thesis
  proof (cases "hd = 0")
    case True
    have "failed_alloc s (say HandleFailed (s\<lparr>kheap := h\<rparr>))"
      by (simp add: failed_alloc_def same_zones_def say_def damaged_def bytes hb)
    with guard_inv_say [OF inv1, of HandleFailed] show ?thesis
      by (intro exI [of _ 0] exI [of _ "say HandleFailed (s\<lparr>kheap := h\<rparr>)"])
        (simp add: c' do_alloc_dma k True del: do_alloc.simps)
  next
    case False
    have eq: "do_alloc K (c, ra) s = guarded_alloc K c ra (s\<lparr>kheap := h\<rparr>)"
      using False by (simp add: c' do_alloc_dma k del: do_alloc.simps)
    have same: "same_zones s s'" if "same_zones (s\<lparr>kheap := h\<rparr>) s'" for s'
      using that by (simp add: same_zones_def damaged_def bytes)
    have "failed_alloc s s'" if "failed_alloc (s\<lparr>kheap := h\<rparr>) s'" for s'
      using that same by (auto simp: failed_alloc_def hb)
    moreover have "new_block g s s'" if "new_block g (s\<lparr>kheap := h\<rparr>) s'" for g s'
      using that same by (auto simp: new_block_def)
    ultimately show ?thesis using guarded_alloc_ok [OF laws inv1 c name] unfolding eq
      by (simp add: hb) blast
  qed
qed

section \<open>What a release does under the invariant\<close>

lemma do_free_ok:
  assumes inv: "inv2 K (gs1 @ g # gs2) s" and g: "holds K (x, p) g"
  shows "\<exists>h. do_free x p bus s = Inr (s\<lparr>iso_head := nodes_of (gs1 @ gs2), kheap := h\<rparr>) \<and>
    inv2 K (gs1 @ gs2) (s\<lparr>iso_head := nodes_of (gs1 @ gs2), kheap := h\<rparr>) \<and> bytes h = bytes (kheap s) \<and>
    live (calls h) = filter (\<lambda>b. b \<notin> set (blocks_of K g)) (live (calls (kheap s)))"
proof -
  obtain c ra where x: "x = (c, ra)" by (cases x)
  with g obtain a buffer base where
    pair: "g = pair_of a buffer ra base (request_of K c) (zone_bytes c) (base + zone_bytes c + user_bytes c)"
    and p: "p = base + zone_bytes c" and c: "sane_call c" by (auto simp: holds_def)
  have gin: "g \<in> set (gs1 @ g # gs2)" by simp
  have bl: "y \<in> set (live (calls (kheap s)))" if "y \<in> set (blocks_of K g)" for y
    by (rule guard_invD(6) [OF inv gin that])
  have ok: "heap_ok (kheap s)" by (rule guard_invD(1) [OF inv])
  have sb: "sound_block (base, request_of K c)"
    by (rule live_sound [OF ok bl]) (simp add: blocks_of_def pair)
  have "0 < unat base" using sb by (simp add: sound_block_def unat_gt_0)
  with room_fits(3) [OF c sb] p have "p \<noteq> 0" by (metis add_gr_0 less_numeral_extra(3) unsigned_0)
  then have eq: "do_free x p bus s = unguard_block base (release_of c bus) s"
    by (simp add: x do_free_eq p)
  let ?h = "(kheap s)\<lparr>calls := Gave (release_of c bus) base # Gave Kfree a # Gave Kfree buffer # calls (kheap s)\<rparr>"
  have "live (calls ?h) = filter (\<lambda>b. b \<notin> set (blocks_of K g)) (live (calls (kheap s)))"
    using live_without [OF ok, of "(a, Kmalloc (2 * sizeof_iso_zone) (GFP_KERNEL K))"
        "(buffer, Kmalloc 200 (GFP_KERNEL K))" "(base, request_of K c)"] bl
    by (simp add: blocks_of_def pair)
  with unguard_block_ok [OF inv pair releases_request refl] eq show ?thesis
    by (intro exI [of _ ?h]) simp
qed

section \<open>The contract\<close>

definition client_inv :: "heap_env \<Rightarrow> ((call \<times> u64) \<times> u64) list \<Rightarrow> guard2 \<Rightarrow> bool" where
  "client_inv K held s \<longleftrightarrow> heap_laws K \<and>
     (\<exists>gs. inv2 K gs s \<and> list_all2 (holds K) held gs \<and> quiet s)"

text \<open>The room of the caller lies between the zones and touches no other.\<close>

lemma room_no_zone:
  assumes inv: "inv2 K gs s" and g: "g \<in> set gs" "holds K ((c, ra), p) g" and i: "i < unat (user_bytes c)"
    and q: "g' \<in> set gs" "(q, z) \<in> set (g_nodes g')"
  shows "p + of_nat i \<notin> bytes_at z (unat (g_size g'))"
proof
  assume x: "p + of_nat i \<in> bytes_at z (unat (g_size g'))"
  from g(2) obtain a buffer base where
    pair: "g = pair_of a buffer ra base (request_of K c) (zone_bytes c) (base + zone_bytes c + user_bytes c)"
    and p: "p = base + zone_bytes c" and c: "sane_call c" by (auto simp: holds_def)
  have bs: "(g_base g, g_req g) \<in> set (blocks_of K g)" "(g_base g', g_req g') \<in> set (blocks_of K g')"
    by (simp_all add: blocks_of_def)
  have sb: "sound_block (base, request_of K c)"
    using live_sound [OF guard_invD(1) [OF inv] guard_invD(6) [OF inv g(1) bs(1)]] by (simp add: pair)
  note fits = room_fits [OF c sb]
  have "unat (p + of_nat i) = unat p + i"
  proof -
    have "unat p + i < 2 ^ 64" using sb fits(3,5) i p by (simp add: sound_block_def)
    then show ?thesis by (simp add: unat_plus_if' unsigned_of_nat take_bit_nat_eq_self)
  qed
  then have x': "unat z \<le> unat base + unat (zone_bytes c) + i"
    "unat base + unat (zone_bytes c) + i < unat z + unat (g_size g')"
    using x fits(3) p by (simp_all add: bytes_at_def)
  have "g = g'"
    by (rule shared_byte [OF inv g(1) q(1) bs, of "unat base + unat (zone_bytes c) + i"])
      (use x' shapedD [OF guard_invD(4) [OF inv q(1)] q(2)] fits(5) i in \<open>simp_all add: pair\<close>)
  then have "z = base \<or> z = base + zone_bytes c + user_bytes c" "unat (g_size g') = unat (zone_bytes c)"
    using q(2) fits(1) by (auto simp: pair fits_def unsigned_ucast_eq take_bit_nat_eq_self)
  then show False using x' fits(4) i by auto
qed

lemma quiet_scan:
  assumes "inv2 K gs s" and "quiet s"
  shows "check_iso s = Inr s"
proof -
  have "scanned (iso_head s) s = s"
    by (rule scanned_id) (use assms(2) in \<open>simp add: quiet_def bad_def\<close>)
  then show ?thesis
    using check_zones_ok [OF inv_list_readable [OF assms(1)]] nodes_distinct [OF assms(1)]
      guard_invD(2) [OF assms(1)] by (simp add: check_iso_def)
qed


lemma client_alloc:
  assumes "client_inv K held s" and "sane_call c" and "nameable K ra"
  shows "\<exists>p s'. do_alloc K (c, ra) s = Inr (p, s') \<and>
    client_inv K (if p = 0 then held else ((c, ra), p) # held) s'"
proof -
  from assms(1) obtain gs where laws: "heap_laws K" and inv: "inv2 K gs s" and all: "list_all2 (holds K) held gs"
    and quiet: "quiet s" by (auto simp: client_inv_def)
  from do_alloc_ok [OF laws inv assms(2,3)] obtain p s' where al: "do_alloc K (c, ra) s = Inr (p, s')" and
    or: "p = 0 \<and> inv2 K gs s' \<and> failed_alloc s s' \<or>
      p \<noteq> 0 \<and> (\<exists>g. holds K ((c, ra), p) g \<and> inv2 K (g # gs) s' \<and> new_block g s s')" by blast
  from or have "client_inv K (if p = 0 then held else ((c, ra), p) # held) s'"
  proof (elim disjE conjE exE)
    assume "p = 0" "inv2 K gs s'" "failed_alloc s s'"
    with laws all quiet_failed [OF quiet] show ?thesis by (auto simp: client_inv_def)
  next
    fix g assume "p \<noteq> 0" and g: "holds K ((c, ra), p) g" "inv2 K (g # gs) s'" "new_block g s s'"
    have "described K s' g" using guard_invD(5) [OF g(2), of g] by simp
    then show ?thesis using \<open>p \<noteq> 0\<close> laws all g quiet_new [OF quiet g(3)]
      by (auto simp: client_inv_def intro!: exI [of _ "g # gs"])
  qed
  with al show ?thesis by blast
qed

lemma client_free:
  assumes "client_inv K held s" and "(x, p) \<in> set held"
  shows "\<exists>s'. do_free x p bus s = Inr s' \<and> client_inv K (remove1 (x, p) held) s'"
proof -
  from assms(1) obtain gs where laws: "heap_laws K" and inv: "inv2 K gs s" and all: "list_all2 (holds K) held gs"
    and quiet: "quiet s" by (auto simp: client_inv_def)
  from split_held [OF all assms(2)] obtain held1 held2 gs1 g gs2 where
    h: "held = held1 @ (x, p) # held2" "(x, p) \<notin> set held1" and gs: "gs = gs1 @ g # gs2" and
    all': "list_all2 (holds K) held1 gs1" "holds K (x, p) g" "list_all2 (holds K) held2 gs2" by metis
  from do_free_ok [OF inv [unfolded gs] all'(2), of bus] obtain h' where
    fr: "do_free x p bus s = Inr (s\<lparr>iso_head := nodes_of (gs1 @ gs2), kheap := h'\<rparr>)"
    "inv2 K (gs1 @ gs2) (s\<lparr>iso_head := nodes_of (gs1 @ gs2), kheap := h'\<rparr>)" "bytes h' = bytes (kheap s)" by blast
  have "set (nodes_of (gs1 @ gs2)) \<subseteq> set (iso_head s)"
    using guard_invD(2) [OF inv] by (auto simp: gs)
  then have "quiet (s\<lparr>iso_head := nodes_of (gs1 @ gs2), kheap := h'\<rparr>)"
    using quiet fr(3) by (auto simp: quiet_def damaged_def)
  moreover have "list_all2 (holds K) (remove1 (x, p) held) (gs1 @ gs2)"
    using h(2) all' by (simp add: h(1) remove1_append list_all2_appendI)
  ultimately have "client_inv K (remove1 (x, p) held) (s\<lparr>iso_head := nodes_of (gs1 @ gs2), kheap := h'\<rparr>)"
    using fr(2) laws by (auto simp: client_inv_def)
  with fr(1) show ?thesis by blast
qed

lemma client_store:
  assumes "client_inv K held s" and "((c, ra), p) \<in> set held" and "i < unat (user_bytes c)"
  shows "client_inv K held (store (p + of_nat i) b s)"
proof -
  from assms(1) obtain gs where laws: "heap_laws K" and inv: "inv2 K gs s" and all: "list_all2 (holds K) held gs"
    and quiet: "quiet s" by (auto simp: client_inv_def)
  from split_held [OF all assms(2)] obtain gs1 g gs2 where
    g: "gs = gs1 @ g # gs2" "holds K ((c, ra), p) g" by metis
  have "damaged (kheap (store (p + of_nat i) b s)) (addr (zones s q)) (iso_size (zones s q)) =
      damaged (kheap s) (addr (zones s q)) (iso_size (zones s q))" if q: "q \<in> set (iso_head s)" for q
  proof -
    from q obtain g' z where g': "g' \<in> set gs" "(q, z) \<in> set (g_nodes g')"
      by (auto simp: guard_invD(2) [OF inv] set_nodes_of)
    have d: "addr (zones s q) = z" "iso_size (zones s q) = g_size g'"
      using guard_invD(5) [OF inv g'(1)] g'(2) by (auto simp: described_def)
    have "p + of_nat i \<notin> bytes_at z (unat (g_size g'))"
      by (rule room_no_zone [OF inv _ g(2) assms(3) g']) (simp add: g)
    then have "bytes (kheap (store (p + of_nat i) b s)) x = bytes (kheap s) x"
      if "x \<in> bytes_at z (unat (g_size g'))" for x using that by (auto simp: store_def)
    then show ?thesis by (simp add: damaged_def d)
  qed
  then have "quiet (store (p + of_nat i) b s)" using quiet by (simp add: quiet_def) (simp add: store_def)
  moreover have "inv2 K gs (store (p + of_nat i) b s)" unfolding store_def by (rule guard_inv_bytes [OF inv])
  ultimately show ?thesis using laws all by (auto simp: client_inv_def)
qed

lemma client_scan: "client_inv K held s \<Longrightarrow> check_iso s = Inr s"
  using quiet_scan by (auto simp: client_inv_def)

interpretation two: overflow_guard "do_alloc K" do_free store check_iso "\<lambda>(c, ra). unat (user_bytes c)"
  "\<lambda>(c, ra). sane_call c \<and> nameable K ra" "client_inv K" for K
proof unfold_locales
  show "\<exists>p s'. do_alloc K c s = Inr (p, s') \<and> client_inv K (if p = 0 then held else (c, p) # held) s'"
    if "client_inv K held s" "case c of (c, ra) \<Rightarrow> sane_call c \<and> nameable K ra" for held s c
  proof -
    obtain c' ra where c: "c = (c', ra)" by (cases c)
    then show ?thesis using client_alloc [OF that(1), of c' ra] that(2) by (simp only: prod.case)
  qed
  show "client_inv K held (store (p + of_nat i) b s)"
    if "client_inv K held s" "(c, p) \<in> set held" "i < (case c of (c, ra) \<Rightarrow> unat (user_bytes c))"
    for held s c p i b
    using client_store that by (cases c) auto
qed (rule client_free client_scan, assumption+)+

end
