(* ===== verification/Heap_Demo.thy ===== *)
theory Heap_Demo
  imports Kernel_Heap
begin

text \<open>
  A concrete allocator for the witnesses: it answers with the first address above all blocks
  that are out, and satisfies the laws.
\<close>

definition top :: "kcall list \<Rightarrow> nat" where
  "top cs = fold (\<lambda>x. max (unat (fst x) + extent (snd x))) (live cs) 4096"

definition demo_env :: heap_env where
  "demo_env = \<lparr>answer = \<lambda>cs r. if top cs + extent r < 2 ^ 64 then of_nat (top cs) else 0,
     handle_after = \<lambda>cs. 64, symbol_of = \<lambda>a. ''main'', GFP_KERNEL = 208, GFP_DMA = 1\<rparr>"

lemma fold_max: "z \<le> fold (\<lambda>x. max (f x)) xs (z :: nat)"
proof (induction xs arbitrary: z)
  case (Cons x xs)
  have "z \<le> max (f x) z" by simp
  also have "\<dots> \<le> fold (\<lambda>x. max (f x)) xs (max (f x) z)" by (rule Cons.IH)
  finally show ?case by simp
qed simp

lemma fold_max_mem: "x \<in> set xs \<Longrightarrow> f x \<le> fold (\<lambda>x. max (f x)) xs (z :: nat)"
proof (induction xs arbitrary: z)
  case (Cons y xs)
  show ?case
  proof (cases "y = x")
    case True
    have "f x \<le> max (f x) z" by simp
    also have "\<dots> \<le> fold (\<lambda>x. max (f x)) xs (max (f x) z)" by (rule fold_max)
    finally show ?thesis by (simp add: True)
  next
    case False
    with Cons show ?thesis by simp
  qed
qed simp

lemma demo_heap_laws: "heap_laws demo_env"
  unfolding heap_laws_def
proof (intro allI impI conjI ballI)
  fix cs r assume a: "answer demo_env cs r \<noteq> 0"
  then have t: "top cs + extent r < 2 ^ 64" by (auto simp: demo_env_def split: if_splits)
  then have u: "unat (answer demo_env cs r) = top cs"
    by (simp add: demo_env_def unsigned_of_nat take_bit_nat_eq_self)
  with t show "unat (answer demo_env cs r) + extent r < 2 ^ 64" by simp
  fix x assume "x \<in> set (live cs)"
  then have "unat (fst x) + extent (snd x) \<le> top cs"
    unfolding top_def by (rule fold_max_mem)
  then show "apart (answer demo_env cs r, r) x" by (simp add: apart_def u)
qed

lemma demo_nameable: "ra \<noteq> 0 \<Longrightarrow> nameable demo_env ra"
  by (simp add: nameable_def demo_env_def)

lemma demo_ask:
  "answer demo_env cs r = (if top cs + extent r < 18446744073709551616 then of_nat (top cs) else 0)"
  by (simp add: demo_env_def)

text \<open>The demonstration allocator with one request refused.\<close>

definition refusing :: "request \<Rightarrow> heap_env" where
  "refusing r = demo_env\<lparr>answer := \<lambda>cs q. if q = r then 0 else answer demo_env cs q\<rparr>"

lemma refusing_laws: "heap_laws (refusing r)"
  using demo_heap_laws by (auto simp: heap_laws_def refusing_def)

end
