(* ===== verification/Guard_Two_Props.thy ===== *)
theory Guard_Two_Props
  imports Guard_Two_Ops Heap_Demo
begin

text \<open>
  The properties of the overflow checker with two zones, mem_overflow/code/mem_overflow_check.c,
  with witnesses on an allocator that answers with the first address above all blocks.
\<close>

section \<open>A concrete allocator\<close>

definition fresh :: "guard2" where
  "fresh = \<lparr>kheap = \<lparr>calls = [], bytes = \<lambda>_. 0, texts = \<lambda>_. []\<rparr>,
     zones = \<lambda>_. \<lparr>callerinfo = 0, iso_size = 0, addr = 0, flag = False\<rparr>, iso_head = [], messages = []\<rparr>"

lemma started_client:
  assumes "heap_laws K" and "iso_head s = []" and "messages s = []" and "calls (kheap s) = []"
  shows "client_inv K [] s"
  using assms by (auto simp: client_inv_def guard_inv_def quiet_def heap_ok_def nodes_of_def)

lemma demo_alloc: "\<exists>s. skmalloc demo_env 1 8 0 fresh = Inr (4116, s)"
proof -
  let ?h = "(kheap fresh)\<lparr>calls := [Got (Kmalloc 48 0) 4096]\<rparr>"
  have "fill_zones 4096 4124 20 ?h = Inr (filled 20 4096 4124 ?h)"
    using fill_zones_ok [of ?h 4096 20 4124] by (simp add: in_live_def filled_def)
  then show ?thesis
    by (simp add: skmalloc_def kmalloc_def ask_def demo_ask top_def fresh_def Let_def guard_block_def
      sprint_symbol_def in_live_def list_add_def node_live_def demo_env_def sizeof_iso_zone_def filled_def)
qed

lemma demo_client: "client_inv demo_env [] fresh"
  by (rule started_client [OF demo_heap_laws]) (simp_all add: fresh_def)

text \<open>A state in which a client holds a block of eight bytes at address 4116.\<close>

lemma demo_held:
  obtains s where "do_alloc demo_env (Skmalloc 8 0, 1) fresh = Inr (4116, s)"
    "client_inv demo_env [((Skmalloc 8 0, 1), 4116)] s"
proof -
  from demo_alloc obtain s where s: "do_alloc demo_env (Skmalloc 8 0, 1) fresh = Inr (4116, s)" by auto
  with client_alloc [OF demo_client, of "Skmalloc 8 0" 1] demo_nameable [of 1]
  have "client_inv demo_env [((Skmalloc 8 0, 1), 4116)] s" by auto
  with s that show ?thesis by blast
qed

abbreviation room_of :: "call \<times> u64 \<Rightarrow> nat" where
  "room_of \<equiv> \<lambda>(c, ra). unat (user_bytes c)"

section \<open>Silence and detection\<close>

text \<open>A client that releases each block once, with the matching function, and writes only inside
  the room it asked for never makes the checker fault, whatever the order of the calls, of the scans
  and of failures of the allocators; no overflow is reported, a further scan changes nothing, and
  the list holds two zones for every block held.\<close>

theorem disciplined_client_silent:
  assumes "heap_laws K" and "iso_head s = []" and "messages s = []" and "calls (kheap s) = []"
    and "\<forall>e\<in>set es. \<forall>(c, ra)\<in>asks e. sane_call c \<and> nameable K ra"
  shows "\<exists>held s'. client_run (do_alloc K) do_free store check_iso room_of es [] s = Inr (held, s') \<and>
    check_iso s' = Inr s' \<and> (\<forall>t. MemoryOverflow t \<notin> set (messages s')) \<and>
    length (iso_head s') = 2 * length held"
proof -
  from two.run_ok [OF started_client [OF assms(1-4)] assms(5)] obtain held s' where
    run: "client_run (do_alloc K) do_free store check_iso room_of es [] s = Inr (held, s')"
    and inv: "client_inv K held s'" by blast
  from inv obtain gs where gs: "inv2 K gs s'" "list_all2 (holds K) held gs" "quiet s'"
    by (auto simp: client_inv_def)
  from gs(2) have "length (nodes_of gs) = 2 * length held"
    by (induction rule: list_all2_induct) (auto simp: holds_def)
  with run gs(3) client_scan [OF inv] guard_invD(2) [OF gs(1)] show ?thesis by (auto simp: quiet_def)
qed

theorem disciplined_client_silent_witness:
  "\<exists>held s'. client_run (do_alloc demo_env) do_free store check_iso room_of
     [Allocate (Skmalloc 8 0, 1), Allocate (SgetPages 0 2, 1), Scan, Allocate (Skmalloc 8 0, 1)] [] fresh =
       Inr (held, s') \<and> check_iso s' = Inr s'"
  using disciplined_client_silent [OF demo_heap_laws, of fresh
      "[Allocate (Skmalloc 8 0, 1), Allocate (SgetPages 0 2, 1), Scan, Allocate (Skmalloc 8 0, 1)]"]
  by (auto simp: fresh_def demo_nameable)

lemma zones_apart:
  assumes inv: "inv2 K gs s" and all: "list_all2 (holds K) held gs"
    and "g \<in> set gs" and "(q, z) \<in> set (g_nodes g)" and "g' \<in> set gs" and "(q', z') \<in> set (g_nodes g')"
    and x: "x \<in> bytes_at z (unat (g_size g))" "x \<in> bytes_at z' (unat (g_size g'))"
  shows "q = q'"
proof -
  have bs: "(g_base g, g_req g) \<in> set (blocks_of K g)" "(g_base g', g_req g') \<in> set (blocks_of K g')"
    by (simp_all add: blocks_of_def)
  have g: "g = g'"
    by (rule shared_byte [OF inv assms(3,5) bs, of "unat x"])
      (use x shapedD [OF guard_invD(4) [OF inv assms(3)] assms(4)]
        shapedD [OF guard_invD(4) [OF inv assms(5)] assms(6)] in \<open>simp_all add: bytes_at_def\<close>)
  from all assms(3) obtain y where "holds K y g" by (metis in_set_conv_nth list_all2_nthD2)
  then obtain a buffer base ra c where pair:
    "g = pair_of a buffer ra base (request_of K c) (zone_bytes c) (base + zone_bytes c + user_bytes c)"
    and c: "sane_call c" by (auto simp: holds_def split: prod.splits)
  have sb: "sound_block (base, request_of K c)"
    using live_sound [OF guard_invD(1) [OF inv] guard_invD(6) [OF inv assms(3) bs(1)]] by (simp add: pair)
  have sz: "unat (g_size g) = unat (zone_bytes c)"
    using room_fits(1) [OF c sb] by (simp add: pair fits_def unsigned_ucast_eq take_bit_nat_eq_self)
  show ?thesis using assms(4,6) x room_fits(4) [OF c sb] sz
    by (auto simp: g [symmetric]) (auto simp: pair bytes_at_def)
qed

text \<open>A scan after one byte of one zone of a quiet state was overwritten.\<close>

lemma scan_after_store:
  assumes inv: "inv2 K gs s" and all: "list_all2 (holds K) held gs" and quiet: "quiet s"
    and g: "g \<in> set gs" "(q, z) \<in> set (g_nodes g)" and x: "x \<in> bytes_at z (unat (g_size g))" and b: "b \<noteq> guard_byte"
  shows "\<exists>s'. check_iso (store x b s) = Inr s' \<and>
    messages s' = messages s @ [MemoryOverflow (symbol_of K (g_caller g))] \<and> check_iso s' = Inr s'"
proof -
  have "filter (bad (store x b s)) (iso_head s) = [q]"
    by (rule one_bad [OF inv quiet g x b]) (use zones_apart [OF inv all g _ _ x] in blast)
  from scan_one_bad [OF inv g this] obtain s' where
    "check_zones (unat sizeof_iso_zone) (iso_head s) (store x b s) = Inr s'"
    "messages s' = messages s @ [MemoryOverflow (symbol_of K (g_caller g))]"
    "iso_head s' = iso_head s" "check_zones (unat sizeof_iso_zone) (iso_head s) s' = Inr s'" by blast
  then show ?thesis by (intro exI [of _ s']) (auto simp: check_iso_def store_def)
qed

text \<open>The bytes next to the room of a block held belong to a zone of the block.\<close>

lemma held_zone:
  assumes inv: "inv2 K gs s" and all: "list_all2 (holds K) held gs"
    and mem: "((c, ra), p) \<in> set held" and i: "i < unat (zone_bytes c)"
    and x: "x = p + user_bytes c + of_nat i \<or> x = p - zone_bytes c + of_nat i"
  obtains g q z where "g \<in> set gs" "(q, z) \<in> set (g_nodes g)" "x \<in> bytes_at z (unat (g_size g))" "g_caller g = ra"
proof -
  from split_held [OF all mem] obtain gs1 g gs2 where
    g: "gs = gs1 @ g # gs2" "holds K ((c, ra), p) g" by metis
  then obtain a buffer base where
    pair: "g = pair_of a buffer ra base (request_of K c) (zone_bytes c) (base + zone_bytes c + user_bytes c)"
    and p: "p = base + zone_bytes c" and c: "sane_call c" by (auto simp: holds_def)
  have gin: "g \<in> set gs" by (simp add: g)
  have sb: "sound_block (base, request_of K c)"
    by (rule live_sound [OF guard_invD(1) [OF inv] guard_invD(6) [OF inv gin]]) (simp add: blocks_of_def pair)
  note fits = room_fits [OF c sb]
  let ?snd = "base + zone_bytes c + user_bytes c"
  have sz: "unat (g_size g) = unat (zone_bytes c)"
    using fits(1) by (simp add: pair fits_def unsigned_ucast_eq take_bit_nat_eq_self)
  have off: "y + of_nat i \<in> bytes_at y (unat (g_size g))" if "unat y + unat (zone_bytes c) < 2 ^ 64" for y :: u64
    using that i by (simp add: bytes_at_def sz unat_plus_if' unsigned_of_nat take_bit_nat_eq_self)
  have "unat base + unat (zone_bytes c) < 2 ^ 64" "unat ?snd + unat (zone_bytes c) < 2 ^ 64"
    using sb fits(4,5) by (simp_all add: sound_block_def)
  then have "x \<in> bytes_at ?snd (unat (g_size g)) \<or> x \<in> bytes_at base (unat (g_size g))"
    using x off [of ?snd] off [of base] by (auto simp: p)
  moreover have "(a + sizeof_iso_zone, ?snd) \<in> set (g_nodes g)" "(a, base) \<in> set (g_nodes g)"
    by (simp_all add: pair)
  moreover have "g_caller g = ra" by (simp add: pair)
  ultimately show ?thesis using that gin by blast
qed

text \<open>C23: Detection. Whatever a disciplined client did before, if a byte of a zone of a block it
  holds is overwritten by anything else than the guard byte, behind the room of the caller or before
  it, the next scan reports exactly one overflow, and names the caller that allocated the block; a
  further scan reports nothing.\<close>

theorem overflow_detected:
  assumes "heap_laws K" and "iso_head s0 = []" and "messages s0 = []" and "calls (kheap s0) = []"
    and "\<forall>e\<in>set es. \<forall>(c, ra)\<in>asks e. sane_call c \<and> nameable K ra"
    and "client_run (do_alloc K) do_free store check_iso room_of es [] s0 = Inr (held, s)"
    and "((c, ra), p) \<in> set held" and "i < unat (zone_bytes c)" and "b \<noteq> guard_byte"
    and "x = p + user_bytes c + of_nat i \<or> x = p - zone_bytes c + of_nat i"
  shows "\<exists>s'. check_iso (store x b s) = Inr s' \<and>
    messages s' = messages s @ [MemoryOverflow (symbol_of K ra)] \<and> check_iso s' = Inr s'"
proof -
  have "client_inv K held s" by (rule two.run_inv [OF started_client [OF assms(1-4)] assms(5,6)])
  then obtain gs where gs: "inv2 K gs s" "list_all2 (holds K) held gs" "quiet s"
    by (auto simp: client_inv_def)
  from held_zone [OF gs(1,2) assms(7,8,10)] obtain g q z where
    "g \<in> set gs" "(q, z) \<in> set (g_nodes g)" "x \<in> bytes_at z (unat (g_size g))" "g_caller g = ra" .
  with scan_after_store [OF gs _ _ _ assms(9)] show ?thesis by metis
qed

theorem overflow_detected_witness:
  "\<exists>s s'. skmalloc demo_env 1 8 0 fresh = Inr (4116, s) \<and> check_iso (store 4124 0 s) = Inr s' \<and>
     messages s' = messages s @ [MemoryOverflow ''main'']"
proof -
  from demo_held obtain s where s: "do_alloc demo_env (Skmalloc 8 0, 1) fresh = Inr (4116, s)" by blast
  let ?es = "[Allocate (Skmalloc 8 0, 1)] :: (call \<times> u64) client_event list"
  have "client_run (do_alloc demo_env) do_free store check_iso room_of ?es [] fresh =
      Inr ([((Skmalloc 8 0, 1), 4116)], s)" using s by simp
  from overflow_detected [OF demo_heap_laws _ _ _ _ this, of "Skmalloc 8 0" 1 4116 0 0 4124]
  have "\<exists>s'. check_iso (store 4124 0 s) = Inr s' \<and> messages s' = messages s @ [MemoryOverflow ''main'']"
    by (simp add: fresh_def demo_nameable guard_byte_def) (auto simp: demo_env_def)
  with s show ?thesis by auto
qed

section \<open>Registration and release\<close>

text \<open>C25: A successful allocation splits the block it got from the kernel into a zone, the room of
  the caller, and a zone: both zones hold only the guard byte, the caller gets the address of the
  room, and two unflagged structures that describe the zones are at the front of the list.\<close>

theorem alloc_registers:
  assumes "client_inv K held s" and "sane_call c" and "nameable K ra"
    and "do_alloc K (c, ra) s = Inr (p, s')" and "p \<noteq> 0"
  shows "\<exists>a base. p = base + zone_bytes c \<and> iso_head s' = [a + sizeof_iso_zone, a] @ iso_head s \<and>
    (base, request_of K c) \<in> set (live (calls (kheap s'))) \<and>
    extent (request_of K c) = unat (zone_bytes c) + unat (user_bytes c) + unat (zone_bytes c) \<and>
    addr (zones s' a) = base \<and> addr (zones s' (a + sizeof_iso_zone)) = p + user_bytes c \<and>
    (\<forall>q\<in>{a, a + sizeof_iso_zone}. unat (iso_size (zones s' q)) = unat (zone_bytes c) \<and> \<not> flag (zones s' q) \<and>
      texts (kheap s') (callerinfo (zones s' q)) = symbol_of K ra \<and>
      (\<forall>x\<in>bytes_at (addr (zones s' q)) (unat (zone_bytes c)). bytes (kheap s') x = guard_byte))"
proof -
  from assms(1) obtain gs where laws: "heap_laws K" and inv: "inv2 K gs s" by (auto simp: client_inv_def)
  from do_alloc_ok [OF laws inv assms(2,3)] assms(4,5) obtain g where
    g: "holds K ((c, ra), p) g" "inv2 K (g # gs) s'" "new_block g s s'"
    "live (calls (kheap s')) = blocks_of K g @ handle_blocks K c (kheap s) @ live (calls (kheap s))" by auto
  from g(1) obtain a buffer base where
    pair: "g = pair_of a buffer ra base (request_of K c) (zone_bytes c) (base + zone_bytes c + user_bytes c)"
    and p: "p = base + zone_bytes c" by (auto simp: holds_def)
  have mem: "(base, request_of K c) \<in> set (live (calls (kheap s')))"
    by (simp add: g(4) blocks_of_def pair)
  have sb: "sound_block (base, request_of K c)" by (rule live_sound [OF guard_invD(1) [OF g(2)] mem])
  note fits = room_fits [OF assms(2) sb]
  have sz: "unat (ucast (zone_bytes c) :: u32) = unat (zone_bytes c)"
    using fits(1) by (simp add: fits_def unsigned_ucast_eq take_bit_nat_eq_self)
  have d: "described K s' g" using guard_invD(5) [OF g(2), of g] by simp
  then have ad: "addr (zones s' a) = base" "addr (zones s' (a + sizeof_iso_zone)) = p + user_bytes c"
    and z: "\<And>q. q \<in> {a, a + sizeof_iso_zone} \<Longrightarrow> iso_size (zones s' q) = ucast (zone_bytes c) \<and>
      callerinfo (zones s' q) = buffer \<and> texts (kheap s') buffer = symbol_of K ra"
    by (auto simp: described_def pair p)
  have nf: "\<not> flag (zones s' q) \<and> (\<forall>x\<in>bytes_at (addr (zones s' q)) (unat (zone_bytes c)).
      bytes (kheap s') x = guard_byte)" if "q \<in> {a, a + sizeof_iso_zone}" for q
    using g(3) that sz ad by (auto simp: new_block_def pair damaged_def p)
  show ?thesis
    using p g(3) mem fits(5) z sz nf ad by (intro exI [of _ a] exI [of _ base]) (auto simp: new_block_def pair)
qed

theorem alloc_registers_witness:
  "\<exists>s a. skmalloc demo_env 1 8 0 fresh = Inr (4116, s) \<and> iso_head s = [a + 48, a] \<and>
     addr (zones s a) = 4096 \<and> addr (zones s (a + 48)) = 4124"
proof -
  from demo_held obtain s where s: "do_alloc demo_env (Skmalloc 8 0, 1) fresh = Inr (4116, s)" by blast
  from alloc_registers [OF demo_client _ _ s] obtain a base where
    "(4116 :: u64) = base + 20" "iso_head s = [a + 48, a]" "addr (zones s a) = base"
    "addr (zones s (a + 48)) = 4116 + 8"
    by (auto simp: demo_nameable sizeof_iso_zone_def fresh_def)
  moreover from this(1) have "base = 4096" by (simp add: eq_diff_eq [symmetric])
  ultimately show ?thesis using s by auto
qed

text \<open>C26: Releasing a block with the matching function undoes its allocation: the list is as before
  and every block the checker took for it is given back; except that the allocation for DMA keeps
  the eight bytes it took for the bus address.\<close>

theorem alloc_free_roundtrip:
  assumes "client_inv K held s" and "sane_call c" and "nameable K ra"
    and "do_alloc K (c, ra) s = Inr (p, s1)" and "p \<noteq> 0"
  shows "\<exists>s2. do_free (c, ra) p bus s1 = Inr s2 \<and> iso_head s2 = iso_head s \<and>
    live (calls (kheap s2)) =
      (if is_dma c then [(answer K (calls (kheap s)) (Kmalloc 8 (GFP_KERNEL K)), Kmalloc 8 (GFP_KERNEL K))]
       else []) @ live (calls (kheap s))"
proof -
  from assms(1) obtain gs where laws: "heap_laws K" and inv: "inv2 K gs s" by (auto simp: client_inv_def)
  from do_alloc_ok [OF laws inv assms(2,3)] assms(4,5) obtain g where
    g: "holds K ((c, ra), p) g" "inv2 K (g # gs) s1"
    "live (calls (kheap s1)) = blocks_of K g @ handle_blocks K c (kheap s) @ live (calls (kheap s))" by auto
  from do_free_ok [of K "[]", simplified, OF g(2,1), of bus] obtain h where
    fr: "do_free (c, ra) p bus s1 = Inr (s1\<lparr>iso_head := nodes_of gs, kheap := h\<rparr>)"
    "live (calls h) = filter (\<lambda>b. b \<notin> set (blocks_of K g)) (live (calls (kheap s1)))" by blast
  have "distinct (blocks_of K g @ handle_blocks K c (kheap s) @ live (calls (kheap s)))"
    using live_distinct [OF guard_invD(1) [OF g(2)]] by (simp add: g(3))
  then have "live (calls h) = handle_blocks K c (kheap s) @ live (calls (kheap s))"
    unfolding fr(2) g(3) by (rule filter_prefix)
  moreover have "handle_blocks K c (kheap s) = (if is_dma c
      then [(answer K (calls (kheap s)) (Kmalloc 8 (GFP_KERNEL K)), Kmalloc 8 (GFP_KERNEL K))] else [])"
  proof (cases "is_dma c")
    case True
    then obtain n flags where "c = SdmaAlloc n flags" by (cases c) (auto simp: is_dma_def)
    with assms(4,5) have "answer K (calls (kheap s)) (Kmalloc 8 (GFP_KERNEL K)) \<noteq> 0"
      by (auto simp: do_alloc_dma kmalloc_def ask_def Let_def simp del: do_alloc.simps)
    with True show ?thesis by (simp add: handle_blocks_def)
  qed (simp add: handle_blocks_def)
  ultimately show ?thesis using fr(1) guard_invD(2) [OF inv] by simp
qed

theorem alloc_free_roundtrip_witness:
  "\<exists>s1 s2. skmalloc demo_env 1 8 0 fresh = Inr (4116, s1) \<and> skfree 4116 s1 = Inr s2 \<and>
     iso_head s2 = [] \<and> live (calls (kheap s2)) = []"
proof -
  from demo_held obtain s where s: "do_alloc demo_env (Skmalloc 8 0, 1) fresh = Inr (4116, s)" by blast
  from alloc_free_roundtrip [OF demo_client _ _ s] s show ?thesis
    by (auto simp: demo_nameable is_dma_def fresh_def)
qed

text \<open>C28: When the block was allocated but the text or the structures were not, the caller gets NULL
  and the block stays out: nobody can give it back.\<close>

theorem failed_alloc_leaks:
  assumes "client_inv K held s" and "sane_call c" and "nameable K ra" and "\<not> is_dma c"
    and "do_alloc K (c, ra) s = Inr (0, s')" and "base = answer K (calls (kheap s)) (request_of K c)" and "base \<noteq> 0"
  shows "(base, request_of K c) \<in> set (live (calls (kheap s'))) \<and> iso_head s' = iso_head s \<and>
    (\<forall>q\<in>set (iso_head s'). zones s' q = zones s q)"
proof -
  from assms(1) obtain gs where laws: "heap_laws K" and inv: "inv2 K gs s" by (auto simp: client_inv_def)
  have "do_alloc K (c, ra) s = guarded_alloc K c ra s"
    using assms(4) by (simp add: do_alloc_eq guarded_alloc_def)
  with guarded_alloc_ok [OF laws inv assms(2,3)] assms(5-7) show ?thesis
    by (auto simp: failed_alloc_def same_zones_def)
qed


theorem failed_alloc_leaks_witness:
  "\<exists>s'. skmalloc (refusing (Kmalloc 200 208)) 1 8 0 fresh = Inr (0, s') \<and>
     (4096, Kmalloc 48 0) \<in> set (live (calls (kheap s')))"
proof -
  let ?K = "refusing (Kmalloc 200 208)"
  let ?h = "(kheap fresh)\<lparr>calls := [Got (Kmalloc 48 0) 4096]\<rparr>"
  have "fill_zones 4096 4124 20 ?h = Inr (filled 20 4096 4124 ?h)"
    using fill_zones_ok [of ?h 4096 20 4124] by (simp add: in_live_def filled_def)
  then have "\<exists>s'. do_alloc ?K (Skmalloc 8 0, 1) fresh = Inr (0, s')"
    by (simp add: skmalloc_def kmalloc_def ask_def refusing_def demo_ask top_def fresh_def Let_def guard_block_def)
      (simp add: demo_env_def)
  then obtain s' where s': "do_alloc ?K (Skmalloc 8 0, 1) fresh = Inr (0, s')" by blast
  have "client_inv ?K [] fresh" by (rule started_client [OF refusing_laws]) (simp_all add: fresh_def)
  moreover have "nameable ?K 1" by (simp add: nameable_def refusing_def demo_env_def)
  moreover have "answer ?K (calls (kheap fresh)) (request_of ?K (Skmalloc 8 0)) = 4096"
    by (simp add: refusing_def demo_ask top_def fresh_def)
  ultimately show ?thesis using failed_alloc_leaks [OF _ _ _ _ s' refl] s' by (auto simp: is_dma_def)
qed

section \<open>Misuse and wrap-around\<close>

text \<open>Once the structures of a block are no longer live, the next scan meets them and faults.\<close>

lemma struct_gone:
  assumes inv: "inv2 K gs s" and gin: "pair_of a buffer ra base r i e \<in> set gs"
    and sub: "set (live (calls h)) \<subseteq> {x \<in> set (live (calls (kheap s))). fst x \<noteq> a}"
  shows "\<not> in_live h a (unat sizeof_iso_zone)"
proof
  let ?S = "(a, Kmalloc (2 * sizeof_iso_zone) (GFP_KERNEL K))"
  assume "in_live h a (unat sizeof_iso_zone)"
  then obtain b q where b: "(b, q) \<in> set (live (calls h))" "unat b \<le> unat a"
    "unat a + unat sizeof_iso_zone \<le> unat b + extent q" by (auto simp: in_live_iff)
  have "(b, q) = ?S"
  proof (rule live_same [OF guard_invD(1) [OF inv], of _ _ "unat a"])
    show "?S \<in> set (live (calls (kheap s)))"
      using guard_invD(6) [OF inv gin, of ?S] by (simp add: blocks_of_def)
  qed (use b sub in \<open>auto simp: sizeof_iso_zone_def\<close>)
  with b(1) sub show False by auto
qed

lemma release_missed:
  assumes "inv2 K gs s" and "p \<noteq> 0" and "\<forall>q\<in>set (iso_head s). addr (zones s q) \<noteq> p - 20"
  shows "skfree p s =
    bind_result (free_temp (unat sizeof_iso_zone) (last (0 # iso_head s)) s) (release Kfree (p - 20))"
proof -
  have "drop_zones (p - 20) s = Inr (last (0 # iso_head s), s)"
    using search_zone_miss [of "iso_head s" "node_live (unat sizeof_iso_zone) s"] inv_nodes_live [OF assms(1)] assms(3)
    by (simp add: drop_zones_def eq_commute)
  then show ?thesis using assms(2) by (simp add: skfree_def unguard_block_def)
qed

lemma release_then_scan:
  assumes inv: "inv2 K (gs0 @ [pair_of a buffer ra base r i e]) s"
    and head: "iso_head s = xs @ [a]" and size: "n = unat sizeof_iso_zone"
    and start: "S = s\<lparr>kheap := (kheap s)\<lparr>calls := Gave Kfree a # Gave Kfree buffer # calls (kheap s)\<rparr>\<rparr>"
  shows "release Kfree p S = Inl UseAfterFree \<or>
    (\<exists>s'. release Kfree p S = Inr s' \<and> check_iso s' = Inl UseAfterFree)"
proof (cases "give Kfree p (kheap S)")
  case (Inl f)
  then have "f = UseAfterFree" by (auto simp: give_def split: if_splits)
  with Inl show ?thesis by (simp add: release_def)
next
  case (Inr h)
  then have "set (live (calls h)) \<subseteq> {x \<in> set (live (calls (kheap s))). fst x \<noteq> a}"
    by (auto simp: start give_def split: if_splits)
  from struct_gone [OF inv _ this, of buffer ra base r i e] have "\<not> in_live h a n" by (simp add: size)
  then have "check_zones n (iso_head s) (s\<lparr>kheap := h\<rparr>) = Inl UseAfterFree"
    by (intro dead_node_faults [of a]) (simp_all add: head node_live_def)
  with Inr show ?thesis by (simp add: release_def check_iso_def start head size)
qed

text \<open>C27: Releasing a pointer the checker did not give out is never harmless. With an empty list the
  release dereferences NULL. Otherwise the loop leaves its last node, the oldest block's, in
  \<open>temp\<close>: its text and structures are freed while its zones stay on the list, so either the release
  itself faults or the next scan reads freed memory.\<close>

theorem unregistered_free:
  assumes "client_inv K held s" and "p \<noteq> 0" and "\<forall>q\<in>set (iso_head s). addr (zones s q) \<noteq> p - 20"
  shows "if held = [] then skfree p s = Inl NullDeref
    else skfree p s = Inl UseAfterFree \<or> (\<exists>s'. skfree p s = Inr s' \<and> check_iso s' = Inl UseAfterFree)"
proof -
  from assms(1) obtain gs where inv: "inv2 K gs s" and all: "list_all2 (holds K) held gs"
    by (auto simp: client_inv_def)
  note eq = release_missed [OF inv assms(2,3)]
  show ?thesis
  proof (cases "held = []")
    case True
    then have "iso_head s = []" using all guard_invD(2) [OF inv] by simp
    with True eq show ?thesis by (simp add: free_temp_def)
  next
    case False
    with all have "gs \<noteq> []" by auto
    then obtain gs0 g where gs: "gs = gs0 @ [g]" by (metis rev_exhaust)
    then have gin: "g \<in> set gs" by simp
    with all obtain y where "holds K y g" by (metis in_set_conv_nth list_all2_nthD2)
    then obtain a buffer base ra c where pair:
      "g = pair_of a buffer ra base (request_of K c) (zone_bytes c) (base + zone_bytes c + user_bytes c)"
      by (auto simp: holds_def split: prod.splits)
    have head: "iso_head s = (nodes_of gs0 @ [a + sizeof_iso_zone]) @ [a]"
      using guard_invD(2) [OF inv] by (simp add: gs pair)
    have "(g_struct g, base) \<in> set (g_nodes g)" by (simp add: pair)
    then have "skfree p s = release Kfree (p - 20)
      (s\<lparr>kheap := (kheap s)\<lparr>calls := Gave Kfree a # Gave Kfree buffer # calls (kheap s)\<rparr>\<rparr>)"
      using eq free_temp_ok(1) [OF inv gin, of base s] by (simp add: head pair)
    with release_then_scan [OF inv [unfolded gs pair] head refl refl] False show ?thesis by simp
  qed
qed

theorem unregistered_free_witness:
  "skfree 100 fresh = Inl NullDeref \<and> (\<exists>s. skmalloc demo_env 1 8 0 fresh = Inr (4116, s) \<and>
     (skfree 100 s = Inl UseAfterFree \<or> (\<exists>s'. skfree 100 s = Inr s' \<and> check_iso s' = Inl UseAfterFree)))"
proof
  show "skfree 100 fresh = Inl NullDeref"
    using unregistered_free [OF demo_client, of 100] by (simp add: fresh_def)
  from demo_held obtain s where s: "do_alloc demo_env (Skmalloc 8 0, 1) fresh = Inr (4116, s)"
    "client_inv demo_env [((Skmalloc 8 0, 1), 4116)] s" by blast
  from s(2) obtain gs where inv: "inv2 demo_env gs s" and all: "list_all2 (holds demo_env) [((Skmalloc 8 0, 1), 4116)] gs"
    by (auto simp: client_inv_def)
  then obtain g where gs: "gs = [g]" "holds demo_env ((Skmalloc 8 0, 1), 4116) g"
    by (auto simp: list_all2_Cons1)
  then obtain a buffer base where g: "g = pair_of a buffer 1 base (Kmalloc 48 0) 20 (base + 20 + 8)"
    "(4116 :: u64) = base + 20" by (auto simp: holds_def)
  have "base = 4096" using g(2) by (simp add: eq_diff_eq [symmetric])
  then have "\<forall>q\<in>set (iso_head s). addr (zones s q) \<noteq> 100 - 20"
    using guard_invD(5) [OF inv, of g] guard_invD(2) [OF inv] by (auto simp: gs g(1) described_def)
  from unregistered_free [OF s(2) _ this] s(1) show "\<exists>s. skmalloc demo_env 1 8 0 fresh = Inr (4116, s) \<and>
     (skfree 100 s = Inl UseAfterFree \<or> (\<exists>s'. skfree 100 s = Inr s' \<and> check_iso s' = Inl UseAfterFree))"
    by auto
qed


lemma fill_zones_calls: "fill_zones p q n h = Inr h' \<Longrightarrow> calls h' = calls h"
  by (induction n arbitrary: p q h)
    (auto simp: bind_result_def poke_def split: sum.splits if_splits)

lemma list_add_heap: "list_add n p s = Inr s' \<Longrightarrow> kheap s' = kheap s"
  by (auto simp: list_add_def split: list.splits if_splits)

lemma kmalloc_live: "kmalloc K n fl h = (p, h') \<Longrightarrow> set (live (calls h)) \<subseteq> set (live (calls h'))"
  unfolding kmalloc_def using ask_live by fastforce

lemma sprint_calls: "sprint_symbol K b a h = Inr h' \<Longrightarrow> calls h' = calls h"
  by (auto simp: sprint_symbol_def Let_def split: if_splits)

lemma guard_block_live:
  assumes "guard_block K ra n first second ret s = Inr (p, s')"
  shows "set (live (calls (kheap s))) \<subseteq> set (live (calls (kheap s'))) \<and> (p = 0 \<or> p = ret)"
proof -
  from assms obtain h0 where f: "fill_zones first second (unat n) (kheap s) = Inr h0"
    unfolding guard_block_def bind_result_Inr by blast
  obtain buffer h1 where b: "kmalloc K 200 (GFP_KERNEL K) h0 = (buffer, h1)" by fastforce
  note up = kmalloc_live [OF b] fill_zones_calls [OF f]
  note res = assms [unfolded guard_block_def f bind_result_simps b Let_def prod.case]
  show ?thesis
  proof (cases "buffer = 0 \<or> ra = 0")
    case True
    with res up show ?thesis by (auto simp: say_def)
  next
    case False
    from res [unfolded if_not_P [OF False]] obtain h2 where sp: "sprint_symbol K buffer ra h1 = Inr h2"
      unfolding bind_result_Inr by blast
    obtain a h3 where a: "kmalloc K (2 * sizeof_iso_zone) (GFP_KERNEL K) h2 = (a, h3)" by fastforce
    have up3: "set (live (calls (kheap s))) \<subseteq> set (live (calls h3))"
      using up kmalloc_live [OF a] sprint_calls [OF sp] by auto
    note res' = res [unfolded if_not_P [OF False] sp bind_result_simps a prod.case]
    show ?thesis
    proof (cases "a = 0")
      case True
      with res' up3 show ?thesis by (auto simp: say_def)
    next
      case nz: False
      from res' [unfolded if_not_P [OF nz]] have "kheap s' = h3 \<and> p = ret"
        by (auto simp: bind_result_Inr dest!: list_add_heap)
      with up3 show ?thesis by simp
    qed
  qed
qed

text \<open>The sum of the size and the zones is not checked for wrap-around: for a size within forty
  bytes of \<open>2 ^ 64\<close>, a block of fewer than forty bytes is asked for, and a pointer into it is
  returned as if it had all the bytes requested behind it.\<close>

theorem skmalloc_wraps:
  assumes "skmalloc K ra n flags s = Inr (p, s')" and "p \<noteq> 0" and "2 ^ 64 \<le> unat n + 40"
  shows "\<exists>base. p = base + 20 \<and> (base, Kmalloc (n + 40) flags) \<in> set (live (calls (kheap s'))) \<and>
    extent (Kmalloc (n + 40) flags) < 40 \<and> extent (Kmalloc (n + 40) flags) < unat n"
proof -
  obtain base h where ask: "ask K (Kmalloc (n + 40) flags) (kheap s) = (base, h)" by fastforce
  have nz: "base \<noteq> 0" using assms(1,2) ask by (auto simp: skmalloc_def kmalloc_def)
  then have blk: "guard_block K ra 20 base (base + 20 + n) (base + 20) (s\<lparr>kheap := h\<rparr>) = Inr (p, s')"
    using assms(1) ask by (simp add: skmalloc_def kmalloc_def)
  have "(base, Kmalloc (n + 40) flags) \<in> set (live (calls (kheap s')))"
    using guard_block_live [OF blk] ask_live [OF ask] nz by auto
  moreover have "unat (n + 40) = unat n + 40 - 2 ^ 64" using assms(3) by (simp add: unat_plus_if')
  moreover have "unat n < 2 ^ 64" using unsigned_less [of n] by simp
  ultimately show ?thesis
    using guard_block_live [OF blk] assms(2,3) by (intro exI [of _ base]) auto
qed

theorem skmalloc_wraps_witness:
  "\<exists>s'. skmalloc demo_env 1 (- 15) 0 fresh = Inr (4116, s') \<and>
     (\<exists>base. 4116 = base + 20 \<and> (base, Kmalloc 25 0) \<in> set (live (calls (kheap s'))))"
proof -
  let ?h = "(kheap fresh)\<lparr>calls := [Got (Kmalloc 25 0) 4096]\<rparr>"
  have f: "fill_zones 4096 4101 20 ?h = Inr (filled 20 4096 4101 ?h)"
    using fill_zones_ok [of ?h 4096 20 4101] by (simp add: in_live_def filled_def)
  then have "\<exists>s'. skmalloc demo_env 1 (- 15) 0 fresh = Inr (4116, s')"
    by (simp add: skmalloc_def kmalloc_def ask_def demo_ask top_def fresh_def Let_def guard_block_def
      sprint_symbol_def in_live_def list_add_def node_live_def demo_env_def sizeof_iso_zone_def filled_def)
  then obtain s' where s': "skmalloc demo_env 1 (- 15) 0 fresh = Inr (4116, s')" by blast
  from skmalloc_wraps [OF s'] s' show ?thesis by auto
qed

section \<open>The file under /proc\<close>

fun overflow_texts :: "seq_line list \<Rightarrow> string list" where
  "overflow_texts [] = []"
| "overflow_texts (SeqOverflow t # ls) = t # overflow_texts ls"
| "overflow_texts (SeqNewline # ls) = overflow_texts ls"

lemma overflow_texts_append [simp]:
  "overflow_texts (xs @ ys) = overflow_texts xs @ overflow_texts ys"
  by (induction xs rule: overflow_texts.induct) auto

lemma overflow_texts_shown:
  "overflow_texts (concat (map (shown s) ps)) = map (owner_text s) (filter (bad s) ps)"
  by (induction ps) (auto simp: shown_def bad_def)

text \<open>C29: Reading the file shows exactly the overflows the next scan will print, in the same order,
  without consuming them; after the scan the file shows none of them again and neither does a
  second scan print them.\<close>

theorem proc_shows_next_scan:
  assumes "\<forall>p\<in>set (iso_head s). readable (unat sizeof_iso_zone) s p" and "distinct (iso_head s)"
  shows "\<exists>s' ls ls'. check_iso s = Inr s' \<and> my_seq_show s = Inr ls \<and> my_seq_show s' = Inr ls' \<and>
    messages s' = messages s @ map MemoryOverflow (overflow_texts ls) \<and> overflow_texts ls' = [] \<and>
    check_iso s' = Inr s'"
proof -
  let ?n = "unat sizeof_iso_zone" and ?ps = "iso_head s"
  let ?t = "scanned ?ps s"
  have h: "iso_head ?t = ?ps" by (simp add: scanned_def)
  have r: "\<forall>p\<in>set ?ps. readable ?n ?t p"
    using assms(1) by (auto simp: readable_def node_live_def scanned_def)
  have "check_iso s = Inr ?t" using check_zones_ok [OF assms] by (auto simp: check_iso_def scanned_def)
  moreover have "my_seq_show s = Inr (concat (map (shown s) ?ps))"
    using show_zones_ok [OF assms(1)] by (simp add: my_seq_show_def)
  moreover have "my_seq_show ?t = Inr (concat (map (shown ?t) ?ps))"
    using show_zones_ok [OF r] h by (simp add: my_seq_show_def)
  moreover have "messages ?t = messages s @ map MemoryOverflow (overflow_texts (concat (map (shown s) ?ps)))"
    by (simp add: overflow_texts_shown scanned_def)
  moreover have "overflow_texts (concat (map (shown ?t) ?ps)) = []"
    by (simp add: overflow_texts_shown scan_again)
  moreover have "scanned ?ps ?t = ?t"
    by (rule scanned_id) (use scan_again [of ?ps s] in \<open>auto simp: filter_empty_conv\<close>)
  then have "check_iso ?t = Inr ?t"
    using check_zones_ok [OF r assms(2)] h by (simp add: check_iso_def)
  ultimately show ?thesis by blast
qed

theorem proc_shows_next_scan_witness:
  "\<exists>s s' ls. skmalloc demo_env 1 8 0 fresh = Inr (4116, s) \<and> check_iso s = Inr s' \<and>
     my_seq_show s = Inr ls \<and> messages s' = messages s @ map MemoryOverflow (overflow_texts ls)"
proof -
  from demo_held obtain s where s: "do_alloc demo_env (Skmalloc 8 0, 1) fresh = Inr (4116, s)"
    "client_inv demo_env [((Skmalloc 8 0, 1), 4116)] s" by blast
  from s(2) obtain gs where inv: "inv2 demo_env gs s" by (auto simp: client_inv_def)
  have "distinct (iso_head s)" using nodes_distinct [OF inv] guard_invD(2) [OF inv] by simp
  from proc_shows_next_scan [OF inv_list_readable [OF inv] this] s(1) show ?thesis by auto
qed

end
