(* ===== verification/Guard_Thread.thy ===== *)
theory Guard_Thread
  imports Guard_Two_Props
begin

text \<open>
  The kernel thread of the overflow checker with two zones, mem_overflow/code/mem_overflow_check.c,
  while other code writes anywhere during its sleeps: what it has reported after any number of rounds.
\<close>






end
