(* ===== verification/Guard_Smp.thy ===== *)
theory Guard_Smp
  imports Guard_Two_Ops
begin

text \<open>
  The overflow checker with two zones on several processors, mem_overflow/code/mem_overflow_check.c.
  Theory Guard_Two has each wrapper as one operation; here a wrapper is the sequence of its sections:
  every call into an allocator and every stretch of work on memory that no other processor knows of is
  one, and so is each stretch under \<open>list_lock\<close>, except the scan, which holds the lock from zone to zone
  while the sections of the others go on.
\<close>

section \<open>Places\<close>

text \<open>
  Where a processor is. In an allocation it has nothing yet, the block for the bus address, the block,
  the zones filled, the buffer, the text, the structures, the structures written. In a release the zones
  are unlinked (\<open>temp\<close> is where the search ended), the text is freed, the structures are freed. The scan
  holds the lock and has some zones to go.
\<close>

datatype place =
    Outside
  | Entered call u64
  | Handled call u64
  | Got_block call u64 u64
  | Zones_filled call u64 u64
  | Got_text call u64 u64 u64
  | Named call u64 u64 u64
  | Got_struct call u64 u64 u64 u64
  | Described call u64 u64 u64 u64
  | Unlinked release u64 u64
  | Text_freed release u64 u64
  | Struct_freed release u64
  | Scanning "u64 list"

section \<open>Sections without the lock\<close>

definition ask_block :: "heap_env \<Rightarrow> call \<Rightarrow> u64 \<Rightarrow> guard2 \<Rightarrow> place \<times> guard2" where
  "ask_block K c ra s =
     (let (base, h) = ask K (request_of K c) (kheap s); s = s\<lparr>kheap := h\<rparr> in
      if base = 0 then (Outside, say AllocationFailed s) else (Got_block c ra base, s))"

text \<open>\<open>None\<close> where the processor is in no wrapper, or the next section is under the lock.\<close>

fun own_section :: "heap_env \<Rightarrow> place \<Rightarrow> guard2 \<Rightarrow> (place \<times> guard2) result option" where
  "own_section K (Entered c ra) s =
     (if is_dma c
      then let (handle, h) = kmalloc K 8 (GFP_KERNEL K) (kheap s); s = s\<lparr>kheap := h\<rparr> in
        Some (Inr (if handle = 0 then (Outside, say HandleFailed s) else (Handled c ra, s)))
      else Some (Inr (ask_block K c ra s)))"
| "own_section K (Handled c ra) s = Some (Inr (ask_block K c ra s))"
| "own_section K (Got_block c ra base) s =
     Some (bind_result (fill_zones base (base + zone_bytes c + user_bytes c) (unat (zone_bytes c)) (kheap s))
       (\<lambda>h. Inr (Zones_filled c ra base, s\<lparr>kheap := h\<rparr>)))"
| "own_section K (Zones_filled c ra base) s =
     (let (buffer, h) = kmalloc K 200 (GFP_KERNEL K) (kheap s); s = s\<lparr>kheap := h\<rparr> in
      Some (Inr (if buffer = 0 \<or> ra = 0 then (Outside, say BufferFailed s)
                 else (Got_text c ra base buffer, s))))"
| "own_section K (Got_text c ra base buffer) s =
     Some (bind_result (sprint_symbol K buffer ra (kheap s))
       (\<lambda>h. Inr (Named c ra base buffer, s\<lparr>kheap := h\<rparr>)))"
| "own_section K (Named c ra base buffer) s =
     (let (a, h) = kmalloc K (2 * sizeof_iso_zone) (GFP_KERNEL K) (kheap s); s = s\<lparr>kheap := h\<rparr> in
      Some (Inr (if a = 0 then (Outside, say StructFailed s) else (Got_struct c ra base buffer a, s))))"
| "own_section K (Got_struct c ra base buffer a) s =
     (let zone = (\<lambda>p. \<lparr>callerinfo = buffer, iso_size = ucast (zone_bytes c), addr = p, flag = False\<rparr>) in
      Some (Inr (Described c ra base buffer a, s\<lparr>zones := (zones s)
        (a := zone base, a + sizeof_iso_zone := zone (base + zone_bytes c + user_bytes c))\<rparr>)))"
| "own_section K (Unlinked q base temp) s =
     Some (if temp = 0 then Inl NullDeref
       else if \<not> node_live (unat sizeof_iso_zone) s temp then Inl UseAfterFree
       else bind_result (give Kfree (callerinfo (zones s temp)) (kheap s))
         (\<lambda>h. Inr (Text_freed q base temp, s\<lparr>kheap := h\<rparr>)))"
| "own_section K (Text_freed q base temp) s =
     Some (bind_result (give Kfree temp (kheap s)) (\<lambda>h. Inr (Struct_freed q base, s\<lparr>kheap := h\<rparr>)))"
| "own_section K (Struct_freed q base) s = Some (bind_result (release q base s) (\<lambda>s. Inr (Outside, s)))"
| "own_section K _ s = None"

section \<open>Sections under the lock\<close>

text \<open>The insertion of both structures; the release starts with \<open>drop_zones\<close>.\<close>

definition insert_zones :: "u64 \<Rightarrow> guard2 \<Rightarrow> guard2 result" where
  "insert_zones a s = bind_result (list_add (unat sizeof_iso_zone) a s)
     (list_add (unat sizeof_iso_zone) (a + sizeof_iso_zone))"

text \<open>
  \<open>in_use\<close> are the blocks that the clients hold, newest first, as in theory Guard_Contract: what a
  wrapper has returned and nobody has called a release function for.
\<close>

record guard_smp =
  guard :: guard2
  list_lock :: "nat option"
  place_of :: "nat \<Rightarrow> place"
  in_use :: "((call \<times> u64) \<times> u64) list"

definition go_on :: "nat \<Rightarrow> place \<Rightarrow> guard2 \<Rightarrow> guard_smp \<Rightarrow> guard_smp" where
  "go_on c pt g s = s\<lparr>guard := g, place_of := (place_of s)(c := pt)\<rparr>"

text \<open>
  One section of the processor \<open>c\<close>. Outside the wrappers it runs a client, which may call an allocation
  function, call the release function for a block it holds, or write where \<open>W\<close> allows it, or the thread.
\<close>

inductive guard_step ::
  "heap_env \<Rightarrow> (((call \<times> u64) \<times> u64) list \<Rightarrow> u64 \<Rightarrow> bool) \<Rightarrow> nat \<Rightarrow> guard_smp \<Rightarrow> guard_smp \<Rightarrow> bool"
  for K W c s
where
  enter_wrapper: "place_of s c = Outside \<Longrightarrow> sane_call cl \<Longrightarrow> nameable K ra \<Longrightarrow>
    guard_step K W c s (go_on c (Entered cl ra) (guard s) s)"
| own_run: "own_section K (place_of s c) (guard s) = Some (Inr (pt, g)) \<Longrightarrow> guard_step K W c s (go_on c pt g s)"
| register_zones: "place_of s c = Described cl ra base buffer a \<Longrightarrow> list_lock s = None \<Longrightarrow>
    insert_zones a (guard s) = Inr g \<Longrightarrow>
    guard_step K W c s (go_on c Outside g (s\<lparr>in_use := ((cl, ra), base + zone_bytes cl) # in_use s\<rparr>))"
| unlink_zones: "place_of s c = Outside \<Longrightarrow> ((cl, ra), p) \<in> set (in_use s) \<Longrightarrow> list_lock s = None \<Longrightarrow>
    drop_zones (p - zone_bytes cl) (guard s) = Inr (temp, g) \<Longrightarrow>
    guard_step K W c s (go_on c (Unlinked (release_of cl bus) (p - zone_bytes cl) temp) g
      (s\<lparr>in_use := remove1 ((cl, ra), p) (in_use s)\<rparr>))"
| client_write: "place_of s c = Outside \<Longrightarrow> W (in_use s) x \<Longrightarrow>
    guard_step K W c s (s\<lparr>guard := store x b (guard s)\<rparr>)"
| scan_start: "place_of s c = Outside \<Longrightarrow> list_lock s = None \<Longrightarrow>
    guard_step K W c s (go_on c (Scanning (iso_head (guard s))) (guard s) (s\<lparr>list_lock := Some c\<rparr>))"
| scan_one: "place_of s c = Scanning (q # ps) \<Longrightarrow> check_zone (unat sizeof_iso_zone) q (guard s) = Inr g \<Longrightarrow>
    guard_step K W c s (go_on c (Scanning ps) g s)"
| scan_end: "place_of s c = Scanning [] \<Longrightarrow> guard_step K W c s (go_on c Outside (guard s) (s\<lparr>list_lock := None\<rparr>))"

inductive guard_run :: "heap_env \<Rightarrow> (((call \<times> u64) \<times> u64) list \<Rightarrow> u64 \<Rightarrow> bool) \<Rightarrow> guard_smp \<Rightarrow> guard_smp \<Rightarrow> bool" for K W where
  guard_refl: "guard_run K W s s"
| guard_next: "guard_run K W s s' \<Longrightarrow> guard_step K W c s' s'' \<Longrightarrow> guard_run K W s s''"

text \<open>A section that the processor may run now raises a fault.\<close>

definition section_faults :: "heap_env \<Rightarrow> guard_smp \<Rightarrow> nat \<Rightarrow> bool" where
  "section_faults K s c \<longleftrightarrow> (\<exists>e.
     own_section K (place_of s c) (guard s) = Some (Inl e) \<or>
     (\<exists>cl ra base buffer a. place_of s c = Described cl ra base buffer a \<and> list_lock s = None \<and>
        insert_zones a (guard s) = Inl e) \<or>
     (\<exists>q ps. place_of s c = Scanning (q # ps) \<and> check_zone (unat sizeof_iso_zone) q (guard s) = Inl e) \<or>
     (\<exists>cl ra p. place_of s c = Outside \<and> ((cl, ra), p) \<in> set (in_use s) \<and> list_lock s = None \<and>
        drop_zones (p - zone_bytes cl) (guard s) = Inl e))"

text \<open>Writes: inside the room of a block held, or anywhere.\<close>

definition in_room :: "((call \<times> u64) \<times> u64) list \<Rightarrow> u64 \<Rightarrow> bool" where
  "in_room hs x \<longleftrightarrow> (\<exists>((c, ra), p)\<in>set hs. \<exists>i<unat (user_bytes c). x = p + of_nat i)"

definition anywhere :: "((call \<times> u64) \<times> u64) list \<Rightarrow> u64 \<Rightarrow> bool" where
  "anywhere hs x \<longleftrightarrow> True"

text \<open>All processors outside the wrappers, nothing held, over this state of the checker.\<close>

definition guards_at_rest :: "guard2 \<Rightarrow> guard_smp" where
  "guards_at_rest g = \<lparr>guard = g, list_lock = None, place_of = (\<lambda>_. Outside), in_use = []\<rparr>"

section \<open>Interrupts\<close>

text \<open>
  \<open>kfree\<close> may be called from an interrupt handler, so a client may release a block there; the wrappers and
  the thread take the lock with \<open>spin_lock\<close> and leave interrupts on. \<open>spin\<close> are the processors
  whose scan an interrupt handler has scan_interrupted that waits for the lock.
\<close>

inductive guard_irq_step ::
  "heap_env \<Rightarrow> (((call \<times> u64) \<times> u64) list \<Rightarrow> u64 \<Rightarrow> bool) \<Rightarrow> guard_smp \<times> nat set \<Rightarrow> guard_smp \<times> nat set \<Rightarrow> bool" for K W
where
  other_runs: "c \<notin> spin \<Longrightarrow> guard_step K W c s s' \<Longrightarrow> guard_irq_step K W (s, spin) (s', spin)"
| scan_interrupted: "place_of s c = Scanning ps \<Longrightarrow> guard_irq_step K W (s, spin) (s, insert c spin)"
| release_handled: "c \<in> spin \<Longrightarrow> list_lock s = None \<Longrightarrow> ((cl, ra), p) \<in> set (in_use s) \<Longrightarrow>
    unguard_block (p - zone_bytes cl) (release_of cl bus) (guard s) = Inr g \<Longrightarrow>
    guard_irq_step K W (s, spin) (s\<lparr>guard := g, in_use := remove1 ((cl, ra), p) (in_use s)\<rparr>, spin - {c})"

inductive guard_irq_run ::
  "heap_env \<Rightarrow> (((call \<times> u64) \<times> u64) list \<Rightarrow> u64 \<Rightarrow> bool) \<Rightarrow> guard_smp \<times> nat set \<Rightarrow> guard_smp \<times> nat set \<Rightarrow> bool" for K W
where
  guard_irq_refl: "guard_irq_run K W x x"
| guard_irq_next: "guard_irq_run K W x y \<Longrightarrow> guard_irq_step K W y z \<Longrightarrow> guard_irq_run K W x z"

end
