(* ===== verification/Guard_Smp_Inv.thy ===== *)
theory Guard_Smp_Inv
  imports Guard_Smp
begin

text \<open>
  The invariant of the overflow checker on several processors: what each processor in a wrapper owns,
  which no other processor and no block on the list shares with it, and what its sections do to that.
\<close>

section \<open>Blocks and bytes\<close>

definition within :: "u64 \<Rightarrow> u64 \<times> request \<Rightarrow> bool" where
  "within x y \<longleftrightarrow> unat (fst y) \<le> unat x \<and> unat x < unat (fst y) + extent (snd y)"

lemma within_same:
  "heap_ok h \<Longrightarrow> y \<in> set (live (calls h)) \<Longrightarrow> z \<in> set (live (calls h)) \<Longrightarrow> within x y \<Longrightarrow> within x z \<Longrightarrow> y = z"
  by (auto simp: within_def intro: live_same [where a = "unat x"])

text \<open>A structure on the list and the bytes of its zone lie in blocks of the list.\<close>

lemma listed_within:
  assumes inv: "guard_inv n K gs s" and q: "q \<in> set (iso_head s)"
  obtains g where "g \<in> set gs" "within q (g_struct g, Kmalloc (g_struct_size g) (GFP_KERNEL K))"
    "\<And>x. x \<in> bytes_at (addr (zones s q)) (unat (iso_size (zones s q))) \<Longrightarrow> within x (g_base g, g_req g)"
proof -
  from q obtain g z where g: "g \<in> set gs" "(q, z) \<in> set (g_nodes g)"
    by (auto simp: guard_invD(2) [OF inv] set_nodes_of)
  note sh = shapedD [OF guard_invD(4) [OF inv g(1)] g(2)]
  have "addr (zones s q) = z" "iso_size (zones s q) = g_size g"
    using guard_invD(5) [OF inv g(1)] g(2) by (auto simp: described_def)
  with sh that [OF g(1)] show ?thesis by (auto simp: within_def bytes_at_def)
qed

text \<open>Blocks a processor owns: out, different, and none of them of a block on the list.\<close>

definition owned_blocks :: "heap_env \<Rightarrow> guarded list \<Rightarrow> guard2 \<Rightarrow> (u64 \<times> request) list \<Rightarrow> bool" where
  "owned_blocks K gs s bl \<longleftrightarrow> distinct (map fst bl) \<and> set bl \<subseteq> set (live (calls (kheap s))) \<and>
     (\<forall>b\<in>set bl. unused K gs (fst b))"

lemma owned_Nil [simp]: "owned_blocks K gs s []"
  by (simp add: owned_blocks_def)

lemma listed_not_owned:
  assumes inv: "inv2 K gs s" and "owned_blocks K gs s bl" and b: "b \<in> set bl"
    and g: "g \<in> set gs" "y \<in> set (blocks_of K g)" and "within x y"
  shows "\<not> within x b"
proof
  assume "within x b"
  with assms have "b = y"
    by (intro within_same [OF guard_invD(1) [OF inv] _ guard_invD(6) [OF inv g]]) (auto simp: owned_blocks_def)
  with assms show False by (auto simp: owned_blocks_def unused_def)
qed

lemma zone_not_owned:
  assumes "inv2 K gs s" and "owned_blocks K gs s bl" and "b \<in> set bl" and "q \<in> set (iso_head s)"
  shows "\<not> within q b" and "x \<in> bytes_at (addr (zones s q)) (unat (iso_size (zones s q))) \<Longrightarrow> \<not> within x b"
proof -
  from listed_within [OF assms(1,4)] obtain g where
    "g \<in> set gs" "within q (g_struct g, Kmalloc (g_struct_size g) (GFP_KERNEL K))"
    "\<And>x. x \<in> bytes_at (addr (zones s q)) (unat (iso_size (zones s q))) \<Longrightarrow> within x (g_base g, g_req g)" by metis
  moreover have "(g_struct g, Kmalloc (g_struct_size g) (GFP_KERNEL K)) \<in> set (blocks_of K g)"
    "(g_base g, g_req g) \<in> set (blocks_of K g)" for g by (simp_all add: blocks_of_def)
  ultimately show "\<not> within q b"
    "x \<in> bytes_at (addr (zones s q)) (unat (iso_size (zones s q))) \<Longrightarrow> \<not> within x b"
    using listed_not_owned [OF assms(1-3)] by blast+
qed

section \<open>What a processor knows at each place\<close>

abbreviation text_block :: "heap_env \<Rightarrow> u64 \<Rightarrow> u64 \<times> request" where
  "text_block K p \<equiv> (p, Kmalloc 200 (GFP_KERNEL K))"

abbreviation struct_block :: "heap_env \<Rightarrow> u64 \<Rightarrow> u64 \<times> request" where
  "struct_block K p \<equiv> (p, Kmalloc (2 * sizeof_iso_zone) (GFP_KERNEL K))"

definition to_guard :: "heap_env \<Rightarrow> call \<Rightarrow> u64 \<Rightarrow> u64 \<Rightarrow> u64 \<Rightarrow> u64 \<Rightarrow> guarded" where
  "to_guard K c ra base buffer a =
     pair_of a buffer ra base (request_of K c) (zone_bytes c) (base + zone_bytes c + user_bytes c)"

fun place_ok :: "heap_env \<Rightarrow> guard2 \<Rightarrow> place \<Rightarrow> (u64 \<times> request) list \<Rightarrow> bool" where
  "place_ok K s Outside bl \<longleftrightarrow> bl = []"
| "place_ok K s (Entered c ra) bl \<longleftrightarrow> bl = [] \<and> sane_call c \<and> nameable K ra"
| "place_ok K s (Handled c ra) bl \<longleftrightarrow> bl = [] \<and> sane_call c \<and> nameable K ra"
| "place_ok K s (Got_block c ra base) bl \<longleftrightarrow>
     bl = [(base, request_of K c)] \<and> sane_call c \<and> nameable K ra"
| "place_ok K s (Zones_filled c ra base) bl \<longleftrightarrow>
     bl = [(base, request_of K c)] \<and> sane_call c \<and> nameable K ra"
| "place_ok K s (Got_text c ra base buffer) bl \<longleftrightarrow>
     bl = [text_block K buffer, (base, request_of K c)] \<and> sane_call c \<and> nameable K ra"
| "place_ok K s (Named c ra base buffer) bl \<longleftrightarrow>
     bl = [text_block K buffer, (base, request_of K c)] \<and> sane_call c \<and> nameable K ra \<and>
     texts (kheap s) buffer = symbol_of K ra"
| "place_ok K s (Got_struct c ra base buffer a) bl \<longleftrightarrow>
     bl = [struct_block K a, text_block K buffer, (base, request_of K c)] \<and> sane_call c \<and> nameable K ra \<and>
     texts (kheap s) buffer = symbol_of K ra"
| "place_ok K s (Described c ra base buffer a) bl \<longleftrightarrow>
     bl = [struct_block K a, text_block K buffer, (base, request_of K c)] \<and> sane_call c \<and> nameable K ra \<and>
     described K s (to_guard K c ra base buffer a) \<and> \<not> flag (zones s a) \<and> \<not> flag (zones s (a + sizeof_iso_zone))"
| "place_ok K s (Unlinked q base temp) bl \<longleftrightarrow>
     (\<exists>r. bl = [struct_block K temp, text_block K (callerinfo (zones s temp)), (base, r)] \<and> releases q r)"
| "place_ok K s (Text_freed q base temp) bl \<longleftrightarrow> (\<exists>r. bl = [struct_block K temp, (base, r)] \<and> releases q r)"
| "place_ok K s (Struct_freed q base) bl \<longleftrightarrow> (\<exists>r. bl = [(base, r)] \<and> releases q r)"
| "place_ok K s (Scanning ps) bl \<longleftrightarrow> bl = []"

text \<open>It depends on nothing but the contents of the blocks owned.\<close>

definition agree :: "(u64 \<times> request) list \<Rightarrow> guard2 \<Rightarrow> guard2 \<Rightarrow> bool" where
  "agree bl s s' \<longleftrightarrow> (\<forall>b\<in>set bl. texts (kheap s') (fst b) = texts (kheap s) (fst b) \<and>
     (\<forall>x. within x b \<longrightarrow> zones s' x = zones s x))"

lemma agreeD:
  "agree bl s s' \<Longrightarrow> (b, r) \<in> set bl \<Longrightarrow> texts (kheap s') b = texts (kheap s) b"
  "agree bl s s' \<Longrightarrow> y \<in> set bl \<Longrightarrow> within x y \<Longrightarrow> zones s' x = zones s x"
  by (force simp: agree_def)+

lemma struct_within:
  assumes "sound_block (struct_block K a)"
  shows "within a (struct_block K a)" and "within (a + sizeof_iso_zone) (struct_block K a)"
    and "a + sizeof_iso_zone \<noteq> a"
proof -
  have "unat a + 96 < 2 ^ 64" using assms by (simp add: sound_block_def sizeof_iso_zone_def)
  then have "unat (a + sizeof_iso_zone) = unat a + 48" by (simp add: sizeof_iso_zone_def unat_plus_if')
  then show "within a (struct_block K a)" "within (a + sizeof_iso_zone) (struct_block K a)"
    by (simp_all add: within_def sizeof_iso_zone_def)
  show "a + sizeof_iso_zone \<noteq> a" by (simp add: sizeof_iso_zone_def)
qed

lemma place_ok_agree:
  assumes "place_ok K s pt bl" and "agree bl s s'" and "\<forall>b\<in>set bl. sound_block b"
  shows "place_ok K s' pt bl"
proof (cases pt)
  case (Described c ra base buffer a)
  with assms(1) have bl: "struct_block K a \<in> set bl" "text_block K buffer \<in> set bl" by simp_all
  from bl(1) assms(3) have "sound_block (struct_block K a)" by blast
  note w = struct_within [OF this]
  have "zones s' a = zones s a" "zones s' (a + sizeof_iso_zone) = zones s (a + sizeof_iso_zone)"
    using agreeD(2) [OF assms(2) bl(1)] w(1,2) by blast+
  with assms(1) agreeD(1) [OF assms(2) bl(2)] show ?thesis
    by (simp add: Described described_def to_guard_def)
next
  case (Unlinked q base temp)
  with assms(1) have bl: "struct_block K temp \<in> set bl" by auto
  with assms(3) have "sound_block (struct_block K temp)" by blast
  from agreeD(2) [OF assms(2) bl struct_within(1) [OF this]] assms(1) show ?thesis by (simp add: Unlinked)
qed (use assms(1,2) in \<open>auto simp: agree_def\<close>)

section \<open>What a section without the lock changes\<close>

text \<open>
  Nothing outside the blocks the processor owns; \<open>bl'\<close>, which it owns afterwards, has no other new
  blocks than ones that were not out; and it reports no overflow.
\<close>

definition own_change ::
  "heap_env \<Rightarrow> guarded list \<Rightarrow> (u64 \<times> request) list \<Rightarrow> guard2 \<Rightarrow> (u64 \<times> request) list \<Rightarrow> guard2 \<Rightarrow> bool" where
  "own_change K gs bl s bl' s' \<longleftrightarrow> inv2 K gs s' \<and> owned_blocks K gs s' bl' \<and> iso_head s' = iso_head s \<and>
     (\<forall>y\<in>set (live (calls (kheap s))) - set bl. y \<in> set (live (calls (kheap s'))) \<and>
        texts (kheap s') (fst y) = texts (kheap s) (fst y) \<and>
        (\<forall>x. within x y \<longrightarrow> zones s' x = zones s x \<and> bytes (kheap s') x = bytes (kheap s) x)) \<and>
     (\<forall>y\<in>set bl'. y \<in> set bl \<or> (\<forall>z\<in>set (live (calls (kheap s))). fst y \<noteq> fst z)) \<and>
     (\<exists>ms. messages s' = messages s @ ms \<and> (\<forall>t. MemoryOverflow t \<notin> set ms))"

lemma owned_live: "owned_blocks K gs s bl \<Longrightarrow> set (live (calls (kheap s))) \<subseteq> set (live (calls (kheap s'))) \<Longrightarrow>
    owned_blocks K gs s' bl"
  by (auto simp: owned_blocks_def)

lemma change_ask:
  assumes laws: "heap_laws K" and inv: "inv2 K gs s" and own: "owned_blocks K gs s bl"
    and ask: "ask K r (kheap s) = (p, h)" "0 < extent r"
  shows "own_change K gs bl s bl (s\<lparr>kheap := h\<rparr>)"
    and "p \<noteq> 0 \<Longrightarrow> own_change K gs bl s ((p, r) # bl) (s\<lparr>kheap := h\<rparr>)"
    and "(\<forall>t. m \<noteq> MemoryOverflow t) \<Longrightarrow> own_change K gs bl s [] (say m (s\<lparr>kheap := h\<rparr>))"
proof -
  have inv': "inv2 K gs (s\<lparr>kheap := h\<rparr>)" by (rule guard_inv_ask [OF inv laws ask])
  have l: "set (live (calls (kheap s))) \<subseteq> set (live (calls h))" using ask_live [OF ask(1)] by auto
  have own': "owned_blocks K gs (s\<lparr>kheap := h\<rparr>) bl" by (rule owned_live [OF own]) (use l in simp)
  note same = ask_simps [OF ask(1)]
  show "own_change K gs bl s bl (s\<lparr>kheap := h\<rparr>)"
    using inv' own' l same by (auto simp: own_change_def)
  show "own_change K gs bl s [] (say m (s\<lparr>kheap := h\<rparr>))" if "\<forall>t. m \<noteq> MemoryOverflow t"
    using guard_inv_say [OF inv', of m] l same that by (auto simp: own_change_def say_def)
  assume p: "p \<noteq> 0"
  have new: "\<forall>z\<in>set (live (calls (kheap s))). p \<noteq> fst z"
    using ask_new [OF laws guard_invD(1) [OF inv] ask(1) p ask(2)] by blast
  have "owned_blocks K gs (s\<lparr>kheap := h\<rparr>) ((p, r) # bl)"
    using own' own new ask_live [OF ask(1)] p ask_unused [OF inv laws ask(1) p ask(2)]
    by (auto simp: owned_blocks_def)
  then show "own_change K gs bl s ((p, r) # bl) (s\<lparr>kheap := h\<rparr>)"
    using inv' l same new by (auto simp: own_change_def)
qed

lemma change_bytes:
  assumes inv: "inv2 K gs s" and own: "owned_blocks K gs s bl"
    and b: "\<And>x. bs x \<noteq> bytes (kheap s) x \<Longrightarrow> \<exists>y\<in>set bl. within x y"
  shows "own_change K gs bl s bl (s\<lparr>kheap := (kheap s)\<lparr>bytes := bs\<rparr>\<rparr>)"
proof -
  have "bs x = bytes (kheap s) x" if "y \<in> set (live (calls (kheap s)))" "y \<notin> set bl" "within x y" for x y
  proof (rule ccontr)
    assume "bs x \<noteq> bytes (kheap s) x"
    with b obtain z where z: "z \<in> set bl" "within x z" by blast
    then have "y = z" using own by (intro within_same [OF guard_invD(1) [OF inv] that(1) _ that(3)])
      (auto simp: owned_blocks_def)
    with z(1) that(2) show False by simp
  qed
  then show ?thesis using guard_inv_bytes [OF inv] own by (auto simp: own_change_def owned_blocks_def)
qed

lemma change_text:
  assumes inv: "inv2 K gs s" and own: "owned_blocks K gs s bl" and b: "(b, r) \<in> set bl"
  shows "own_change K gs bl s bl (s\<lparr>kheap := (kheap s)\<lparr>texts := (texts (kheap s))(b := t)\<rparr>\<rparr>)" (is "own_change _ _ _ _ _ ?s")
proof -
  have un: "unused K gs b" using own b by (auto simp: owned_blocks_def)
  have "inv2 K gs ?s"
  proof (rule guard_inv_frame [OF inv])
    show "described K ?s g" if "g \<in> set gs" for g
      by (rule described_frame [OF guard_invD(5) [OF inv that]])
        (use un that in \<open>auto simp: unused_def blocks_of_def\<close>)
  qed (use guard_invD(1,6) [OF inv] in \<open>simp_all add: heap_ok_def\<close>)
  moreover have "fst y \<noteq> b" if "y \<in> set (live (calls (kheap s)))" "y \<notin> set bl" for y
  proof
    assume "fst y = b"
    then have "y = (b, r)" using live_addr [OF guard_invD(1) [OF inv], of b "snd y" r] own b that(1)
      by (cases y) (auto simp: owned_blocks_def)
    with b that(2) show False by simp
  qed
  ultimately show ?thesis using own by (auto simp: own_change_def owned_blocks_def)
qed

lemma change_zones:
  assumes inv: "inv2 K gs s" and own: "owned_blocks K gs s bl"
    and z: "\<And>x. zs x \<noteq> zones s x \<Longrightarrow> \<exists>y\<in>set bl. within x y"
  shows "own_change K gs bl s bl (s\<lparr>zones := zs\<rparr>)"
proof -
  have "zs x = zones s x" if "y \<in> set (live (calls (kheap s)))" "y \<notin> set bl" "within x y" for x y
  proof (rule ccontr)
    assume "zs x \<noteq> zones s x"
    with z obtain w where w: "w \<in> set bl" "within x w" by blast
    then have "y = w" using own by (intro within_same [OF guard_invD(1) [OF inv] that(1) _ that(3)])
      (auto simp: owned_blocks_def)
    with w(1) that(2) show False by simp
  qed
  moreover have "inv2 K gs (s\<lparr>zones := zs\<rparr>)"
    by (rule guard_inv_zones [OF inv]) (use z zone_not_owned(1) [OF inv own] in blast)
  ultimately show ?thesis using own by (auto simp: own_change_def owned_blocks_def)
qed

lemma change_give:
  assumes inv: "inv2 K gs s" and own: "owned_blocks K gs s bl"
    and bl: "bl = bl1 @ (p, r) # bl2" and q: "releases q r"
  shows "give q p (kheap s) = Inr ((kheap s)\<lparr>calls := Gave q p # calls (kheap s)\<rparr>)"
    and "own_change K gs bl s (bl1 @ bl2) (s\<lparr>kheap := (kheap s)\<lparr>calls := Gave q p # calls (kheap s)\<rparr>\<rparr>)"
proof -
  have p: "(p, r) \<in> set (live (calls (kheap s)))" "unused K gs p" using own by (auto simp: owned_blocks_def bl)
  have nz: "p \<noteq> 0" using live_sound [OF guard_invD(1) [OF inv] p(1)] by (simp add: sound_block_def)
  show "give q p (kheap s) = Inr ((kheap s)\<lparr>calls := Gave q p # calls (kheap s)\<rparr>)"
    by (rule give_live [OF p(1) nz q])
  have ne: "fst y \<noteq> p" if "y \<in> set (live (calls (kheap s)))" "y \<notin> set bl" for y
    using live_addr [OF guard_invD(1) [OF inv], of p "snd y" r] p(1) that by (cases y) (auto simp: bl)
  have keep: "y \<in> set (live (Gave q p # calls (kheap s)))"
    if "y \<in> set (live (calls (kheap s)))" "y \<notin> set bl" for y using ne [OF that] that(1) by (cases y) simp
  have "owned_blocks K gs (s\<lparr>kheap := (kheap s)\<lparr>calls := Gave q p # calls (kheap s)\<rparr>\<rparr>) (bl1 @ bl2)"
    unfolding owned_blocks_def
  proof (intro conjI subsetI ballI)
    show "distinct (map fst (bl1 @ bl2))" using own by (simp add: owned_blocks_def bl)
    fix y assume y: "y \<in> set (bl1 @ bl2)"
    then have "y \<in> set (live (calls (kheap s)))" "unused K gs (fst y)" using own by (auto simp: owned_blocks_def bl)
    moreover have "p \<notin> fst ` set (bl1 @ bl2)" using own by (simp add: owned_blocks_def bl image_Un)
    then have "fst y \<noteq> p" using y by (metis imageI)
    ultimately show "unused K gs (fst y)"
      "y \<in> set (live (calls (kheap (s\<lparr>kheap := (kheap s)\<lparr>calls := Gave q p # calls (kheap s)\<rparr>\<rparr>))))" by (simp_all add: case_prod_beta)
  qed
  moreover have "set (bl1 @ bl2) \<subseteq> set bl" by (auto simp: bl)
  ultimately show "own_change K gs bl s (bl1 @ bl2) (s\<lparr>kheap := (kheap s)\<lparr>calls := Gave q p # calls (kheap s)\<rparr>\<rparr>)"
    using guard_inv_give [OF inv p(2), of q] keep unfolding own_change_def by (simp del: live.simps) blast
qed

text \<open>The zones that a processor has filled are whole.\<close>

definition guard_bytes :: "call \<Rightarrow> u64 \<Rightarrow> heap \<Rightarrow> bool" where
  "guard_bytes c base h \<longleftrightarrow> (\<forall>x\<in>bytes_at base (unat (zone_bytes c)) \<union>
     bytes_at (base + zone_bytes c + user_bytes c) (unat (zone_bytes c)). bytes h x = guard_byte)"

fun whole :: "heap \<Rightarrow> place \<Rightarrow> bool" where
  "whole h (Zones_filled c ra base) = guard_bytes c base h"
| "whole h (Got_text c ra base buffer) = guard_bytes c base h"
| "whole h (Named c ra base buffer) = guard_bytes c base h"
| "whole h (Got_struct c ra base buffer a) = guard_bytes c base h"
| "whole h (Described c ra base buffer a) = guard_bytes c base h"
| "whole h _ = True"

lemma guard_bytes_cong: "bytes h' = bytes h \<Longrightarrow> guard_bytes c base h' = guard_bytes c base h"
  by (simp add: guard_bytes_def)

text \<open>The outcome of a section without the lock.\<close>

definition section_ok ::
  "heap_env \<Rightarrow> guarded list \<Rightarrow> place \<Rightarrow> (u64 \<times> request) list \<Rightarrow> guard2 \<Rightarrow> (place \<times> guard2) result \<Rightarrow> bool" where
  "section_ok K gs pt bl s r \<longleftrightarrow> (\<exists>pt' s' bl'. r = Inr (pt', s') \<and> place_ok K s' pt' bl' \<and>
     own_change K gs bl s bl' s' \<and> (\<forall>ps. pt' \<noteq> Scanning ps) \<and>
     (whole (kheap s) pt \<longrightarrow> whole (kheap s') pt'))"

lemma section_okI:
  "r = Inr (pt', s') \<Longrightarrow> place_ok K s' pt' bl' \<Longrightarrow> own_change K gs bl s bl' s' \<Longrightarrow>
   (\<And>ps. pt' \<noteq> Scanning ps) \<Longrightarrow> (whole (kheap s) pt \<Longrightarrow> whole (kheap s') pt') \<Longrightarrow> section_ok K gs pt bl s r"
  unfolding section_ok_def by blast

text \<open>A refused request ends the allocation: what the processor owns stays out, and nobody has it.\<close>

lemma refused_ok:
  assumes "own_change K gs bl s [] s'"
  shows "section_ok K gs pt bl s (Inr (Outside, s'))"
  by (rule section_okI [OF refl _ assms]) simp_all

lemma ask_block_ok:
  assumes "heap_laws K" and "inv2 K gs s" and "sane_call c" and "nameable K ra"
  shows "section_ok K gs pt [] s (Inr (ask_block K c ra s))"
proof -
  obtain base h where ask: "ask K (request_of K c) (kheap s) = (base, h)" by fastforce
  note ch = change_ask [OF assms(1,2) owned_Nil ask request_positive [OF assms(3)]]
  show ?thesis
  proof (cases "base = 0")
    case True
    have "own_change K gs [] s [] (say AllocationFailed (s\<lparr>kheap := h\<rparr>))" by (rule ch(3)) simp
    with True show ?thesis using refused_ok by (simp add: ask_block_def ask)
  next
    case False
    from ch(2) [OF this] show ?thesis
      by (rule section_okI [rotated 2, where pt' = "Got_block c ra base"])
        (use False ask assms(3,4) in \<open>simp_all add: ask_block_def\<close>)
  qed
qed

lemma entered_ok:
  assumes "heap_laws K" and "inv2 K gs s" and "sane_call c" and "nameable K ra"
    and "own_section K (Entered c ra) s = Some r"
  shows "section_ok K gs (Entered c ra) [] s r"
proof (cases "is_dma c")
  case True
  obtain handle h where ask: "ask K (Kmalloc 8 (GFP_KERNEL K)) (kheap s) = (handle, h)" by fastforce
  note ch = change_ask [OF assms(1,2) owned_Nil ask]
  show ?thesis
  proof (cases "handle = 0")
    case True
    have "own_change K gs [] s [] (say HandleFailed (s\<lparr>kheap := h\<rparr>))" by (rule ch(3)) simp_all
    from refused_ok [OF this] show ?thesis using True \<open>is_dma c\<close> ask assms(5) by (simp add: kmalloc_def)
  next
    case False
    have "own_change K gs [] s [] (s\<lparr>kheap := h\<rparr>)" by (rule ch(1)) simp
    then show ?thesis
      by (rule section_okI [rotated 2, where pt' = "Handled c ra"])
        (use False \<open>is_dma c\<close> ask assms(3-5) in \<open>simp_all add: kmalloc_def\<close>)
  qed
next
  case False
  with ask_block_ok [OF assms(1-4)] assms(5) show ?thesis by simp
qed

lemma fill_ok:
  assumes inv: "inv2 K gs s" and own: "owned_blocks K gs s bl" and pl: "place_ok K s (Got_block c ra base) bl"
    and run: "own_section K (Got_block c ra base) s = Some r"
  shows "section_ok K gs (Got_block c ra base) bl s r"
proof -
  let ?second = "base + zone_bytes c + user_bytes c" and ?n = "unat (zone_bytes c)"
  let ?bs = "\<lambda>x. if x \<in> bytes_at base ?n \<union> bytes_at ?second ?n then guard_byte else bytes (kheap s) x"
  have bl: "bl = [(base, request_of K c)]" and c: "sane_call c" using pl by simp_all
  have l: "(base, request_of K c) \<in> set (live (calls (kheap s)))" using own by (simp add: owned_blocks_def bl)
  note sb = live_sound [OF guard_invD(1) [OF inv] l]
  note fits = room_fits [OF c sb]
  have fill: "fill_zones base ?second ?n (kheap s) = Inr ((kheap s)\<lparr>bytes := ?bs\<rparr>)"
    using sb fits by (intro fill_zones_ok in_liveI [OF l]) (auto simp: fits_def sound_block_def)
  have "own_change K gs bl s bl (s\<lparr>kheap := (kheap s)\<lparr>bytes := ?bs\<rparr>\<rparr>)"
    by (rule change_bytes [OF inv own])
      (use fits in \<open>auto simp: bl within_def bytes_at_def split: if_splits\<close>)
  then show ?thesis
    by (rule section_okI [rotated 2, where pt' = "Zones_filled c ra base"])
      (use pl run fill in \<open>simp_all add: guard_bytes_def\<close>)
qed

lemma buffer_ok:
  assumes laws: "heap_laws K" and inv: "inv2 K gs s" and own: "owned_blocks K gs s bl"
    and pl: "place_ok K s (Zones_filled c ra base) bl"
    and run: "own_section K (Zones_filled c ra base) s = Some r"
  shows "section_ok K gs (Zones_filled c ra base) bl s r"
proof -
  obtain buffer h where ask: "ask K (Kmalloc 200 (GFP_KERNEL K)) (kheap s) = (buffer, h)" by fastforce
  note ch = change_ask [OF laws inv own ask]
  have bytes: "bytes h = bytes (kheap s)" using ask by simp
  have ra: "ra \<noteq> 0" using pl by (simp add: nameable_def)
  show ?thesis
  proof (cases "buffer = 0")
    case True
    have "own_change K gs bl s [] (say BufferFailed (s\<lparr>kheap := h\<rparr>))" by (rule ch(3)) simp_all
    from refused_ok [OF this] show ?thesis using True ask run by (simp add: kmalloc_def)
  next
    case False
    have "own_change K gs bl s (text_block K buffer # bl) (s\<lparr>kheap := h\<rparr>)" using False by (intro ch(2)) simp_all
    then show ?thesis
      by (rule section_okI [rotated 2, where pt' = "Got_text c ra base buffer"])
        (use False ra pl ask run in \<open>simp_all add: kmalloc_def guard_bytes_cong [OF bytes]\<close>)
  qed
qed

lemma name_ok:
  assumes inv: "inv2 K gs s" and own: "owned_blocks K gs s bl"
    and pl: "place_ok K s (Got_text c ra base buffer) bl"
    and run: "own_section K (Got_text c ra base buffer) s = Some r"
  shows "section_ok K gs (Got_text c ra base buffer) bl s r"
proof -
  let ?h = "(kheap s)\<lparr>texts := (texts (kheap s))(buffer := symbol_of K ra)\<rparr>"
  have b: "text_block K buffer \<in> set bl" and name: "length (symbol_of K ra) < 200"
    using pl by (simp_all add: nameable_def)
  have "text_block K buffer \<in> set (live (calls (kheap s)))" using own b by (auto simp: owned_blocks_def)
  then have "in_live (kheap s) buffer (length (symbol_of K ra) + 1)" by (rule in_live_block) (use name in simp)
  then have "sprint_symbol K buffer ra (kheap s) = Inr ?h" by (simp add: sprint_symbol_def)
  moreover have "guard_bytes c base ?h = guard_bytes c base (kheap s)" by (rule guard_bytes_cong) simp
  ultimately show ?thesis
    by (intro section_okI [OF _ _ change_text [OF inv own b, of "symbol_of K ra"], where pt' = "Named c ra base buffer"])
      (use pl run in simp_all)
qed

lemma struct_ok:
  assumes laws: "heap_laws K" and inv: "inv2 K gs s" and own: "owned_blocks K gs s bl"
    and pl: "place_ok K s (Named c ra base buffer) bl"
    and run: "own_section K (Named c ra base buffer) s = Some r"
  shows "section_ok K gs (Named c ra base buffer) bl s r"
proof -
  have pos: "0 < extent (Kmalloc (2 * sizeof_iso_zone) (GFP_KERNEL K))" by (simp add: sizeof_iso_zone_def)
  obtain a h where ask: "ask K (Kmalloc (2 * sizeof_iso_zone) (GFP_KERNEL K)) (kheap s) = (a, h)" by fastforce
  note ch = change_ask [OF laws inv own ask pos]
  have same: "bytes h = bytes (kheap s)" "texts h = texts (kheap s)" using ask by simp_all
  show ?thesis
  proof (cases "a = 0")
    case True
    have "own_change K gs bl s [] (say StructFailed (s\<lparr>kheap := h\<rparr>))" by (rule ch(3)) simp
    from refused_ok [OF this] show ?thesis using True ask run by (simp add: kmalloc_def)
  next
    case False
    from ch(2) [OF this] show ?thesis
      by (rule section_okI [rotated 2, where pt' = "Got_struct c ra base buffer a"])
        (use False pl ask run same in \<open>simp_all add: kmalloc_def guard_bytes_cong [OF same(1)]\<close>)
  qed
qed

lemma describe_ok:
  assumes inv: "inv2 K gs s" and own: "owned_blocks K gs s bl"
    and pl: "place_ok K s (Got_struct c ra base buffer a) bl"
    and run: "own_section K (Got_struct c ra base buffer a) s = Some r"
  shows "section_ok K gs (Got_struct c ra base buffer a) bl s r"
proof -
  let ?zone = "\<lambda>p. \<lparr>callerinfo = buffer, iso_size = ucast (zone_bytes c), addr = p, flag = False\<rparr>"
  let ?zs = "(zones s)(a := ?zone base, a + sizeof_iso_zone := ?zone (base + zone_bytes c + user_bytes c))"
  have b: "struct_block K a \<in> set bl" using pl by simp
  have "struct_block K a \<in> set (live (calls (kheap s)))" using own b by (auto simp: owned_blocks_def)
  note w = struct_within [OF live_sound [OF guard_invD(1) [OF inv] this]]
  have "own_change K gs bl s bl (s\<lparr>zones := ?zs\<rparr>)"
    by (rule change_zones [OF inv own]) (use b w in \<open>auto split: if_splits\<close>)
  then show ?thesis
    by (rule section_okI [rotated 2, where pt' = "Described c ra base buffer a"])
      (use pl run w(3) in \<open>simp_all add: described_def to_guard_def\<close>)
qed

lemma give_back_ok:
  assumes inv: "inv2 K gs s" and own: "owned_blocks K gs s bl" and pl: "place_ok K s pt bl"
    and pt: "(\<exists>q base temp. pt = Unlinked q base temp \<or> pt = Text_freed q base temp) \<or> (\<exists>q base. pt = Struct_freed q base)"
    and run: "own_section K pt s = Some r"
  shows "section_ok K gs pt bl s r"
  using pt
proof (elim disjE exE)
  fix q base temp assume pt: "pt = Unlinked q base temp"
  let ?b = "callerinfo (zones s temp)"
  from pl obtain rq where bl: "bl = [struct_block K temp] @ text_block K ?b # [(base, rq)]" and q: "releases q rq"
    by (auto simp: pt)
  have rel: "releases Kfree (Kmalloc 200 (GFP_KERNEL K))" by simp
  note gv = change_give [OF inv own bl rel]
  have l: "struct_block K temp \<in> set (live (calls (kheap s)))" using own by (simp add: owned_blocks_def bl)
  have "temp \<noteq> 0" using live_sound [OF guard_invD(1) [OF inv] l] by (simp add: sound_block_def)
  moreover have "node_live (unat sizeof_iso_zone) s temp"
    unfolding node_live_def by (rule in_live_block [OF l]) (simp add: sizeof_iso_zone_def)
  ultimately show ?thesis using gv(1) run q
    by (intro section_okI [OF _ _ gv(2), where pt' = "Text_freed q base temp"]) (auto simp: pt)
next
  fix q base temp assume pt: "pt = Text_freed q base temp"
  from pl obtain rq where bl: "bl = [] @ struct_block K temp # [(base, rq)]" and q: "releases q rq" by (auto simp: pt)
  have rel: "releases Kfree (Kmalloc (2 * sizeof_iso_zone) (GFP_KERNEL K))" by simp
  note gv = change_give [OF inv own bl rel]
  show ?thesis using gv(1) run q
    by (intro section_okI [OF _ _ gv(2), where pt' = "Struct_freed q base"]) (auto simp: pt)
next
  fix q base assume pt: "pt = Struct_freed q base"
  from pl obtain rq where bl: "bl = [] @ (base, rq) # []" and q: "releases q rq" by (auto simp: pt)
  note gv = change_give [OF inv own bl q]
  show ?thesis using gv(1) run
    by (intro section_okI [OF _ _ gv(2), where pt' = Outside]) (auto simp: pt release_def)
qed

lemma own_section_ok:
  assumes "heap_laws K" and "inv2 K gs s" and "owned_blocks K gs s bl" and "place_ok K s pt bl"
    and "own_section K pt s = Some r"
  shows "section_ok K gs pt bl s r"
proof (cases pt)
  case (Entered c ra)
  with entered_ok [OF assms(1,2)] assms(4,5) show ?thesis by auto
next
  case (Handled c ra)
  with ask_block_ok [OF assms(1,2)] assms(4,5) show ?thesis by auto
next
  case (Got_block c ra base)
  with fill_ok [OF assms(2,3)] assms(4,5) show ?thesis by blast
next
  case (Zones_filled c ra base)
  with buffer_ok [OF assms(1-3)] assms(4,5) show ?thesis by blast
next
  case (Got_text c ra base buffer)
  with name_ok [OF assms(2,3)] assms(4,5) show ?thesis by blast
next
  case (Named c ra base buffer)
  with struct_ok [OF assms(1-3)] assms(4,5) show ?thesis by blast
next
  case (Got_struct c ra base buffer a)
  with describe_ok [OF assms(2,3)] assms(4,5) show ?thesis by blast
qed (use assms(5) give_back_ok [OF assms(2-4) _ assms(5)] in auto)

section \<open>The invariant\<close>

text \<open>
  \<open>gs\<close> describes the list of zones, a block for each that is in use; \<open>bls c\<close> is what the processor \<open>c\<close>
  owns. The lock is held by the processor that scans, and what it has to go is the rest of the list.
\<close>

definition guard_smp_inv ::
  "heap_env \<Rightarrow> guarded list \<Rightarrow> (nat \<Rightarrow> (u64 \<times> request) list) \<Rightarrow> guard_smp \<Rightarrow> bool" where
  "guard_smp_inv K gs bls S \<longleftrightarrow> inv2 K gs (guard S) \<and> list_all2 (holds K) (in_use S) gs \<and>
     (\<forall>c. place_ok K (guard S) (place_of S c) (bls c) \<and> owned_blocks K gs (guard S) (bls c)) \<and>
     (\<forall>c d. c \<noteq> d \<longrightarrow> set (bls c) \<inter> set (bls d) = {}) \<and>
     (\<forall>c. (\<exists>ps. place_of S c = Scanning ps) \<longleftrightarrow> list_lock S = Some c) \<and>
     (\<forall>c ps. place_of S c = Scanning ps \<longrightarrow> (\<exists>qs. iso_head (guard S) = qs @ ps))"

lemma guard_smp_invD:
  assumes "guard_smp_inv K gs bls S"
  shows "inv2 K gs (guard S)" and "list_all2 (holds K) (in_use S) gs"
    and "place_ok K (guard S) (place_of S c) (bls c)" and "owned_blocks K gs (guard S) (bls c)"
    and "c \<noteq> d \<Longrightarrow> set (bls c) \<inter> set (bls d) = {}"
    and "(\<exists>ps. place_of S c = Scanning ps) \<longleftrightarrow> list_lock S = Some c"
    and "place_of S c = Scanning ps \<Longrightarrow> \<exists>qs. iso_head (guard S) = qs @ ps"
  using assms by (simp_all add: guard_smp_inv_def)

lemma owned_sound: "inv2 K gs s \<Longrightarrow> owned_blocks K gs s bl \<Longrightarrow> \<forall>b\<in>set bl. sound_block b"
  unfolding owned_blocks_def using live_sound [OF guard_invD(1)] by blast

text \<open>A step of the processor \<open>c\<close> that leaves what the others own alone.\<close>

lemma guard_smp_inv_change:
  assumes inv: "guard_smp_inv K gs bls S"
    and g: "inv2 K gs' (guard S')" "list_all2 (holds K) (in_use S') gs'"
    and pc: "place_of S' = (place_of S)(c := pt)"
    and bl: "place_ok K (guard S') pt bl" "owned_blocks K gs' (guard S') bl"
    and others: "\<And>d. d \<noteq> c \<Longrightarrow> owned_blocks K gs' (guard S') (bls d) \<and>
      agree (bls d) (guard S) (guard S') \<and> set bl \<inter> set (bls d) = {}"
    and lock: "\<And>d. (\<exists>ps. place_of S' d = Scanning ps) \<longleftrightarrow> list_lock S' = Some d"
    and rest: "\<And>d ps. place_of S' d = Scanning ps \<Longrightarrow> \<exists>qs. iso_head (guard S') = qs @ ps"
  shows "guard_smp_inv K gs' (bls(c := bl)) S'"
  unfolding guard_smp_inv_def
proof (intro conjI allI impI)
  fix d
  show "place_ok K (guard S') (place_of S' d) ((bls(c := bl)) d)"
    using bl(1) place_ok_agree [OF guard_smp_invD(3) [OF inv, of d] _ owned_sound [OF guard_smp_invD(1,4) [OF inv]]]
      others [of d] by (simp add: pc)
  show "owned_blocks K gs' (guard S') ((bls(c := bl)) d)" using bl(2) others by simp
  fix e assume "d \<noteq> e"
  then show "set ((bls(c := bl)) d) \<inter> set ((bls(c := bl)) e) = {}"
    using guard_smp_invD(5) [OF inv] others by auto
qed (use g lock rest in auto)

lemma own_change_others:
  assumes inv: "inv2 K gs s" and ch: "own_change K gs bl s bl' s'" and own: "owned_blocks K gs s bd"
    and dis: "set bl \<inter> set bd = {}"
  shows "owned_blocks K gs s' bd" and "agree bd s s'" and "set bl' \<inter> set bd = {}"
    and "y \<in> set bd \<Longrightarrow> within x y \<Longrightarrow> bytes (kheap s') x = bytes (kheap s) x"
proof -
  have mem: "y \<in> set (live (calls (kheap s))) - set bl" if "y \<in> set bd" for y
    using that own dis by (auto simp: owned_blocks_def)
  then show "owned_blocks K gs s' bd" using own ch by (auto simp: owned_blocks_def own_change_def)
  show "agree bd s s'" using ch mem by (auto simp: agree_def own_change_def)
  show "y \<in> set bd \<Longrightarrow> within x y \<Longrightarrow> bytes (kheap s') x = bytes (kheap s) x"
    using ch mem [of y] unfolding own_change_def by blast
  show "set bl' \<inter> set bd = {}"
  proof (rule ccontr)
    assume "set bl' \<inter> set bd \<noteq> {}"
    then obtain y where y: "y \<in> set bl'" "y \<in> set bd" by blast
    with ch have "y \<in> set bl \<or> (\<forall>z\<in>set (live (calls (kheap s))). fst y \<noteq> fst z)" by (simp add: own_change_def)
    with mem [OF y(2)] show False by blast
  qed
qed

section \<open>Steps keep the invariant\<close>

lemma lock_same:
  assumes "guard_smp_inv K gs bls S" and "\<forall>ps. place_of S c \<noteq> Scanning ps" and "\<forall>ps. pt \<noteq> Scanning ps"
    and "place_of S' = (place_of S)(c := pt)" and "list_lock S' = list_lock S"
  shows "(\<exists>ps. place_of S' d = Scanning ps) \<longleftrightarrow> list_lock S' = Some d"
  using assms(2-5) guard_smp_invD(6) [OF assms(1), of d] guard_smp_invD(6) [OF assms(1), of c] by auto

lemma own_place: "own_section K pt s = Some r \<Longrightarrow> pt \<noteq> Outside \<and> (\<forall>ps. pt \<noteq> Scanning ps)"
  by auto

lemma own_run_inv:
  assumes laws: "heap_laws K" and inv: "guard_smp_inv K gs bls S"
    and run: "own_section K (place_of S c) (guard S) = Some r"
  obtains pt g bl where "r = Inr (pt, g)" "own_change K gs (bls c) (guard S) bl g"
    "whole (kheap (guard S)) (place_of S c) \<longrightarrow> whole (kheap g) pt"
    "guard_smp_inv K gs (bls(c := bl)) (go_on c pt g S)"
proof -
  note D = guard_smp_invD [OF inv]
  from own_section_ok [OF laws D(1) D(4) D(3) run] obtain pt g bl where
    r: "r = Inr (pt, g)" "place_ok K g pt bl" "own_change K gs (bls c) (guard S) bl g" "\<forall>ps. pt \<noteq> Scanning ps"
      "whole (kheap (guard S)) (place_of S c) \<longrightarrow> whole (kheap g) pt" by (auto simp: section_ok_def)
  have np: "\<forall>ps. place_of S c \<noteq> Scanning ps" using own_place [OF run] by blast
  have "guard_smp_inv K gs (bls(c := bl)) (go_on c pt g S)"
  proof (rule guard_smp_inv_change [OF inv])
    show "inv2 K gs (guard (go_on c pt g S))" "owned_blocks K gs (guard (go_on c pt g S)) bl"
      using r(3) by (simp_all add: go_on_def own_change_def)
    show "owned_blocks K gs (guard (go_on c pt g S)) (bls d) \<and> agree (bls d) (guard S) (guard (go_on c pt g S)) \<and>
        set bl \<inter> set (bls d) = {}" if "d \<noteq> c" for d
      using own_change_others [OF D(1) r(3) D(4) D(5)] that by (simp add: go_on_def)
    show "(\<exists>ps. place_of (go_on c pt g S) d = Scanning ps) \<longleftrightarrow> list_lock (go_on c pt g S) = Some d" for d
      by (rule lock_same [OF inv np r(4)]) (simp_all add: go_on_def)
    show "\<exists>qs. iso_head (guard (go_on c pt g S)) = qs @ ps" if "place_of (go_on c pt g S) d = Scanning ps" for d ps
      using that D(7) [of d ps] r(3,4) by (auto simp: go_on_def own_change_def split: if_splits)
  qed (use r(2) D(2) in \<open>simp_all add: go_on_def\<close>)
  with r that show ?thesis by blast
qed

end
