(* ===== verification/Guard_Smp_Steps.thy ===== *)
theory Guard_Smp_Steps
  imports Guard_Smp_Inv
begin

text \<open>
  Every step of the overflow checker on several processors keeps the invariant, and none can fault.
\<close>

section \<open>Entering and inserting\<close>

lemma enter_inv:
  assumes inv: "guard_smp_inv K gs bls S" and "place_of S c = Outside" and "sane_call cl" and "nameable K ra"
  shows "guard_smp_inv K gs bls (go_on c (Entered cl ra) (guard S) S)"
proof -
  note D = guard_smp_invD [OF inv]
  have bl: "bls c = []" using D(3) [of c] assms(2) by simp
  have "guard_smp_inv K gs (bls(c := [])) (go_on c (Entered cl ra) (guard S) S)"
  proof (rule guard_smp_inv_change [OF inv, where pt = "Entered cl ra"])
    show "(\<exists>ps. place_of (go_on c (Entered cl ra) (guard S) S) d = Scanning ps) \<longleftrightarrow>
        list_lock (go_on c (Entered cl ra) (guard S) S) = Some d" for d
      by (rule lock_same [OF inv, of c "Entered cl ra"]) (simp_all add: go_on_def assms(2))
    show "\<exists>qs. iso_head (guard (go_on c (Entered cl ra) (guard S) S)) = qs @ ps"
      if "place_of (go_on c (Entered cl ra) (guard S) S) d = Scanning ps" for d ps
      using that D(7) [of d ps] by (auto simp: go_on_def split: if_splits)
  qed (use assms D in \<open>simp_all add: go_on_def agree_def\<close>)
  then show ?thesis by (simp add: fun_upd_idem bl)
qed

lemma owned_apart:
  assumes inv: "inv2 K gs s" and "owned_blocks K gs s bl" and "owned_blocks K gs s bd"
    and "set bl \<inter> set bd = {}" and "y \<in> set bl" and "z \<in> set bd"
  shows "fst y \<noteq> fst z"
proof
  assume eq: "fst y = fst z"
  have l: "y \<in> set (live (calls (kheap s)))" "z \<in> set (live (calls (kheap s)))"
    using assms(2,3,5,6) by (auto simp: owned_blocks_def)
  have "snd y = snd z"
    using live_addr [OF guard_invD(1) [OF inv], of "fst y" "snd y" "snd z"] l eq by (metis prod.collapse)
  with eq have "y = z" by (simp add: prod_eq_iff)
  with assms(4-6) show False by blast
qed

text \<open>The list after an insertion.\<close>

lemma insert_ok:
  assumes inv: "inv2 K gs s" and own: "owned_blocks K gs s bl"
    and pl: "place_ok K s (Described cl ra base buffer a) bl"
  shows "insert_zones a s = Inr (s\<lparr>iso_head := [a + sizeof_iso_zone, a] @ iso_head s\<rparr>)"
    and "inv2 K (to_guard K cl ra base buffer a # gs) (s\<lparr>iso_head := [a + sizeof_iso_zone, a] @ iso_head s\<rparr>)"
    and "holds K ((cl, ra), base + zone_bytes cl) (to_guard K cl ra base buffer a)"
    and "blocks_of K (to_guard K cl ra base buffer a) = bl"
proof -
  let ?g = "to_guard K cl ra base buffer a" and ?n = "unat sizeof_iso_zone"
  have bl: "bl = [struct_block K a, text_block K buffer, (base, request_of K cl)]" and cl: "sane_call cl"
    and desc: "described K s ?g" using pl by simp_all
  have l: "struct_block K a \<in> set (live (calls (kheap s)))" "(base, request_of K cl) \<in> set (live (calls (kheap s)))"
    using own by (simp_all add: owned_blocks_def bl)
  note sound = live_sound [OF guard_invD(1) [OF inv]]
  show blocks: "blocks_of K ?g = bl" by (simp add: blocks_of_def to_guard_def bl)
  have shp: "shaped ?n ?g"
    unfolding to_guard_def by (rule shaped_pair [OF sound [OF l(1)] room_fits(1) [OF cl sound [OF l(2)]]])
  have "inv2 K (?g # gs) (s\<lparr>iso_head := nodes_of (?g # gs)\<rparr>)"
    by (rule guard_inv_Cons [OF inv _ shp desc]) (use own guard_invD(2) [OF inv] in \<open>auto simp: blocks owned_blocks_def\<close>)
  then show "inv2 K (?g # gs) (s\<lparr>iso_head := [a + sizeof_iso_zone, a] @ iso_head s\<rparr>)"
    by (simp add: guard_invD(2) [OF inv]) (simp add: to_guard_def)
  have nodes: "\<forall>q\<in>set (iso_head s). node_live ?n s q" by (rule inv_nodes_live [OF inv])
  have "node_live ?n s a"
    unfolding node_live_def by (rule in_live_block [OF l(1)]) (simp add: sizeof_iso_zone_def)
  with nodes show "insert_zones a s = Inr (s\<lparr>iso_head := [a + sizeof_iso_zone, a] @ iso_head s\<rparr>)"
    by (simp add: insert_zones_def list_add_ok node_live_def)
  show "holds K ((cl, ra), base + zone_bytes cl) ?g" using cl by (auto simp: holds_def to_guard_def)
qed

text \<open>Blocks of others are not in a description that is made of one's own.\<close>

lemma owned_more:
  assumes inv: "inv2 K gs s" and "owned_blocks K gs s bl" and "owned_blocks K gs s bd"
    and "set bl \<inter> set bd = {}" and "blocks_of K g = bl" and "kheap s' = kheap s"
  shows "owned_blocks K (g # gs) s' bd"
  using owned_apart [OF assms(1-4)] assms(3,5,6) by (fastforce simp: owned_blocks_def unused_def)

lemma register_inv:
  assumes inv: "guard_smp_inv K gs bls S" and pt: "place_of S c = Described cl ra base buffer a"
    and lock: "list_lock S = None"
  shows "insert_zones a (guard S) = Inr (guard S\<lparr>iso_head := [a + sizeof_iso_zone, a] @ iso_head (guard S)\<rparr>)"
    and "guard_smp_inv K (to_guard K cl ra base buffer a # gs) (bls(c := []))
      (go_on c Outside (guard S\<lparr>iso_head := [a + sizeof_iso_zone, a] @ iso_head (guard S)\<rparr>)
        (S\<lparr>in_use := ((cl, ra), base + zone_bytes cl) # in_use S\<rparr>))"
proof -
  note D = guard_smp_invD [OF inv]
  note ok = insert_ok [OF D(1,4), OF D(3) [of c, unfolded pt]]
  show "insert_zones a (guard S) = Inr (guard S\<lparr>iso_head := [a + sizeof_iso_zone, a] @ iso_head (guard S)\<rparr>)"
    by (rule ok(1))
  let ?S = "go_on c Outside (guard S\<lparr>iso_head := [a + sizeof_iso_zone, a] @ iso_head (guard S)\<rparr>)
        (S\<lparr>in_use := ((cl, ra), base + zone_bytes cl) # in_use S\<rparr>)"
  have none: "place_of S d \<noteq> Scanning ps" for d ps using D(6) [of d] lock by auto
  show "guard_smp_inv K (to_guard K cl ra base buffer a # gs) (bls(c := [])) ?S"
  proof (rule guard_smp_inv_change [OF inv, where pt = "Outside"])
    show "owned_blocks K (to_guard K cl ra base buffer a # gs) (guard ?S) (bls d) \<and>
        agree (bls d) (guard S) (guard ?S) \<and> set [] \<inter> set (bls d) = {}" if "d \<noteq> c" for d
      using owned_more [OF D(1) D(4) D(4) D(5) ok(4)] that by (simp add: go_on_def agree_def)
    show "(\<exists>ps. place_of ?S d = Scanning ps) \<longleftrightarrow> list_lock ?S = Some d" for d
      using none lock by (simp add: go_on_def)
    show "\<exists>qs. iso_head (guard ?S) = qs @ ps" if "place_of ?S d = Scanning ps" for d ps
      using that none by (auto simp: go_on_def split: if_splits)
  qed (use ok D(2) in \<open>simp_all add: go_on_def\<close>)
qed

section \<open>Releasing\<close>

lemma unlink_inv:
  assumes inv: "guard_smp_inv K gs bls S" and pt: "place_of S c = Outside" and mem: "((cl, ra), p) \<in> set (in_use S)"
    and lock: "list_lock S = None"
  obtains gs1 g gs2 where "gs = gs1 @ g # gs2"
    "drop_zones (p - zone_bytes cl) (guard S) = Inr (g_struct g, guard S\<lparr>iso_head := nodes_of (gs1 @ gs2)\<rparr>)"
    "guard_smp_inv K (gs1 @ gs2) (bls(c := blocks_of K g))
      (go_on c (Unlinked (release_of cl bus) (p - zone_bytes cl) (g_struct g))
        (guard S\<lparr>iso_head := nodes_of (gs1 @ gs2)\<rparr>) (S\<lparr>in_use := remove1 ((cl, ra), p) (in_use S)\<rparr>))"
proof -
  note D = guard_smp_invD [OF inv]
  from split_held [OF D(2) mem] obtain held1 held2 gs1 g gs2 where
    h: "in_use S = held1 @ ((cl, ra), p) # held2" "((cl, ra), p) \<notin> set held1" and gs: "gs = gs1 @ g # gs2" and
    all: "list_all2 (holds K) held1 gs1" "holds K ((cl, ra), p) g" "list_all2 (holds K) held2 gs2" by metis
  from all(2) obtain a buffer base where g: "g = pair_of a buffer ra base (request_of K cl) (zone_bytes cl)
      (base + zone_bytes cl + user_bytes cl)" and p: "p = base + zone_bytes cl" by (auto simp: holds_def)
  have base: "p - zone_bytes cl = base" by (simp add: p)
  have inv1: "inv2 K (gs1 @ g # gs2) (guard S)" using D(1) by (simp only: gs)
  have gin: "g \<in> set (gs1 @ g # gs2)" by simp
  let ?G = "guard S\<lparr>iso_head := nodes_of (gs1 @ gs2)\<rparr>"
  let ?S = "go_on c (Unlinked (release_of cl bus) (p - zone_bytes cl) (g_struct g)) ?G
    (S\<lparr>in_use := remove1 ((cl, ra), p) (in_use S)\<rparr>)"
  note drop = drop_zones_ok [OF inv1 g] and gdrop = guard_inv_drop [OF inv1]
  have none: "place_of S d \<noteq> Scanning ps" for d ps using D(6) [of d] lock by auto
  have "callerinfo (zones (guard S) a) = buffer"
    using guard_invD(5) [OF inv1 gin] by (auto simp: described_def g)
  then have pl: "place_ok K ?G (Unlinked (release_of cl bus) (p - zone_bytes cl) (g_struct g)) (blocks_of K g)"
    using releases_request by (auto simp: g blocks_of_def base)
  have own: "owned_blocks K (gs1 @ gs2) ?G (blocks_of K g)"
    using gdrop(2,3) guard_invD(6) [OF inv1 gin] by (auto simp: owned_blocks_def)
  have others: "owned_blocks K (gs1 @ gs2) ?G (bls d)" "set (blocks_of K g) \<inter> set (bls d) = {}" for d
  proof -
    have un: "\<forall>b\<in>set (bls d). unused K (gs1 @ g # gs2) (fst b)" using D(4) [of d] by (simp add: owned_blocks_def gs)
    then show "owned_blocks K (gs1 @ gs2) ?G (bls d)" using D(4) [of d] by (auto simp: owned_blocks_def unused_def)
    show "set (blocks_of K g) \<inter> set (bls d) = {}" using un by (force simp: unused_def)
  qed
  have "guard_smp_inv K (gs1 @ gs2) (bls(c := blocks_of K g)) ?S"
  proof (rule guard_smp_inv_change [OF inv, where pt = "Unlinked (release_of cl bus) (p - zone_bytes cl) (g_struct g)"])
    show "list_all2 (holds K) (in_use ?S) (gs1 @ gs2)"
      using h all by (simp add: go_on_def remove1_append list_all2_appendI)
    show "(\<exists>ps. place_of ?S d = Scanning ps) \<longleftrightarrow> list_lock ?S = Some d" for d
      using none lock by (simp add: go_on_def)
    show "\<exists>qs. iso_head (guard ?S) = qs @ ps" if "place_of ?S d = Scanning ps" for d ps
      using that none by (auto simp: go_on_def split: if_splits)
  qed (use gdrop(1) pl own others in \<open>simp_all add: go_on_def agree_def\<close>)
  moreover have "drop_zones (p - zone_bytes cl) (guard S) = Inr (g_struct g, ?G)" using drop by (simp add: base g)
  ultimately show ?thesis by (intro that [OF gs])
qed

section \<open>Writing and scanning\<close>

text \<open>A step that changes neither the list nor what anybody owns.\<close>

lemma same_list_inv:
  assumes inv: "guard_smp_inv K gs bls S" and g: "inv2 K gs g" and heap: "calls (kheap g) = calls (kheap (guard S))"
    and head: "iso_head g = iso_head (guard S)"
    and agree: "\<And>d. agree (bls d) (guard S) g" and none: "bls c = []" and pt: "pt = Outside \<or> (\<exists>ps. pt = Scanning ps)"
    and S': "place_of S' = (place_of S)(c := pt)" "guard S' = g" "in_use S' = in_use S"
    and lock: "\<And>d. (\<exists>ps. place_of S' d = Scanning ps) \<longleftrightarrow> list_lock S' = Some d"
    and rest: "\<And>ps. pt = Scanning ps \<Longrightarrow> \<exists>qs. iso_head g = qs @ ps"
  shows "guard_smp_inv K gs bls S'"
proof -
  note D = guard_smp_invD [OF inv]
  have "guard_smp_inv K gs (bls(c := [])) S'"
  proof (rule guard_smp_inv_change [OF inv, where pt = pt])
    show "owned_blocks K gs (guard S') (bls d) \<and> agree (bls d) (guard S) (guard S') \<and> set [] \<inter> set (bls d) = {}" for d
      using D(4) [of d] agree [of d] heap by (simp add: S' owned_blocks_def)
    show "\<exists>qs. iso_head (guard S') = qs @ ps" if "place_of S' d = Scanning ps" for d ps
      using that D(7) [of d ps] rest [of ps] by (auto simp: S' head split: if_splits)
    show "place_ok K (guard S') pt []" using pt by auto
  qed (use g D(2) lock in \<open>simp_all add: S'\<close>)
  then show ?thesis by (simp add: fun_upd_idem none)
qed

lemma nothing_owned: "guard_smp_inv K gs bls S \<Longrightarrow> place_of S c = Outside \<or> (\<exists>ps. place_of S c = Scanning ps) \<Longrightarrow> bls c = []"
  using guard_smp_invD(3) [of K gs bls S c] by auto

lemma agree_refl [simp]: "agree bl s s"
  by (simp add: agree_def)

lemma write_inv:
  assumes inv: "guard_smp_inv K gs bls S" and pt: "place_of S c = Outside"
  shows "guard_smp_inv K gs bls (S\<lparr>guard := store x b (guard S)\<rparr>)"
proof (rule same_list_inv [OF inv, where c = c and pt = Outside and g = "store x b (guard S)"])
  show "inv2 K gs (store x b (guard S))"
    unfolding store_def by (rule guard_inv_bytes [OF guard_smp_invD(1) [OF inv]])
  show "(\<exists>ps. place_of (S\<lparr>guard := store x b (guard S)\<rparr>) d = Scanning ps) \<longleftrightarrow>
      list_lock (S\<lparr>guard := store x b (guard S)\<rparr>) = Some d" for d
    using guard_smp_invD(6) [OF inv, of d] by simp
qed (use pt nothing_owned [OF inv] in \<open>simp_all add: store_def agree_def fun_upd_idem\<close>)

lemma scan_start_inv:
  assumes inv: "guard_smp_inv K gs bls S" and pt: "place_of S c = Outside" and lock: "list_lock S = None"
  shows "guard_smp_inv K gs bls (go_on c (Scanning (iso_head (guard S))) (guard S) (S\<lparr>list_lock := Some c\<rparr>))"
proof (rule same_list_inv [OF inv, where c = c and pt = "Scanning (iso_head (guard S))" and g = "guard S"])
  show "inv2 K gs (guard S)" by (rule guard_smp_invD(1) [OF inv])
  show "(\<exists>ps. place_of (go_on c (Scanning (iso_head (guard S))) (guard S) (S\<lparr>list_lock := Some c\<rparr>)) d = Scanning ps) \<longleftrightarrow>
      list_lock (go_on c (Scanning (iso_head (guard S))) (guard S) (S\<lparr>list_lock := Some c\<rparr>)) = Some d" for d
    using guard_smp_invD(6) [OF inv, of d] lock by (simp add: go_on_def)
qed (use pt nothing_owned [OF inv] in \<open>simp_all add: go_on_def\<close>)

lemma scan_end_inv:
  assumes inv: "guard_smp_inv K gs bls S" and pt: "place_of S c = Scanning []"
  shows "guard_smp_inv K gs bls (go_on c Outside (guard S) (S\<lparr>list_lock := None\<rparr>))"
proof (rule same_list_inv [OF inv, where c = c and pt = Outside and g = "guard S"])
  show "inv2 K gs (guard S)" by (rule guard_smp_invD(1) [OF inv])
  have "list_lock S = Some c" using guard_smp_invD(6) [OF inv, of c] pt by auto
  then show "(\<exists>ps. place_of (go_on c Outside (guard S) (S\<lparr>list_lock := None\<rparr>)) d = Scanning ps) \<longleftrightarrow>
      list_lock (go_on c Outside (guard S) (S\<lparr>list_lock := None\<rparr>)) = Some d" for d
    using guard_smp_invD(6) [OF inv, of d] by (auto simp: go_on_def)
qed (use pt nothing_owned [OF inv] in \<open>simp_all add: go_on_def\<close>)

text \<open>The scan of one zone reports it and sets its flag if it is damaged, and does nothing else.\<close>

lemma scan_one_ok:
  assumes "inv2 K gs s" and "q \<in> set (iso_head s)"
  shows "check_zone (unat sizeof_iso_zone) q s = Inr (scanned [q] s)"
proof -
  have "check_zones (unat sizeof_iso_zone) [q] s = Inr (scanned [q] s)"
    by (rule check_zones_ok) (use inv_list_readable [OF assms(1)] assms(2) in auto)
  then show ?thesis by (cases "check_zone (unat sizeof_iso_zone) q s") simp_all
qed

lemma scan_one_inv:
  assumes inv: "guard_smp_inv K gs bls S" and pt: "place_of S c = Scanning (q # ps)"
  shows "check_zone (unat sizeof_iso_zone) q (guard S) = Inr (scanned [q] (guard S))"
    and "guard_smp_inv K gs bls (go_on c (Scanning ps) (scanned [q] (guard S)) S)"
proof -
  note D = guard_smp_invD [OF inv]
  obtain qs where head: "iso_head (guard S) = qs @ q # ps" using D(7) [OF pt] by blast
  then have q: "q \<in> set (iso_head (guard S))" by simp
  show "check_zone (unat sizeof_iso_zone) q (guard S) = Inr (scanned [q] (guard S))" by (rule scan_one_ok [OF D(1) q])
  show "guard_smp_inv K gs bls (go_on c (Scanning ps) (scanned [q] (guard S)) S)"
  proof (rule same_list_inv [OF inv, where c = c and pt = "Scanning ps" and g = "scanned [q] (guard S)"])
    show "inv2 K gs (scanned [q] (guard S))" by (rule guard_inv_scanned [OF D(1)])
    show "agree (bls d) (guard S) (scanned [q] (guard S))" for d
      using zone_not_owned(1) [OF D(1) D(4) _ q] by (auto simp: agree_def scanned_def)
    show "(\<exists>ps'. place_of (go_on c (Scanning ps) (scanned [q] (guard S)) S) d = Scanning ps') \<longleftrightarrow>
        list_lock (go_on c (Scanning ps) (scanned [q] (guard S)) S) = Some d" for d
      using D(6) [of d] pt by (auto simp: go_on_def)
    show "\<exists>qs. iso_head (scanned [q] (guard S)) = qs @ ps'" if "Scanning ps = Scanning ps'" for ps'
      using that head by (auto simp: scanned_def)
  qed (use pt nothing_owned [OF inv] in \<open>simp_all add: go_on_def scanned_def\<close>)
qed

section \<open>All steps\<close>

lemma guard_step_inv:
  assumes laws: "heap_laws K" and inv: "guard_smp_inv K gs bls S" and step: "guard_step K W c S S'"
  shows "\<exists>gs' bls'. guard_smp_inv K gs' bls' S'"
  using step
proof cases
  case (enter_wrapper cl ra)
  with enter_inv [OF inv] show ?thesis by blast
next
  case (own_run pt g)
  obtain bl where "guard_smp_inv K gs (bls(c := bl)) (go_on c pt g S)"
    by (rule own_run_inv [OF laws inv own_run(2)]) auto
  with own_run(1) show ?thesis by blast
next
  case (register_zones cl ra base buffer a g)
  with register_inv [OF inv] show ?thesis by fastforce
next
  case (unlink_zones cl ra p temp g bus)
  obtain gs1 g' gs2 where
    "drop_zones (p - zone_bytes cl) (guard S) = Inr (g_struct g', guard S\<lparr>iso_head := nodes_of (gs1 @ gs2)\<rparr>)"
    "guard_smp_inv K (gs1 @ gs2) (bls(c := blocks_of K g'))
      (go_on c (Unlinked (release_of cl bus) (p - zone_bytes cl) (g_struct g'))
        (guard S\<lparr>iso_head := nodes_of (gs1 @ gs2)\<rparr>) (S\<lparr>in_use := remove1 ((cl, ra), p) (in_use S)\<rparr>))"
    by (rule unlink_inv [OF inv unlink_zones(2-4)])
  with unlink_zones(1,5) show ?thesis by auto
next
  case (client_write x b)
  with write_inv [OF inv] show ?thesis by blast
next
  case scan_start
  with scan_start_inv [OF inv] show ?thesis by blast
next
  case (scan_one q ps g)
  with scan_one_inv [OF inv scan_one(2)] show ?thesis by auto
next
  case scan_end
  with scan_end_inv [OF inv] show ?thesis by blast
qed

lemma no_faults:
  assumes laws: "heap_laws K" and inv: "guard_smp_inv K gs bls S"
  shows "\<not> section_faults K S c"
  unfolding section_faults_def
proof (intro notI, elim exE disjE conjE)
  fix e assume "own_section K (place_of S c) (guard S) = Some (Inl e)"
  from own_run_inv [OF laws inv this] show False by auto
next
  fix e cl ra base buffer a
  assume "place_of S c = Described cl ra base buffer a" "insert_zones a (guard S) = Inl e"
  with insert_ok(1) [OF guard_smp_invD(1,4) [OF inv]] guard_smp_invD(3) [OF inv, of c] show False by fastforce
next
  fix e q ps assume "place_of S c = Scanning (q # ps)" "check_zone (unat sizeof_iso_zone) q (guard S) = Inl e"
  with scan_one_inv(1) [OF inv] show False by fastforce
next
  fix e cl ra p
  assume a: "place_of S c = Outside" "((cl, ra), p) \<in> set (in_use S)" "list_lock S = None"
    "drop_zones (p - zone_bytes cl) (guard S) = Inl e"
  from unlink_inv [OF inv a(1-3)] a(4) show False by auto
qed

end
