(* ===== verification/Guard_Smp_Quiet.thy ===== *)
theory Guard_Smp_Quiet
  imports Guard_Smp_Steps
begin

text \<open>
  On several processors, as long as clients write only inside their rooms, every zone is whole: those on
  the list, and those that a processor has filled and not yet put on it.
\<close>

definition guard_quiet :: "guard_smp \<Rightarrow> bool" where
  "guard_quiet S \<longleftrightarrow> quiet (guard S) \<and> (\<forall>c. whole (kheap (guard S)) (place_of S c))"

section \<open>What is not owned does not change\<close>

lemma own_change_quiet:
  assumes inv: "inv2 K gs s" and own: "owned_blocks K gs s bl" and ch: "own_change K gs bl s bl' s'" and "quiet s"
  shows "quiet s'"
  unfolding quiet_def
proof (intro conjI ballI allI)
  fix q assume "q \<in> set (iso_head s')"
  then have q: "q \<in> set (iso_head s)" using ch by (simp add: own_change_def)
  have same: "\<forall>y\<in>set (live (calls (kheap s))) - set bl.
      \<forall>x. within x y \<longrightarrow> zones s' x = zones s x \<and> bytes (kheap s') x = bytes (kheap s) x"
    using ch unfolding own_change_def by blast
  from listed_within [OF inv q] obtain g where g: "g \<in> set gs"
    "within q (g_struct g, Kmalloc (g_struct_size g) (GFP_KERNEL K))"
    "\<And>x. x \<in> bytes_at (addr (zones s q)) (unat (iso_size (zones s q))) \<Longrightarrow> within x (g_base g, g_req g)" by metis
  have mine: "y \<in> set (live (calls (kheap s))) - set bl" if "y \<in> set (blocks_of K g)" for y
    using guard_invD(6) [OF inv g(1) that] own g(1) that by (auto simp: owned_blocks_def unused_def)
  have "zones s' q = zones s q" using same mine g(2) by (force simp: blocks_of_def)
  moreover have "bytes (kheap s') x = bytes (kheap s) x"
    if "x \<in> bytes_at (addr (zones s q)) (unat (iso_size (zones s q)))" for x
    using same mine [of "(g_base g, g_req g)"] g(3) [OF that] by (simp add: blocks_of_def)
  moreover have "\<not> flag (zones s q) \<and> \<not> damaged (kheap s) (addr (zones s q)) (iso_size (zones s q))"
    using assms(4) q by (simp add: quiet_def)
  ultimately show "\<not> flag (zones s' q)" "\<not> damaged (kheap s') (addr (zones s' q)) (iso_size (zones s' q))"
    by (auto simp: damaged_def)
next
  fix t from ch obtain ms where "messages s' = messages s @ ms" "\<forall>t. MemoryOverflow t \<notin> set ms"
    by (auto simp: own_change_def)
  with assms(4) show "MemoryOverflow t \<notin> set (messages s')" by (simp add: quiet_def)
qed

text \<open>The zones a processor has filled lie in its block.\<close>

lemma filled_within:
  assumes "sane_call c" and "sound_block (base, request_of K c)"
    and "x \<in> bytes_at base (unat (zone_bytes c)) \<union> bytes_at (base + zone_bytes c + user_bytes c) (unat (zone_bytes c))"
  shows "within x (base, request_of K c)"
  using assms(3) room_fits(4,5) [OF assms(1,2)] by (auto simp: within_def bytes_at_def)

lemma whole_same:
  assumes "place_ok K s pt bl" and "\<forall>b\<in>set bl. sound_block b"
    and same: "\<And>x y. y \<in> set bl \<Longrightarrow> within x y \<Longrightarrow> bytes h' x = bytes h x" and "whole h pt"
  shows "whole h' pt"
proof -
  have "guard_bytes c base h'"
    if "sane_call c" "(base, request_of K c) \<in> set bl" "guard_bytes c base h" for c base
    using that same filled_within [OF that(1)] assms(2) by (fastforce simp: guard_bytes_def)
  with assms(1,4) show ?thesis by (cases pt) auto
qed

section \<open>Steps of disciplined clients\<close>

lemma own_run_quiet:
  assumes laws: "heap_laws K" and inv: "guard_smp_inv K gs bls S" and quiet: "guard_quiet S"
    and run: "own_section K (place_of S c) (guard S) = Some (Inr (pt, g))"
  shows "guard_quiet (go_on c pt g S)"
proof -
  note D = guard_smp_invD [OF inv]
  obtain bl where ch: "own_change K gs (bls c) (guard S) bl g"
    and whole: "whole (kheap (guard S)) (place_of S c) \<longrightarrow> whole (kheap g) pt"
    by (rule own_run_inv [OF laws inv run]) auto
  have "quiet g" by (rule own_change_quiet [OF D(1,4) ch]) (use quiet in \<open>simp add: guard_quiet_def\<close>)
  moreover have "whole (kheap g) (place_of S d)" if "d \<noteq> c" for d
  proof (rule whole_same [OF D(3) owned_sound [OF D(1,4)]])
    show "bytes (kheap g) x = bytes (kheap (guard S)) x" if "y \<in> set (bls d)" "within x y" for x y
      using own_change_others(4) [OF D(1) ch D(4) D(5) that] \<open>d \<noteq> c\<close> by blast
    show "whole (kheap (guard S)) (place_of S d)" using quiet by (simp add: guard_quiet_def)
  qed
  ultimately show ?thesis using whole quiet by (simp add: guard_quiet_def go_on_def)
qed

lemma register_quiet:
  assumes inv: "guard_smp_inv K gs bls S" and quiet: "guard_quiet S"
    and pt: "place_of S c = Described cl ra base buffer a"
  shows "guard_quiet (go_on c Outside (guard S\<lparr>iso_head := [a + sizeof_iso_zone, a] @ iso_head (guard S)\<rparr>)
    (S\<lparr>in_use := hs\<rparr>))"
proof -
  note D = guard_smp_invD [OF inv]
  have pl: "place_ok K (guard S) (Described cl ra base buffer a) (bls c)" using D(3) [of c] by (simp add: pt)
  have "sound_block (base, request_of K cl)" using owned_sound [OF D(1) D(4) [of c]] pl by simp
  then have sz: "unat (ucast (zone_bytes cl) :: u32) = unat (zone_bytes cl)"
    using room_fits(1) pl by (simp add: fits_def unsigned_ucast_eq take_bit_nat_eq_self)
  have "guard_bytes cl base (kheap (guard S))" using quiet pt unfolding guard_quiet_def by (metis whole.simps(5))
  then have "\<not> flag (zones (guard S) q) \<and>
      \<not> damaged (kheap (guard S)) (addr (zones (guard S) q)) (iso_size (zones (guard S) q))"
    if "q \<in> {a + sizeof_iso_zone, a}" for q
    using that pl sz by (auto simp: described_def to_guard_def guard_bytes_def damaged_def)
  with quiet show ?thesis by (simp add: guard_quiet_def quiet_def go_on_def)
qed

text \<open>A room is neither in a zone on the list nor in a block of a processor.\<close>

lemma write_quiet:
  assumes inv: "guard_smp_inv K gs bls S" and quiet: "guard_quiet S" and room: "in_room (in_use S) x"
  shows "guard_quiet (S\<lparr>guard := store x b (guard S)\<rparr>)"
proof -
  note D = guard_smp_invD [OF inv]
  from room obtain cl ra p i where mem: "((cl, ra), p) \<in> set (in_use S)" and i: "i < unat (user_bytes cl)"
    and x: "x = p + of_nat i" by (auto simp: in_room_def)
  from split_held [OF D(2) mem] obtain gs1 g gs2 where gs: "gs = gs1 @ g # gs2" and g: "holds K ((cl, ra), p) g" by metis
  have gin: "g \<in> set gs" by (simp add: gs)
  have "quiet (store x b (guard S))"
    unfolding quiet_def
  proof (intro conjI ballI allI)
    fix q assume "q \<in> set (iso_head (store x b (guard S)))"
    then have q: "q \<in> set (iso_head (guard S))" by (simp add: store_def)
    then obtain g' z where g': "g' \<in> set gs" "(q, z) \<in> set (g_nodes g')"
      by (auto simp: guard_invD(2) [OF D(1)] set_nodes_of)
    have d: "addr (zones (guard S) q) = z" "iso_size (zones (guard S) q) = g_size g'"
      using guard_invD(5) [OF D(1) g'(1)] g'(2) by (auto simp: described_def)
    have "x \<notin> bytes_at z (unat (g_size g'))" unfolding x by (rule room_no_zone [OF D(1) gin g i g'])
    then show "\<not> flag (zones (store x b (guard S)) q)"
      "\<not> damaged (kheap (store x b (guard S))) (addr (zones (store x b (guard S)) q)) (iso_size (zones (store x b (guard S)) q))"
      using quiet q d by (auto simp: guard_quiet_def quiet_def store_def damaged_def)
  qed (use quiet in \<open>simp add: guard_quiet_def quiet_def store_def\<close>)
  moreover have "within x (g_base g, g_req g)"
  proof -
    from g obtain a buffer base where pair: "g = pair_of a buffer ra base (request_of K cl) (zone_bytes cl)
        (base + zone_bytes cl + user_bytes cl)" and p: "p = base + zone_bytes cl" and cl: "sane_call cl"
      by (auto simp: holds_def)
    have sb: "sound_block (base, request_of K cl)"
      by (rule live_sound [OF guard_invD(1) [OF D(1)] guard_invD(6) [OF D(1) gin]]) (simp add: blocks_of_def pair)
    note fits = room_fits [OF cl sb]
    have "unat x = unat p + i"
      unfolding x using sb fits(3,5) i p
      by (simp add: sound_block_def unat_plus_if' unsigned_of_nat take_bit_nat_eq_self)
    then show ?thesis using fits(3,5) i p by (simp add: within_def pair)
  qed
  then have away: "\<not> within x y" if "y \<in> set (bls d)" for d y
    using listed_not_owned [OF D(1) D(4) that gin, of "(g_base g, g_req g)"] by (simp add: blocks_of_def)
  have "whole (kheap (store x b (guard S))) (place_of S d)" for d
  proof (rule whole_same [OF D(3) owned_sound [OF D(1,4)]])
    show "bytes (kheap (store x b (guard S))) x' = bytes (kheap (guard S)) x'" if "y \<in> set (bls d)" "within x' y" for x' y
      using away [OF that(1)] that(2) by (auto simp: store_def)
    show "whole (kheap (guard S)) (place_of S d)" using quiet by (simp add: guard_quiet_def)
  qed
  ultimately show ?thesis by (simp add: guard_quiet_def)
qed

lemma scan_quiet:
  assumes "guard_quiet S" and "q \<in> set (iso_head (guard S))"
  shows "scanned [q] (guard S) = guard S"
  by (rule scanned_id) (use assms in \<open>simp add: guard_quiet_def quiet_def bad_def\<close>)

lemma guard_step_quiet:
  assumes laws: "heap_laws K" and inv: "guard_smp_inv K gs bls S" and quiet: "guard_quiet S"
    and step: "guard_step K in_room c S S'"
  shows "guard_quiet S'"
  using step
proof cases
  case (enter_wrapper cl ra)
  with quiet show ?thesis by (simp add: guard_quiet_def go_on_def)
next
  case (own_run pt g)
  with own_run_quiet [OF laws inv quiet] show ?thesis by simp
next
  case (register_zones cl ra base buffer a g)
  have "g = guard S\<lparr>iso_head := [a + sizeof_iso_zone, a] @ iso_head (guard S)\<rparr>"
    using register_inv(1) [OF inv register_zones(2,3)] register_zones(4) by simp
  with register_quiet [OF inv quiet register_zones(2)] register_zones(1) show ?thesis by (simp only:)
next
  case (unlink_zones cl ra p temp g bus)
  obtain gs1 g' gs2 where "gs = gs1 @ g' # gs2"
    "drop_zones (p - zone_bytes cl) (guard S) = Inr (g_struct g', guard S\<lparr>iso_head := nodes_of (gs1 @ gs2)\<rparr>)"
    by (rule unlink_inv [OF inv unlink_zones(2-4)])
  moreover from this(1) have "set (nodes_of (gs1 @ gs2)) \<subseteq> set (iso_head (guard S))"
    using guard_invD(2) [OF guard_smp_invD(1) [OF inv]] by auto
  ultimately show ?thesis using quiet unlink_zones(1,5) by (auto simp: guard_quiet_def quiet_def go_on_def)
next
  case (client_write x b)
  with write_quiet [OF inv quiet] show ?thesis by simp
next
  case scan_start
  with quiet show ?thesis by (simp add: guard_quiet_def go_on_def)
next
  case (scan_one q ps g)
  have "\<exists>qs. iso_head (guard S) = qs @ q # ps" by (rule guard_smp_invD(7) [OF inv scan_one(2)])
  then have "scanned [q] (guard S) = guard S" by (intro scan_quiet [OF quiet]) auto
  with scan_one scan_one_inv(1) [OF inv scan_one(2)] quiet show ?thesis by (simp add: guard_quiet_def go_on_def)
next
  case scan_end
  with quiet show ?thesis by (simp add: guard_quiet_def go_on_def)
qed

end
