(* ===== verification/Guard_Smp_Props.thy ===== *)
theory Guard_Smp_Props
  imports Guard_Smp_Quiet Guard_Two_Props
begin

text \<open>
  The properties of the overflow checker with two zones on several processors,
  mem_overflow/code/mem_overflow_check.c.
\<close>

section \<open>Runs\<close>

text \<open>The checker before anything was allocated.\<close>

definition unused_checker :: "guard2 \<Rightarrow> bool" where
  "unused_checker g \<longleftrightarrow> iso_head g = [] \<and> messages g = [] \<and> calls (kheap g) = []"

lemma rest_inv:
  assumes "unused_checker g"
  shows "guard_smp_inv K [] (\<lambda>_. []) (guards_at_rest g)" and "guard_quiet (guards_at_rest g)"
  using assms
  by (simp_all add: unused_checker_def guards_at_rest_def guard_smp_inv_def guard_quiet_def quiet_def
      guard_inv_def heap_ok_def)

lemma guard_run_inv:
  assumes "guard_run K W S0 S" and "heap_laws K" and "guard_smp_inv K gs0 bls0 S0"
  shows "\<exists>gs bls. guard_smp_inv K gs bls S"
  using assms by (induction rule: guard_run.induct) (blast dest: guard_step_inv)+

lemma guard_run_quiet:
  assumes "guard_run K in_room S0 S" and "heap_laws K" and "guard_smp_inv K gs0 bls0 S0" and "guard_quiet S0"
  shows "guard_quiet S"
  using assms
proof (induction rule: guard_run.induct)
  case (guard_next S0 S c S')
  with guard_run_inv [OF guard_next(1,4,5)] guard_step_quiet show ?case by blast
qed

lemma held_nodes: "list_all2 (holds K) held gs \<Longrightarrow> length (nodes_of gs) = 2 * length held"
  by (induction rule: list_all2_induct) (auto simp: holds_def)

section \<open>Silence\<close>

text \<open>C18: Clients on any number of processors that release each block once, with the matching function,
  and write only inside their rooms: however the sections of their calls and of the scans interleave and
  whichever requests are refused, no section faults, no overflow is reported, and the list holds two
  zones for every block given out.\<close>

theorem smp_clients_silent:
  assumes "heap_laws K" and "unused_checker g" and "guard_run K in_room (guards_at_rest g) S"
  shows "(\<forall>c. \<not> section_faults K S c) \<and> (\<forall>t. MemoryOverflow t \<notin> set (messages (guard S))) \<and>
    length (iso_head (guard S)) = 2 * length (in_use S)"
proof (intro conjI allI)
  note start = rest_inv [OF assms(2)]
  from guard_run_inv [OF assms(3,1) start(1)] obtain gs bls where inv: "guard_smp_inv K gs bls S" by blast
  show "\<not> section_faults K S c" for c by (rule no_faults [OF assms(1) inv])
  show "MemoryOverflow t \<notin> set (messages (guard S))" for t
    using guard_run_quiet [OF assms(3,1) start] by (simp add: guard_quiet_def quiet_def)
  show "length (iso_head (guard S)) = 2 * length (in_use S)"
    using held_nodes guard_smp_invD(1,2) [OF inv] guard_invD(2) by metis
qed

section \<open>Scans during which damage lasts\<close>













section \<open>Wrappers and scans return\<close>










section \<open>A release in an interrupt\<close>




section \<open>The wrappers are their sections\<close>

lemma go_on_twice [simp]:
  "go_on c pt g (go_on c pt' g' S) = go_on c pt g S" "place_of (go_on c pt g S) c = pt"
  "guard (go_on c pt g S) = g" "list_lock (go_on c pt g S) = list_lock S" "in_use (go_on c pt g S) = in_use S"
  by (simp_all add: go_on_def)

lemma own_alone:
  assumes "own_section K pt g = Some (Inr (pt', g'))" and "(guard_step K W c)\<^sup>*\<^sup>* (go_on c pt' g' S) T"
  shows "(guard_step K W c)\<^sup>*\<^sup>* (go_on c pt g S) T"
proof -
  have "guard_step K W c (go_on c pt g S) (go_on c pt' g' S)"
    using guard_step.own_run [of K "go_on c pt g S" c pt' g' W] assms(1) by simp
  then show ?thesis using assms(2) by (rule converse_rtranclp_into_rtranclp)
qed

text \<open>From the block on: the wrapper is through, with the block registered if a pointer is returned.\<close>

definition returned :: "nat \<Rightarrow> call \<Rightarrow> u64 \<Rightarrow> u64 \<Rightarrow> guard2 \<Rightarrow> guard_smp \<Rightarrow> guard_smp" where
  "returned c cl ra p g S = go_on c Outside g
     (S\<lparr>in_use := if p = 0 then in_use S else ((cl, ra), p) # in_use S\<rparr>)"

lemma register_alone:
  assumes "list_lock S = None" and "insert_zones a g = Inr g'" and "base + zone_bytes cl \<noteq> 0"
  shows "(guard_step K W c)\<^sup>*\<^sup>* (go_on c (Described cl ra base buffer a) g S)
    (returned c cl ra (base + zone_bytes cl) g' S)"
proof -
  have "guard_step K W c (go_on c (Described cl ra base buffer a) g S)
      (go_on c Outside g' (go_on c (Described cl ra base buffer a) g S
        \<lparr>in_use := ((cl, ra), base + zone_bytes cl) # in_use S\<rparr>))"
    using guard_step.register_zones [of "go_on c (Described cl ra base buffer a) g S" c cl ra base buffer a g' K W] assms
    by simp
  also have "go_on c Outside g' (go_on c (Described cl ra base buffer a) g S
        \<lparr>in_use := ((cl, ra), base + zone_bytes cl) # in_use S\<rparr>) = returned c cl ra (base + zone_bytes cl) g' S"
    using assms(3) by (simp add: returned_def go_on_def)
  finally show ?thesis by (rule r_into_rtranclp)
qed

lemma guard_block_alone:
  assumes lock: "list_lock S = None" and nz: "base + zone_bytes cl \<noteq> 0"
    and run: "guard_block K ra (zone_bytes cl) base (base + zone_bytes cl + user_bytes cl) (base + zone_bytes cl) g
      = Inr (p, g')"
  shows "(guard_step K W c)\<^sup>*\<^sup>* (go_on c (Got_block cl ra base) g S) (returned c cl ra p g' S)"
proof -
  let ?second = "base + zone_bytes cl + user_bytes cl"
  from run obtain h where fill: "fill_zones base ?second (unat (zone_bytes cl)) (kheap g) = Inr h"
    by (auto simp: guard_block_def bind_result_Inr)
  obtain buffer h1 where b: "kmalloc K 200 (GFP_KERNEL K) h = (buffer, h1)" by fastforce
  have stop: "(guard_step K W c)\<^sup>*\<^sup>* (go_on c Outside g' S) (returned c cl ra 0 g' S)"
    by (simp add: returned_def)
  show ?thesis
  proof (cases "buffer = 0 \<or> ra = 0")
    case True
    with run fill b have p: "p = 0" "g' = say BufferFailed (g\<lparr>kheap := h1\<rparr>)" by (simp_all add: guard_block_def)
    show ?thesis
      by (rule own_alone [where pt' = "Zones_filled cl ra base" and g' = "g\<lparr>kheap := h\<rparr>"], use fill in simp,
          rule own_alone [where pt' = Outside and g' = g'], use True b p in simp) (use stop p in simp)
  next
    case False
    with run fill b obtain h2 where t: "sprint_symbol K buffer ra h1 = Inr h2"
      by (auto simp: guard_block_def bind_result_Inr)
    obtain a h3 where a: "kmalloc K (2 * sizeof_iso_zone) (GFP_KERNEL K) h2 = (a, h3)" by fastforce
    have named: "(guard_step K W c)\<^sup>*\<^sup>* (go_on c (Got_block cl ra base) g S) T"
      if "(guard_step K W c)\<^sup>*\<^sup>* (go_on c (Named cl ra base buffer) (g\<lparr>kheap := h2\<rparr>) S) T" for T
      by (rule own_alone [where pt' = "Zones_filled cl ra base" and g' = "g\<lparr>kheap := h\<rparr>"], use fill in simp,
          rule own_alone [where pt' = "Got_text cl ra base buffer" and g' = "g\<lparr>kheap := h1\<rparr>"], use False b in simp,
          rule own_alone [where pt' = "Named cl ra base buffer" and g' = "g\<lparr>kheap := h2\<rparr>"], use t in simp)
        (rule that)
    show ?thesis
    proof (cases "a = 0")
      case True
      with run fill b False t a have p: "p = 0" "g' = say StructFailed (g\<lparr>kheap := h3\<rparr>)"
        by (simp_all add: guard_block_def)
      show ?thesis
        by (rule named, rule own_alone [where pt' = Outside and g' = g'], use True a p in simp) (use stop p in simp)
    next
      case a0: False
      let ?zone = "\<lambda>p. \<lparr>callerinfo = buffer, iso_size = ucast (zone_bytes cl), addr = p, flag = False\<rparr>"
      let ?g = "g\<lparr>kheap := h3, zones := (zones g)(a := ?zone base, a + sizeof_iso_zone := ?zone ?second)\<rparr>"
      from run fill b False t a a0 have ins: "insert_zones a ?g = Inr g'" and p: "p = base + zone_bytes cl"
        by (auto simp: guard_block_def insert_zones_def bind_result_Inr Let_def)
      show ?thesis
        unfolding p
        by (rule named, rule own_alone [where pt' = "Got_struct cl ra base buffer a" and g' = "g\<lparr>kheap := h3\<rparr>"],
            use a0 a in simp, rule own_alone [where pt' = "Described cl ra base buffer a" and g' = ?g], simp)
          (rule register_alone [OF lock ins nz])
    qed
  qed
qed

lemma ask_block_alone:
  assumes laws: "heap_laws K" and lock: "list_lock S = None" and cl: "sane_call cl"
    and pt: "own_section K pt g = Some (Inr (ask_block K cl ra g))" and run: "guarded_alloc K cl ra g = Inr (p, g')"
  shows "(guard_step K W c)\<^sup>*\<^sup>* (go_on c pt g S) (returned c cl ra p g' S)"
proof -
  obtain base h where ask: "ask K (request_of K cl) (kheap g) = (base, h)" by fastforce
  show ?thesis
  proof (cases "base = 0")
    case True
    with ask run have p: "p = 0" "g' = say AllocationFailed (g\<lparr>kheap := h\<rparr>)" by (simp_all add: guarded_alloc_def)
    show ?thesis
      by (rule own_alone [where pt' = Outside and g' = g'], use True ask p pt in \<open>simp add: ask_block_def\<close>)
        (simp add: returned_def p)
  next
    case False
    have sb: "sound_block (base, request_of K cl)"
      by (rule ask_sound [OF laws ask False request_positive [OF cl]])
    then have "0 < unat base" by (simp add: sound_block_def unat_gt_0)
    with room_fits(3) [OF cl sb] have nz: "base + zone_bytes cl \<noteq> 0" by (metis add_gr_0 less_irrefl unsigned_0)
    show ?thesis
      by (rule own_alone [where pt' = "Got_block cl ra base" and g' = "g\<lparr>kheap := h\<rparr>"],
          use False ask pt in \<open>simp add: ask_block_def\<close>, rule guard_block_alone [OF lock nz])
        (use run ask False in \<open>simp add: guarded_alloc_def\<close>)
  qed
qed

lemma alloc_alone:
  assumes laws: "heap_laws K" and S: "place_of S c = Outside" "list_lock S = None"
    and cl: "sane_call cl" "nameable K ra" and run: "do_alloc K (cl, ra) (guard S) = Inr (p, g')"
  shows "(guard_step K W c)\<^sup>*\<^sup>* S (returned c cl ra p g' S)"
proof -
  have "guard_step K W c S (go_on c (Entered cl ra) (guard S) S)" by (rule guard_step.enter_wrapper [OF S(1) cl])
  moreover have "(guard_step K W c)\<^sup>*\<^sup>* (go_on c (Entered cl ra) (guard S) S) (returned c cl ra p g' S)"
  proof (cases "is_dma cl")
    case False
    have "guarded_alloc K cl ra (guard S) = Inr (p, g')"
      using run by (simp only: do_alloc_eq [OF False] guarded_alloc_def)
    then show ?thesis using False by (intro ask_block_alone [OF laws S(2) cl(1)]) simp_all
  next
    case True
    then obtain n flags where cl': "cl = SdmaAlloc n flags" by (cases cl) (auto simp: is_dma_def)
    obtain handle h where k: "kmalloc K 8 (GFP_KERNEL K) (kheap (guard S)) = (handle, h)" by fastforce
    note run' = run [unfolded cl' do_alloc_dma k, folded cl', simplified Let_def prod.case]
    show ?thesis
    proof (cases "handle = 0")
      case h0: True
      with run' have p: "p = 0" "g' = say HandleFailed (guard S\<lparr>kheap := h\<rparr>)" by simp_all
      show ?thesis
        by (rule own_alone [where pt' = Outside and g' = g'], use True h0 k p in simp) (simp add: returned_def p)
    next
      case False
      with run' have "guarded_alloc K cl ra (guard S\<lparr>kheap := h\<rparr>) = Inr (p, g')" by simp
      note rest = ask_block_alone [OF laws S(2) cl(1) _ this, of "Handled cl ra" W c]
      show ?thesis
        by (rule own_alone [where pt' = "Handled cl ra" and g' = "guard S\<lparr>kheap := h\<rparr>"], use True False k in simp,
            rule rest) simp
    qed
  qed
  ultimately show ?thesis by (rule converse_rtranclp_into_rtranclp)
qed

lemma release_alone:
  assumes S: "place_of S c = Outside" "list_lock S = None" and mem: "((cl, ra), p) \<in> set (in_use S)" and nz: "p \<noteq> 0"
    and run: "do_free (cl, ra) p bus (guard S) = Inr g'"
  shows "(guard_step K W c)\<^sup>*\<^sup>* S (go_on c Outside g' (S\<lparr>in_use := remove1 ((cl, ra), p) (in_use S)\<rparr>))"
proof -
  let ?base = "p - zone_bytes cl" and ?q = "release_of cl bus" and ?S = "S\<lparr>in_use := remove1 ((cl, ra), p) (in_use S)\<rparr>"
  have "unguard_block ?base ?q (guard S) = Inr g'" using run nz by (simp add: do_free_eq)
  then obtain temp g1 g2 where drop: "drop_zones ?base (guard S) = Inr (temp, g1)"
    and free: "free_temp (unat sizeof_iso_zone) temp g1 = Inr g2" and rel: "release ?q ?base g2 = Inr g'"
    by (auto simp: unguard_block_def bind_result_Inr)
  have temp: "temp \<noteq> 0" "node_live (unat sizeof_iso_zone) g1 temp"
    using free by (auto simp: free_temp_def split: if_splits)
  with free obtain h1 h2 where t: "give Kfree (callerinfo (zones g1 temp)) (kheap g1) = Inr h1"
    "give Kfree temp h1 = Inr h2" "g2 = g1\<lparr>kheap := h2\<rparr>"
    by (auto simp: free_temp_def bind_result_Inr)
  have "guard_step K W c S (go_on c (Unlinked ?q ?base temp) g1 ?S)"
    by (rule guard_step.unlink_zones [OF S(1) mem S(2) drop])
  moreover have "(guard_step K W c)\<^sup>*\<^sup>* (go_on c (Unlinked ?q ?base temp) g1 ?S) (go_on c Outside g' ?S)"
    by (rule own_alone [where pt' = "Text_freed ?q ?base temp" and g' = "g1\<lparr>kheap := h1\<rparr>"], use temp t in simp,
        rule own_alone [where pt' = "Struct_freed ?q ?base" and g' = g2], use t in simp,
        rule own_alone [where pt' = Outside and g' = g'], use rel in simp, rule rtranclp.rtrancl_refl)
  ultimately show ?thesis by (rule converse_rtranclp_into_rtranclp)
qed

lemma zones_alone:
  "check_zones (unat sizeof_iso_zone) ps g = Inr g' \<Longrightarrow>
     (guard_step K W c)\<^sup>*\<^sup>* (go_on c (Scanning ps) g S) (go_on c (Scanning []) g' S)"
proof (induction ps arbitrary: g)
  case (Cons q ps)
  then obtain g1 where one: "check_zone (unat sizeof_iso_zone) q g = Inr g1"
    "check_zones (unat sizeof_iso_zone) ps g1 = Inr g'" by (auto simp: bind_result_Inr)
  have "guard_step K W c (go_on c (Scanning (q # ps)) g S) (go_on c (Scanning ps) g1 S)"
    using guard_step.scan_one [of "go_on c (Scanning (q # ps)) g S" c q ps g1 K W] one(1) by simp
  with Cons.IH [OF one(2)] show ?case by (simp add: converse_rtranclp_into_rtranclp)
qed simp

lemma scan_alone:
  assumes S: "place_of S c = Outside" "list_lock S = None" and run: "check_iso (guard S) = Inr g'"
  shows "(guard_step K W c)\<^sup>*\<^sup>* S (go_on c Outside g' S)"
proof -
  let ?S = "S\<lparr>list_lock := Some c\<rparr>"
  have "check_zones (unat sizeof_iso_zone) (iso_head (guard S)) (guard S) = Inr g'"
    using run by (simp add: check_iso_def split: if_splits)
  note zs = zones_alone [OF this, where K = K and W = W and c = c and S = ?S]
  have "guard_step K W c S (go_on c (Scanning (iso_head (guard S))) (guard S) ?S)"
    by (rule guard_step.scan_start [OF S])
  also note zs
  also have "guard_step K W c (go_on c (Scanning []) g' ?S) (go_on c Outside g' (go_on c (Scanning []) g' ?S\<lparr>list_lock := None\<rparr>))"
    using guard_step.scan_end [of "go_on c (Scanning []) g' ?S" c K W] by simp
  also have "go_on c Outside g' (go_on c (Scanning []) g' ?S\<lparr>list_lock := None\<rparr>) = go_on c Outside g' S"
    using S(2) by (simp add: go_on_def)
  finally show ?thesis .
qed

lemma run_alone: "(guard_step K W c)\<^sup>*\<^sup>* S T \<Longrightarrow> guard_run K W S0 S \<Longrightarrow> guard_run K W S0 T"
  by (induction rule: rtranclp_induct) (auto intro: guard_next)

text \<open>All processors outside the wrappers, with these blocks given out.\<close>

definition resting :: "((call \<times> u64) \<times> u64) list \<Rightarrow> guard2 \<Rightarrow> guard_smp" where
  "resting held g = (guards_at_rest g)\<lparr>in_use := held\<rparr>"

lemma resting_simps [simp]:
  "place_of (resting held g) c = Outside" "list_lock (resting held g) = None" "guard (resting held g) = g"
  "in_use (resting held g) = held" "resting held g\<lparr>guard := g'\<rparr> = resting held g'"
  "go_on c Outside g' (resting held g) = resting held g'" "resting held g\<lparr>in_use := held'\<rparr> = resting held' g"
  by (simp_all add: resting_def guards_at_rest_def go_on_def fun_upd_idem)

lemma returned_resting: "returned c cl ra p g' (resting held g) = resting (if p = 0 then held else ((cl, ra), p) # held) g'"
  by (simp add: returned_def)

lemma held_nonzero:
  assumes "client_inv K held s" and "(x, p) \<in> set held"
  shows "p \<noteq> 0"
proof -
  from assms(1) obtain gs where inv: "inv2 K gs s" and all: "list_all2 (holds K) held gs" by (auto simp: client_inv_def)
  from split_held [OF all assms(2)] obtain gs1 g gs2 where gs: "gs = gs1 @ g # gs2" and g: "holds K (x, p) g" by metis
  from g obtain a buffer base c ra where
    pair: "g = pair_of a buffer ra base (request_of K c) (zone_bytes c) (base + zone_bytes c + user_bytes c)"
    and p: "p = base + zone_bytes c" and c: "sane_call c" by (auto simp: holds_def split: prod.splits)
  have sb: "sound_block (base, request_of K c)"
    by (rule live_sound [OF guard_invD(1) [OF inv] guard_invD(6) [OF inv, of g]]) (simp_all add: gs blocks_of_def pair)
  then have "0 < unat base" by (simp add: sound_block_def unat_gt_0)
  with room_fits(3) [OF c sb] p show ?thesis by (metis add_gr_0 less_irrefl unsigned_0)
qed

text \<open>Each event of a sequential client, run by one processor while the others rest.\<close>

lemma client_run_sections:
  assumes "client_run (do_alloc K) do_free store check_iso room_of es held g = Inr (held', g')"
    and "client_inv K held g" and "\<forall>e\<in>set es. \<forall>(c, ra)\<in>asks e. sane_call c \<and> nameable K ra"
    and "guard_run K in_room S0 (resting held g)"
  shows "guard_run K in_room S0 (resting held' g')"
  using assms
proof (induction es arbitrary: held g)
  case (Cons e es)
  have laws: "heap_laws K" using Cons.prems(2) by (simp add: client_inv_def)
  have rest: "\<forall>e\<in>set es. \<forall>(c, ra)\<in>asks e. sane_call c \<and> nameable K ra" using Cons.prems(3) by simp
  show ?case
  proof (cases e)
    case (Allocate x)
    obtain cl ra where x: "x = (cl, ra)" by (cases x)
    with Cons.prems(3) Allocate have c: "sane_call cl" "nameable K ra" by simp_all
    from client_alloc [OF Cons.prems(2) c] obtain p g1 where al: "do_alloc K (cl, ra) g = Inr (p, g1)"
      and inv: "client_inv K (if p = 0 then held else ((cl, ra), p) # held) g1" by blast
    have "guard_run K in_room S0 (resting (if p = 0 then held else ((cl, ra), p) # held) g1)"
      using run_alone [OF alloc_alone [OF laws _ _ c, where S = "resting held g" and c = 0 and W = in_room] Cons.prems(4)]
        al by (simp add: returned_resting)
    from Cons.IH [OF _ inv rest this] Cons.prems(1) show ?thesis by (simp add: Allocate x al del: do_alloc.simps)
  next
    case (Free x p bus)
    show ?thesis
    proof (cases "(x, p) \<in> set held")
      case True
      obtain cl ra where x: "x = (cl, ra)" by (cases x)
      from client_free [OF Cons.prems(2) True, of bus] obtain g1 where fr: "do_free x p bus g = Inr g1"
        and inv: "client_inv K (remove1 (x, p) held) g1" by blast
      have "guard_run K in_room S0 (resting (remove1 (x, p) held) g1)"
        using run_alone [OF release_alone [where S = "resting held g" and c = 0 and W = in_room and K = K] Cons.prems(4)]
          True fr held_nonzero [OF Cons.prems(2) True] by (simp add: x del: do_free.simps)
      from Cons.IH [OF _ inv rest this] Cons.prems(1) True fr show ?thesis by (simp add: Free del: do_free.simps)
    next
      case False
      with Cons.IH [OF _ Cons.prems(2) rest Cons.prems(4)] Cons.prems(1) show ?thesis by (simp add: Free)
    qed
  next
    case (Write x p i b)
    obtain cl ra where x: "x = (cl, ra)" by (cases x)
    show ?thesis
    proof (cases "(x, p) \<in> set held \<and> i < unat (user_bytes cl)")
      case True
      have "in_room (in_use (resting held g)) (p + of_nat i)"
        unfolding in_room_def by (rule bexI [of _ "((cl, ra), p)"]) (use True in \<open>auto simp: x\<close>)
      then have "guard_run K in_room S0 (resting held (store (p + of_nat i) b g))"
        using guard_next [OF Cons.prems(4) guard_step.client_write [of "resting held g" 0]] by simp
      moreover have "client_inv K held (store (p + of_nat i) b g)"
        by (rule client_store [OF Cons.prems(2), of cl ra]) (use True in \<open>simp_all add: x\<close>)
      ultimately show ?thesis using Cons.IH rest Cons.prems(1) True by (simp add: Write x)
    next
      case False
      with Cons.IH [OF _ Cons.prems(2) rest Cons.prems(4)] Cons.prems(1) show ?thesis by (auto simp: Write x)
    qed
  next
    case Scan
    have sc: "check_iso g = Inr g" by (rule client_scan [OF Cons.prems(2)])
    with Cons.IH [OF _ Cons.prems(2) rest Cons.prems(4)] Cons.prems(1) show ?thesis by (simp add: Scan)
  qed
qed simp

text \<open>C19: The wrappers run one after the other, as the rest of the development has them, are a special case:
  whatever one client without misuse asks for, writes and scans leads to a result, and one processor
  gets there section by section, with the same state of the checker and the same blocks given out.\<close>

theorem client_run_is_smp_run:
  assumes "heap_laws K" and "unused_checker g"
    and "\<forall>e\<in>set es. \<forall>(c, ra)\<in>asks e. sane_call c \<and> nameable K ra"
  shows "\<exists>held g'. client_run (do_alloc K) do_free store check_iso room_of es [] g = Inr (held, g') \<and>
    guard_run K in_room (guards_at_rest g) ((guards_at_rest g')\<lparr>in_use := held\<rparr>)"
proof -
  have start: "client_inv K [] g" using assms(1,2) by (intro started_client) (simp_all add: unused_checker_def)
  from two.run_ok [OF start assms(3)] obtain held g' where
    run: "client_run (do_alloc K) do_free store check_iso room_of es [] g = Inr (held, g')" by blast
  have "guards_at_rest g = resting [] g" by (simp add: resting_def guards_at_rest_def)
  then have "guard_run K in_room (guards_at_rest g) (resting [] g)" using guard_refl by metis
  from client_run_sections [OF run start assms(3) this] run show ?thesis by (auto simp: resting_def)
qed

section \<open>Witnesses\<close>

text \<open>A block of eight bytes is held at 4116, its second zone starts at 4124, and processor 0 scans.\<close>

lemma fresh_unused: "unused_checker fresh"
  by (simp add: unused_checker_def fresh_def)

definition scan_begun :: "((call \<times> u64) \<times> u64) list \<Rightarrow> guard2 \<Rightarrow> guard_smp" where
  "scan_begun held g = go_on 0 (Scanning (iso_head g)) g ((resting held g)\<lparr>list_lock := Some 0\<rparr>)"

lemma demo_run:
  obtains s where "client_inv demo_env [((Skmalloc 8 0, 1), 4116)] s"
    and "\<And>W. guard_run demo_env W (guards_at_rest fresh) (resting [((Skmalloc 8 0, 1), 4116)] s)"
proof -
  obtain s where s: "do_alloc demo_env (Skmalloc 8 0, 1) fresh = Inr (4116, s)"
    "client_inv demo_env [((Skmalloc 8 0, 1), 4116)] s" by (rule demo_held)
  have "guards_at_rest fresh = resting [] fresh" by (simp add: resting_def guards_at_rest_def)
  then have "guard_run demo_env W (guards_at_rest fresh) (resting [] fresh)" for W using guard_refl by metis
  moreover have "(guard_step demo_env W 0)\<^sup>*\<^sup>* (resting [] fresh) (resting [((Skmalloc 8 0, 1), 4116)] s)" for W
    using alloc_alone [OF demo_heap_laws, of "resting [] fresh" 0 "Skmalloc 8 0" 1 4116 s W] s(1) demo_nameable [of 1]
    by (simp add: returned_resting del: do_alloc.simps)
  ultimately have "guard_run demo_env W (guards_at_rest fresh) (resting [((Skmalloc 8 0, 1), 4116)] s)" for W
    using run_alone by blast
  with s(2) that show ?thesis by blast
qed

lemma scan_begins:
  "guard_run K W S0 (resting held g) \<Longrightarrow> guard_run K W S0 (scan_begun held g)"
  unfolding scan_begun_def
  by (erule guard_next) (use guard_step.scan_start [of "resting held g" 0] in simp)

theorem smp_clients_silent_witness:
  "\<exists>S. guard_run demo_env in_room (guards_at_rest fresh) S \<and> \<not> section_faults demo_env S 1 \<and>
     place_of S 0 \<noteq> Outside \<and> length (iso_head (guard S)) = 2"
proof -
  obtain s where "guard_run demo_env in_room (guards_at_rest fresh) (resting [((Skmalloc 8 0, 1), 4116)] s)"
    using demo_run by metis
  note run = scan_begins [OF this]
  have "place_of (scan_begun held g) 0 \<noteq> Outside" "in_use (scan_begun held g) = held" for held g
    by (simp_all add: scan_begun_def)
  with smp_clients_silent [OF demo_heap_laws fresh_unused run] run show ?thesis
    by (intro exI [of _ "scan_begun [((Skmalloc 8 0, 1), 4116)] s"]) simp
qed






theorem client_run_is_smp_run_witness:
  "\<exists>held g'. client_run (do_alloc demo_env) do_free store check_iso room_of
      [Allocate (Skmalloc 8 0, 1), Scan, Allocate (SgetPages 0 2, 1)] [] fresh = Inr (held, g') \<and>
    guard_run demo_env in_room (guards_at_rest fresh) ((guards_at_rest g')\<lparr>in_use := held\<rparr>)"
  by (rule client_run_is_smp_run [OF demo_heap_laws fresh_unused]) (simp add: demo_nameable)

end
