(* ===== verification/Guard_One.thy ===== *)
theory Guard_One
  imports Guard_Zone
begin

text \<open>
  The overflow checker with one guard zone, behind every block,
  mem_overflow_del_firstiso/code/mem_overflow_check.c. Names of functions the other checker has
  too carry the suffix 1.
\<close>

abbreviation (input) ISOSIZE1 :: u64 where "ISOSIZE1 \<equiv> 20"

text \<open>Here \<open>struct iso_zone\<close> also keeps the address of the block.\<close>

record iso_zone1 = iso_zone +
  mem_addr :: u64

definition sizeof_iso_zone1 :: u64 where "sizeof_iso_zone1 = 56"

type_synonym guard1 = "iso_zone1 guard"

section \<open>Registering and dropping a zone\<close>

text \<open>
  What every allocation does once it has a block: fill the zone, whose size is an \<open>int\<close>, name
  the caller, make the structure and insert it.
\<close>

definition guard_block1 ::
  "heap_env \<Rightarrow> u64 \<Rightarrow> u32 \<Rightarrow> u64 \<Rightarrow> u64 \<Rightarrow> guard1 \<Rightarrow> (u64 \<times> guard1) result"
where
  "guard_block1 K ra n zone_addr ret s =
     bind_result (fill_zone zone_addr (nat (sint n)) (kheap s)) (\<lambda>h.
     let (buffer, h) = kmalloc K 200 (GFP_KERNEL K) h in
     if buffer = 0 \<or> ra = 0 then Inr (0, say BufferFailed (s\<lparr>kheap := h\<rparr>))
     else bind_result (sprint_symbol K buffer ra h) (\<lambda>h.
     let (a, h) = kmalloc K sizeof_iso_zone1 (GFP_KERNEL K) h in
     if a = 0 then Inr (0, say StructFailed (s\<lparr>kheap := h\<rparr>))
     else
       let s = s\<lparr>kheap := h, zones := (zones s)(a := \<lparr>callerinfo = buffer, iso_size = n,
                 addr = zone_addr, flag = False, mem_addr = ret\<rparr>)\<rparr> in
       bind_result (list_add (unat sizeof_iso_zone1) a s) (\<lambda>s. Inr (ret, s))))"

definition drop_zone1 :: "u64 \<Rightarrow> guard1 \<Rightarrow> (u64 \<times> guard1) result" where
  "drop_zone1 p s =
     bind_result (search_zone (node_live (unat sizeof_iso_zone1) s) (\<lambda>q. p = mem_addr (zones s q))
                    None 0 (iso_head s)) (\<lambda>(temp, found).
       case found of
         None \<Rightarrow> Inr (temp, s)
       | Some _ \<Rightarrow> bind_result (list_del (unat sizeof_iso_zone1) temp s) (\<lambda>s. Inr (temp, s)))"

definition unguard_block1 :: "u64 \<Rightarrow> release \<Rightarrow> guard1 \<Rightarrow> guard1 result" where
  "unguard_block1 p q s =
     bind_result (drop_zone1 p s) (\<lambda>(temp, s).
     bind_result (free_temp (unat sizeof_iso_zone1) temp s) (\<lambda>s. release q p s))"

section \<open>The wrapped functions\<close>

definition skmalloc1 :: "heap_env \<Rightarrow> u64 \<Rightarrow> u64 \<Rightarrow> gfp_t \<Rightarrow> guard1 \<Rightarrow> (u64 \<times> guard1) result" where
  "skmalloc1 K ra n flags s =
     (let (temp_ptr, h) = kmalloc K (n + ISOSIZE1) flags (kheap s); s = s\<lparr>kheap := h\<rparr> in
      if temp_ptr \<noteq> 0 then guard_block1 K ra 20 (temp_ptr + n) temp_ptr s
      else Inr (0, say AllocationFailed s))"

definition skfree1 :: "u64 \<Rightarrow> guard1 \<Rightarrow> guard1 result" where
  "skfree1 objp s = (if objp = 0 then Inr s else unguard_block1 objp Kfree s)"

definition svmalloc1 :: "heap_env \<Rightarrow> u64 \<Rightarrow> u64 \<Rightarrow> guard1 \<Rightarrow> (u64 \<times> guard1) result" where
  "svmalloc1 K ra n s =
     (let (temp_addr, h) = ask K (Vmalloc (n + ISOSIZE1)) (kheap s); s = s\<lparr>kheap := h\<rparr> in
      if temp_addr \<noteq> 0 then guard_block1 K ra 20 (temp_addr + n) temp_addr s
      else Inr (0, say AllocationFailed s))"

definition svfree1 :: "u64 \<Rightarrow> guard1 \<Rightarrow> guard1 result" where
  "svfree1 p s = (if p = 0 then Inr s else unguard_block1 p Vfree s)"

text \<open>The allocator stores the bus address through the caller's \<open>dma_handle\<close> itself.\<close>

definition sdma_alloc_coherent1 ::
  "heap_env \<Rightarrow> u64 \<Rightarrow> u64 \<Rightarrow> gfp_t \<Rightarrow> guard1 \<Rightarrow> ((u64 \<times> u64) \<times> guard1) result"
where
  "sdma_alloc_coherent1 K ra n gfp_flags s =
     (let (temp_addr, h) = ask K (DmaAllocCoherent (n + ISOSIZE1) gfp_flags) (kheap s);
          s = s\<lparr>kheap := h\<rparr>; handle = handle_after K (calls h) in
      if temp_addr \<noteq> 0
      then bind_result (guard_block1 K ra 20 (temp_addr + n) temp_addr s) (\<lambda>(ret, s). Inr ((ret, handle), s))
      else Inr ((0, handle), say AllocationFailed s))"

definition sdma_free_coherent1 :: "u64 \<Rightarrow> u64 \<Rightarrow> u64 \<Rightarrow> guard1 \<Rightarrow> guard1 result" where
  "sdma_free_coherent1 n vaddr bus s =
     (if vaddr = 0 then Inr s else unguard_block1 vaddr (DmaFreeCoherent (n + ISOSIZE1) bus) s)"

definition sget_free_pages1 :: "heap_env \<Rightarrow> u64 \<Rightarrow> gfp_t \<Rightarrow> u32 \<Rightarrow> guard1 \<Rightarrow> (u64 \<times> guard1) result" where
  "sget_free_pages1 K ra gfp_mask order s =
     (let (temp_addr, h) = ask K (GetFreePages gfp_mask (order + 1)) (kheap s); s = s\<lparr>kheap := h\<rparr> in
      if temp_addr \<noteq> 0
      then guard_block1 K ra (ucast (page_bytes order)) (temp_addr + page_bytes order) temp_addr s
      else Inr (0, say AllocationFailed s))"

definition sget_free_page1 :: "heap_env \<Rightarrow> u64 \<Rightarrow> gfp_t \<Rightarrow> guard1 \<Rightarrow> (u64 \<times> guard1) result" where
  "sget_free_page1 K ra gfp_mask s = sget_free_pages1 K ra gfp_mask 0 s"

definition sget_dma_pages1 :: "heap_env \<Rightarrow> u64 \<Rightarrow> gfp_t \<Rightarrow> u32 \<Rightarrow> guard1 \<Rightarrow> (u64 \<times> guard1) result" where
  "sget_dma_pages1 K ra gfp_mask order s = sget_free_pages1 K ra (or gfp_mask (GFP_DMA K)) order s"

definition sfree_pages1 :: "u64 \<Rightarrow> u32 \<Rightarrow> guard1 \<Rightarrow> guard1 result" where
  "sfree_pages1 p order s = (if p = 0 then Inr s else unguard_block1 p (FreePages (order + 1)) s)"

definition sfree_page1 :: "u64 \<Rightarrow> guard1 \<Rightarrow> guard1 result" where
  "sfree_page1 p s = sfree_pages1 p 0 s"

definition nget_free_pages1 :: "heap_env \<Rightarrow> u64 \<Rightarrow> gfp_t \<Rightarrow> u32 \<Rightarrow> guard1 \<Rightarrow> (u64 \<times> guard1) result" where
  "nget_free_pages1 K ra gfp_mask order s =
     (let (temp_addr, h) = ask K (GetFreePages gfp_mask order) (kheap s); s = s\<lparr>kheap := h\<rparr> in
      if temp_addr \<noteq> 0
      then guard_block1 K ra 20 (temp_addr + page_bytes order - ISOSIZE1) temp_addr s
      else Inr (0, say AllocationFailed s))"

definition nfree_pages1 :: "u64 \<Rightarrow> u32 \<Rightarrow> guard1 \<Rightarrow> guard1 result" where
  "nfree_pages1 p order s = (if p = 0 then Inr s else unguard_block1 p (FreePages order) s)"

definition get_free_pages_ex1 :: "heap_env \<Rightarrow> u64 \<Rightarrow> gfp_t \<Rightarrow> u64 \<Rightarrow> guard1 \<Rightarrow> (u64 \<times> guard1) result" where
  "get_free_pages_ex1 K ra gfp_mask n s =
     (let (temp_addr, h) = ask K (AllocPagesExact (n + ISOSIZE1) gfp_mask) (kheap s); s = s\<lparr>kheap := h\<rparr> in
      if temp_addr \<noteq> 0 then guard_block1 K ra 20 (temp_addr + n) temp_addr s
      else Inr (0, say AllocationFailed s))"

definition free_pages_ex1 :: "u64 \<Rightarrow> u64 \<Rightarrow> guard1 \<Rightarrow> guard1 result" where
  "free_pages_ex1 p n s =
     (if p = 0 then Inr s else unguard_block1 p (FreePagesExact (n + ISOSIZE1)) s)"

section \<open>Scanning and the module\<close>

definition check_iso1 :: "guard1 \<Rightarrow> guard1 result" where
  "check_iso1 s =
     (if iso_head s = [] then Inr s else check_zones (unat sizeof_iso_zone1) (iso_head s) s)"

fun checklist_func1 :: "(guard1 \<Rightarrow> guard1) list \<Rightarrow> guard1 \<Rightarrow> guard1 result" where
  "checklist_func1 [] s = Inr s"
| "checklist_func1 (sleep # rounds) s = bind_result (check_iso1 (sleep s)) (checklist_func1 rounds)"

definition my_seq_start1 :: "int \<Rightarrow> unit option" where
  "my_seq_start1 pos = (if pos = 0 then Some () else None)"

definition my_seq_next1 :: "int \<Rightarrow> unit option \<times> int" where
  "my_seq_next1 pos = (None, pos + 1)"

definition my_seq_show1 :: "guard1 \<Rightarrow> seq_line list result" where
  "my_seq_show1 s =
     (if iso_head s = [] then Inr [] else show_zones (unat sizeof_iso_zone1) s (iso_head s))"

definition init_proc1 :: "bool \<Rightarrow> checker_module \<Rightarrow> int \<times> checker_module" where
  "init_proc1 entry m = (0, if entry then m\<lparr>proc_file := True\<rparr> else m)"

definition exit_proc1 :: "checker_module \<Rightarrow> checker_module" where
  "exit_proc1 m = m\<lparr>proc_file := False\<rparr>"

definition kmalloc_init1 :: "int + u64 \<Rightarrow> checker_module \<Rightarrow> int \<times> checker_module" where
  "kmalloc_init1 run m =
     (case run of
        Inl err \<Rightarrow> (err, m\<lparr>checklist := None\<rparr>)
      | Inr thread \<Rightarrow> (0, m\<lparr>checklist := Some thread\<rparr>))"

definition kmalloc_exit1 :: "checker_module \<Rightarrow> checker_module" where
  "kmalloc_exit1 m = (case checklist m of None \<Rightarrow> m | Some _ \<Rightarrow> m\<lparr>checklist := None\<rparr>)"

end
