(* ===== verification/Memcheck.thy ===== *)
theory Memcheck
  imports Guard_Two Guard_One
begin

text \<open>
  The test modules of the two overflow checkers, mem_overflow/test/memcheck.c and
  mem_overflow_del_firstiso/test/memcheck.c: on loading they take a block through each wrapped
  allocation function and write behind it, on unloading they give the blocks back. The texts they
  print are left out. The two files differ in the number of bytes written to the fifth block.
\<close>

section \<open>Writing through a pointer\<close>

text \<open>Bytes are written one after the other; a write outside the blocks that are out is a fault.\<close>

fun pokes :: "(u64 \<times> u8) list \<Rightarrow> 'z guard \<Rightarrow> 'z guard result" where
  "pokes [] s = Inr s"
| "pokes ((x, b) # ws) s = bind_result (poke x b (kheap s)) (\<lambda>h. pokes ws (s\<lparr>kheap := h\<rparr>))"

text \<open>\<open>p[i] = i\<close> for a pointer to \<open>int\<close>, four bytes, the lowest first.\<close>

definition int_cell :: "u64 \<Rightarrow> nat \<Rightarrow> (u64 \<times> u8) list" where
  "int_cell p i = map (\<lambda>k. (p + of_nat (4 * i + k), ucast (drop_bit (8 * k) (of_nat i :: u32)))) [0..<4]"

text \<open>The loops over an \<open>int\<close> array, and over a \<open>char\<close> array with the letter b.\<close>

definition int_loop :: "nat \<Rightarrow> u64 \<Rightarrow> (u64 \<times> u8) list" where
  "int_loop n p = concat (map (int_cell p) [0..<n])"

definition char_loop :: "nat \<Rightarrow> u64 \<Rightarrow> (u64 \<times> u8) list" where
  "char_loop n p = map (\<lambda>i. (p + of_nat i, 98)) [0..<n]"

section \<open>The modules\<close>

text \<open>The pointers \<open>ptr1\<close> to \<open>ptr7\<close>, and the checker.\<close>

record 'z memcheck =
  ptr :: "nat \<Rightarrow> u64"
  checker :: "'z guard"

text \<open>\<open>ptr = alloc(...); if (NULL != ptr) for (...) ptr[i] = ...;\<close>\<close>

definition try_block ::
  "nat \<Rightarrow> ('z guard \<Rightarrow> (u64 \<times> 'z guard) result) \<Rightarrow> (u64 \<Rightarrow> (u64 \<times> u8) list) \<Rightarrow>
    'z memcheck \<Rightarrow> 'z memcheck result" where
  "try_block i alloc writes m =
     bind_result (alloc (checker m)) (\<lambda>(p, s).
       let m = m\<lparr>ptr := (ptr m)(i := p), checker := s\<rparr> in
       if p \<noteq> 0 then bind_result (pokes (writes p) s) (\<lambda>s. Inr (m\<lparr>checker := s\<rparr>)) else Inr m)"

text \<open>\<open>if (NULL != ptr) free(ptr);\<close>\<close>

definition drop_block ::
  "nat \<Rightarrow> (u64 \<Rightarrow> 'z guard \<Rightarrow> 'z guard result) \<Rightarrow> 'z memcheck \<Rightarrow> 'z memcheck result" where
  "drop_block i free m =
     (if ptr m i \<noteq> 0 then bind_result (free (ptr m i) (checker m)) (\<lambda>s. Inr (m\<lparr>checker := s\<rparr>)) else Inr m)"

text \<open>\<open>ra i\<close> is the address that the call for \<open>ptr\<close> \<open>i\<close> returns to.\<close>

definition check_init :: "heap_env \<Rightarrow> (nat \<Rightarrow> u64) \<Rightarrow> iso_zone memcheck \<Rightarrow> iso_zone memcheck result" where
  "check_init K ra m =
     bind_result (try_block 1 (skmalloc K (ra 1) 40 (GFP_KERNEL K)) (int_loop 11) m) (\<lambda>m.
     bind_result (try_block 2 (svmalloc K (ra 2) 40) (int_loop 11) m) (\<lambda>m.
     bind_result (try_block 3 (get_free_pages_ex K (ra 3) (GFP_KERNEL K) 3000) (char_loop (3000 + 3)) m) (\<lambda>m.
     bind_result (try_block 4 (sget_free_pages K (ra 4) (GFP_KERNEL K) 2) (char_loop (2 ^ 2 * 4096 + 10)) m) (\<lambda>m.
     bind_result (try_block 5 (nget_free_pages K (ra 5) (GFP_KERNEL K) 2) (char_loop (2 ^ 2 * 4096 - 20)) m) (\<lambda>m.
     bind_result (try_block 6 (sget_free_page K (ra 6) (GFP_KERNEL K)) (char_loop (4096 + 5)) m) (\<lambda>m.
     try_block 7 (sget_dma_pages K (ra 7) (GFP_KERNEL K) 2) (char_loop (2 ^ 2 * 4096 + 5)) m))))))"

definition check_exit :: "iso_zone memcheck \<Rightarrow> iso_zone memcheck result" where
  "check_exit m =
     bind_result (drop_block 1 skfree m) (\<lambda>m.
     bind_result (drop_block 2 svfree m) (\<lambda>m.
     bind_result (drop_block 3 (\<lambda>p. free_pages_ex p 3000) m) (\<lambda>m.
     bind_result (drop_block 4 (\<lambda>p. sfree_pages p 2) m) (\<lambda>m.
     bind_result (drop_block 5 (\<lambda>p. nfree_pages p 2) m) (\<lambda>m.
     bind_result (drop_block 6 sfree_page m) (\<lambda>m.
     drop_block 7 (\<lambda>p. sfree_pages p 2) m))))))"

definition check_init1 :: "heap_env \<Rightarrow> (nat \<Rightarrow> u64) \<Rightarrow> iso_zone1 memcheck \<Rightarrow> iso_zone1 memcheck result" where
  "check_init1 K ra m =
     bind_result (try_block 1 (skmalloc1 K (ra 1) 40 (GFP_KERNEL K)) (int_loop 11) m) (\<lambda>m.
     bind_result (try_block 2 (svmalloc1 K (ra 2) 40) (int_loop 11) m) (\<lambda>m.
     bind_result (try_block 3 (get_free_pages_ex1 K (ra 3) (GFP_KERNEL K) 3000) (char_loop (3000 + 3)) m) (\<lambda>m.
     bind_result (try_block 4 (sget_free_pages1 K (ra 4) (GFP_KERNEL K) 2) (char_loop (2 ^ 2 * 4096 + 10)) m) (\<lambda>m.
     bind_result (try_block 5 (nget_free_pages1 K (ra 5) (GFP_KERNEL K) 2) (char_loop (2 ^ 2 * 4096)) m) (\<lambda>m.
     bind_result (try_block 6 (sget_free_page1 K (ra 6) (GFP_KERNEL K)) (char_loop (4096 + 5)) m) (\<lambda>m.
     try_block 7 (sget_dma_pages1 K (ra 7) (GFP_KERNEL K) 2) (char_loop (2 ^ 2 * 4096 + 5)) m))))))"

definition check_exit1 :: "iso_zone1 memcheck \<Rightarrow> iso_zone1 memcheck result" where
  "check_exit1 m =
     bind_result (drop_block 1 skfree1 m) (\<lambda>m.
     bind_result (drop_block 2 svfree1 m) (\<lambda>m.
     bind_result (drop_block 3 (\<lambda>p. free_pages_ex1 p 3000) m) (\<lambda>m.
     bind_result (drop_block 4 (\<lambda>p. sfree_pages1 p 2) m) (\<lambda>m.
     bind_result (drop_block 5 (\<lambda>p. nfree_pages1 p 2) m) (\<lambda>m.
     bind_result (drop_block 6 sfree_page1 m) (\<lambda>m.
     drop_block 7 (\<lambda>p. sfree_pages1 p 2) m))))))"

end
