(* ===== verification/Guard_Overrun.thy ===== *)
theory Guard_Overrun
  imports Memcheck Guard_Held Guard_Contract
begin

text \<open>
  What a client that writes behind its blocks does to an overflow checker, once for both checkers:
  every write stays in the block of the checker and hits the zone behind the room, a scan reports each
  block once with the caller that allocated it, and all blocks can still be released.
\<close>

section \<open>Writes behind the room\<close>

lemma stores_calls [simp]: "calls (kheap (stores ws s)) = calls (kheap s)"
  by (induction ws arbitrary: s) (auto simp: stores_def store_def)

lemma pokes_ok: "\<forall>(x, b)\<in>set ws. in_live (kheap s) x 1 \<Longrightarrow> pokes ws s = Inr (stores ws s)"
proof (induction ws arbitrary: s)
  case (Cons w ws)
  obtain x b where w: "w = (x, b)" by fastforce
  have "pokes ws (store x b s) = Inr (stores ws (store x b s))"
    using Cons.prems by (intro Cons.IH) (auto simp: store_def in_live_def)
  moreover have "poke x b (kheap s) = Inr (kheap (store x b s))"
    using Cons.prems by (auto simp: poke_def store_def w)
  moreover have "s\<lparr>kheap := kheap (store x b s)\<rparr> = store x b s" by (simp add: store_def)
  ultimately show ?case by (simp add: w stores_def)
qed simp

lemma stores_bytes:
  shows "x \<notin> fst ` set ws \<Longrightarrow> bytes (kheap (stores ws s)) x = bytes (kheap s) x"
    and "x \<in> fst ` set ws \<Longrightarrow> \<forall>(y, b)\<in>set ws. b \<noteq> guard_byte \<Longrightarrow> bytes (kheap (stores ws s)) x \<noteq> guard_byte"
proof (induction ws arbitrary: s)
  case (Cons w ws)
  obtain y b where w: "w = (y, b)" by fastforce
  have eq: "stores (w # ws) s = stores ws (store y b s)" for s :: "'a guard" by (simp add: stores_def w)
  have byte: "bytes (kheap (store y b s)) = (bytes (kheap s))(y := b)" for s :: "'a guard" by (simp add: store_def)
  { case 1
    with Cons.IH(1) [of "store y b s"] show ?case unfolding eq by (simp add: w byte)
  next
    case 2
    show ?case
    proof (cases "x \<in> fst ` set ws")
      case True
      with Cons.IH(2) [of "store y b s"] 2 show ?thesis unfolding eq by auto
    next
      case False
      with Cons.IH(1) [of "store y b s"] 2 show ?thesis unfolding eq by (auto simp: w byte)
    qed }
qed simp_all

text \<open>Exactly the zones that do not start their block are damaged.\<close>

definition tails_hit :: "guarded list \<Rightarrow> ('z iso_zone_scheme) guard \<Rightarrow> bool" where
  "tails_hit gs s \<longleftrightarrow> (\<forall>g\<in>set gs. \<forall>(q, z)\<in>set (g_nodes g). \<not> flag (zones s q) \<and>
     (damaged (kheap s) z (g_size g) \<longleftrightarrow> z \<noteq> g_base g))"

lemma tails_same:
  fixes s :: "('z iso_zone_scheme) guard"
  assumes "guard_inv n K gs s" and "tails_hit gs s" and "same_zones s s'"
  shows "tails_hit gs s'"
  unfolding tails_hit_def
proof (intro ballI, clarify)
  fix g q z assume g: "g \<in> set gs" "(q, z) \<in> set (g_nodes g)"
  have q: "q \<in> set (iso_head s)" using g by (auto simp: guard_invD(2) [OF assms(1)] set_nodes_of)
  have d: "addr (zones s q) = z" "iso_size (zones s q) = g_size g"
    using guard_invD(5) [OF assms(1) g(1)] g(2) by (auto simp: described_def)
  have "\<not> flag (zones s q) \<and> (damaged (kheap s) z (g_size g) \<longleftrightarrow> z \<noteq> g_base g)"
    using assms(2) g by (auto simp: tails_hit_def)
  with assms(3) q d show "\<not> flag (zones s' q) \<and> (damaged (kheap s') z (g_size g) \<longleftrightarrow> z \<noteq> g_base g)"
    by (auto simp: same_zones_def)
qed

text \<open>
  \<open>p\<close> is the room of the block: it ends where the one zone that does not start the block begins, which
  ends with the block.
\<close>

definition roomy :: "u64 \<Rightarrow> nat \<Rightarrow> nat \<Rightarrow> guarded \<Rightarrow> bool" where
  "roomy p user zone g \<longleftrightarrow>
     (\<exists>q z. filter (\<lambda>(q, z). z \<noteq> g_base g) (g_nodes g) = [(q, z)] \<and> unat z = unat p + user) \<and>
     unat (g_size g) = zone \<and> unat p + user + zone = unat (g_base g) + extent (g_req g) \<and>
     unat (g_base g) \<le> unat p \<and>
     (\<forall>(q, z)\<in>set (g_nodes g). z = g_base g \<longrightarrow> unat z + zone \<le> unat p)"

text \<open>A loop that writes from \<open>p\<close> on reaches behind the room but not behind the block.\<close>

definition overruns :: "nat \<Rightarrow> nat \<Rightarrow> (u64 \<Rightarrow> (u64 \<times> u8) list) \<Rightarrow> bool" where
  "overruns user zone writes \<longleftrightarrow> (\<forall>p. unat p + user + zone < 2 ^ 64 \<longrightarrow>
     (\<forall>(x, b)\<in>set (writes p). unat p \<le> unat x \<and> unat x < unat p + user + zone \<and> b \<noteq> guard_byte) \<and>
     (\<exists>(x, b)\<in>set (writes p). unat p + user \<le> unat x))"

lemma roomy_tail:
  assumes "roomy p user zone g" and "(q, z) \<in> set (g_nodes g)" and "z \<noteq> g_base g"
  shows "unat z = unat p + user"
proof -
  from assms(1) obtain q' z' where one: "filter (\<lambda>(q, z). z \<noteq> g_base g) (g_nodes g) = [(q', z')]" "unat z' = unat p + user"
    by (auto simp: roomy_def)
  have "(q, z) \<in> set (filter (\<lambda>(q, z). z \<noteq> g_base g) (g_nodes g))" using assms(2,3) by simp
  with one show ?thesis by simp
qed

lemma overrun:
  fixes s :: "('z iso_zone_scheme) guard"
  assumes inv: "guard_inv n K (g # gs) s" and old: "tails_hit gs s"
    and new: "\<forall>(q, z)\<in>set (g_nodes g). \<not> flag (zones s q) \<and> \<not> damaged (kheap s) z (g_size g)"
    and room: "roomy p user zone g" and ws: "overruns user zone writes"
  shows "pokes (writes p) s = Inr (stores (writes p) s)" and "tails_hit (g # gs) (stores (writes p) s)"
proof -
  let ?ws = "writes p" and ?s = "stores (writes p) s"
  have gin: "g \<in> set (g # gs)" by simp
  have blk: "(g_base g, g_req g) \<in> set (blocks_of K g)" by (simp add: blocks_of_def)
  note live = guard_invD(6) [OF inv gin blk]
  have ends: "unat p + user + zone = unat (g_base g) + extent (g_req g)" "unat (g_base g) \<le> unat p"
    "unat (g_size g) = zone" using room by (simp_all add: roomy_def)
  have "unat p + user + zone < 2 ^ 64"
    using live_sound [OF guard_invD(1) [OF inv] live] ends by (simp add: sound_block_def)
  with ws have w: "\<forall>(x, b)\<in>set ?ws. unat p \<le> unat x \<and> unat x < unat p + user + zone"
    "\<forall>(x, b)\<in>set ?ws. b \<noteq> guard_byte" "\<exists>(x, b)\<in>set ?ws. unat p + user \<le> unat x"
    by (fastforce simp: overruns_def)+
  have "in_live (kheap s) x 1" if "(x, b) \<in> set ?ws" for x b
    by (rule in_liveI [OF live]) (use w(1) that ends in fastforce)+
  then show "pokes ?ws s = Inr ?s" by (intro pokes_ok) blast
  show "tails_hit (g # gs) ?s"
    unfolding tails_hit_def
  proof (intro ballI, clarify)
    fix h q z assume h: "h \<in> set (g # gs)" "(q, z) \<in> set (g_nodes h)"
    have keep: "damaged (kheap ?s) z (g_size h) = damaged (kheap s) z (g_size h)"
      if away: "\<And>x b. (x, b) \<in> set ?ws \<Longrightarrow> x \<notin> bytes_at z (unat (g_size h))"
    proof -
      have "bytes (kheap ?s) x = bytes (kheap s) x" if "x \<in> bytes_at z (unat (g_size h))" for x
        by (rule stores_bytes(1)) (use that away in auto)
      then show ?thesis by (simp add: damaged_def)
    qed
    show "\<not> flag (zones ?s q) \<and> (damaged (kheap ?s) z (g_size h) \<longleftrightarrow> z \<noteq> g_base h)"
    proof (cases "h = g")
      case False
      with h(1) have "h \<in> set gs" by simp
      have "x \<notin> bytes_at z (unat (g_size h))" if x: "(x, b) \<in> set ?ws" for x b
      proof
        assume "x \<in> bytes_at z (unat (g_size h))"
        then have "g = h"
          by (intro shared_byte [OF inv gin h(1) blk, of "(g_base h, g_req h)" "unat x"])
            (use x w(1) ends shapedD [OF guard_invD(4) [OF inv h(1)] h(2)] in \<open>fastforce simp: blocks_of_def bytes_at_def\<close>)+
        with False show False by simp
      qed
      from keep [OF this] old \<open>h \<in> set gs\<close> h(2) show ?thesis by (auto simp: tails_hit_def)
    next
      case True
      show ?thesis
      proof (cases "z = g_base g")
        case base: True
        then have "unat z + zone \<le> unat p" using room h(2) by (auto simp: roomy_def True)
        then have "x \<notin> bytes_at z (unat (g_size h))" if "(x, b) \<in> set ?ws" for x b
          using w(1) that ends(3) True by (fastforce simp: bytes_at_def)
        from keep [OF this] base True new h(2) show ?thesis by auto
      next
        case tail: False
        with roomy_tail [OF room] h(2) True have z: "unat z = unat p + user" by blast
        from w(3) obtain x b where x: "(x, b) \<in> set ?ws" "unat p + user \<le> unat x" by blast
        with w(1) z ends(3) True have "x \<in> bytes_at z (unat (g_size h))" by (fastforce simp: bytes_at_def)
        moreover have "bytes (kheap ?s) x \<noteq> guard_byte"
          by (rule stores_bytes(2)) (use x(1) w(2) in force)+
        ultimately show ?thesis using tail True new h(2) by (auto simp: damaged_def)
      qed
    qed
  qed
qed

section \<open>The scan\<close>

lemma scan_list:
  fixes s :: "('z iso_zone_scheme) guard"
  assumes "guard_inv n K gs s"
  shows "check_zones n (iso_head s) s = Inr (scanned (iso_head s) s)"
  using check_zones_ok [OF inv_list_readable [OF assms]] nodes_distinct [OF assms] guard_invD(2) [OF assms] by simp

lemma reports_block:
  fixes s :: "('z iso_zone_scheme) guard"
  assumes "described K s g" and "tails_hit [g] s" and "roomy p user zone g"
  shows "map (\<lambda>p. MemoryOverflow (owner_text s p)) (filter (bad s) (map fst (g_nodes g))) =
    [MemoryOverflow (symbol_of K (g_caller g))]"
proof -
  have "bad s q \<longleftrightarrow> z \<noteq> g_base g" if q: "(q, z) \<in> set (g_nodes g)" for q z
  proof -
    have "iso_size (zones s q) = g_size g" "addr (zones s q) = z" using assms(1) q by (auto simp: described_def)
    moreover have "\<not> flag (zones s q)" "damaged (kheap s) z (g_size g) \<longleftrightarrow> z \<noteq> g_base g"
      using assms(2) q by (auto simp: tails_hit_def)
    ultimately show ?thesis by (simp add: bad_def)
  qed
  then have "filter (\<lambda>x. bad s (fst x)) (g_nodes g) = filter (\<lambda>(q, z). z \<noteq> g_base g) (g_nodes g)"
    by (intro filter_cong) auto
  moreover from assms(3) obtain q z where one: "filter (\<lambda>(q, z). z \<noteq> g_base g) (g_nodes g) = [(q, z)]"
    by (auto simp: roomy_def)
  ultimately have "filter (bad s) (map fst (g_nodes g)) = [q]" by (simp add: filter_map o_def)
  moreover have "(q, z) \<in> set (filter (\<lambda>(q, z). z \<noteq> g_base g) (g_nodes g))" unfolding one by simp
  then have "owner_text s q = symbol_of K (g_caller g)" using assms(1) by (auto simp: described_def)
  ultimately show ?thesis by simp
qed

lemma reports_all:
  fixes s :: "('z iso_zone_scheme) guard"
  assumes "\<forall>g\<in>set gs. described K s g \<and> (\<exists>p user zone. roomy p user zone g)" and "tails_hit gs s"
  shows "map (\<lambda>p. MemoryOverflow (owner_text s p)) (filter (bad s) (nodes_of gs)) =
    map (\<lambda>g. MemoryOverflow (symbol_of K (g_caller g))) gs"
  using assms
proof (induction gs)
  case (Cons g gs)
  then obtain p user zone where room: "roomy p user zone g" and d: "described K s g" by auto
  have t: "tails_hit [g] s" "tails_hit gs s" using Cons.prems(2) by (simp_all add: tails_hit_def)
  from reports_block [OF d t(1) room] Cons.IH [OF _ t(2)] Cons.prems(1) show ?case by simp
qed simp

section \<open>The contract of a checker under test\<close>

text \<open>
  What a test relies on: \<open>I\<close> is the invariant of the checker with its guarded blocks, \<open>H\<close> relates a call
  and the pointer it returned to the block, \<open>user\<close> and \<open>zone\<close> are the bytes of the room and of a zone.
\<close>

locale tested_checker =
  fixes n :: nat and K :: heap_env
    and alloc :: "call \<times> u64 \<Rightarrow> ('z iso_zone_scheme) guard \<Rightarrow> (u64 \<times> ('z iso_zone_scheme) guard) result"
    and free :: "call \<times> u64 \<Rightarrow> u64 \<Rightarrow> ('z iso_zone_scheme) guard \<Rightarrow> ('z iso_zone_scheme) guard result"
    and scan :: "('z iso_zone_scheme) guard \<Rightarrow> ('z iso_zone_scheme) guard result"
    and sane :: "call \<times> u64 \<Rightarrow> bool" and user :: "call \<Rightarrow> nat" and zone :: "call \<Rightarrow> nat"
    and I :: "guarded list \<Rightarrow> ('z iso_zone_scheme) guard \<Rightarrow> bool"
    and H :: "(call \<times> u64) \<times> u64 \<Rightarrow> guarded \<Rightarrow> bool"
  assumes invariant: "I gs s \<Longrightarrow> guard_inv n K gs s"
    and stores_law: "I gs s \<Longrightarrow> I gs (stores ws s)"
    and scanned_law: "I gs s \<Longrightarrow> I gs (scanned ps s)"
    and scan_law: "scan s = check_zones n (iso_head s) s"
    and alloc_law: "I gs s \<Longrightarrow> sane c \<Longrightarrow> \<exists>p s'. alloc c s = Inr (p, s') \<and>
      (p = 0 \<and> I gs s' \<and> failed_alloc s s' \<or>
       p \<noteq> 0 \<and> (\<exists>g. H (c, p) g \<and> I (g # gs) s' \<and> new_block g s s' \<and>
         live (calls (kheap s')) = blocks_of K g @ live (calls (kheap s))))"
    and free_law: "I (gs1 @ g # gs2) s \<Longrightarrow> H (c, p) g \<Longrightarrow> \<exists>h.
      free c p s = Inr (s\<lparr>iso_head := nodes_of (gs1 @ gs2), kheap := h\<rparr>) \<and>
      I (gs1 @ gs2) (s\<lparr>iso_head := nodes_of (gs1 @ gs2), kheap := h\<rparr>) \<and>
      live (calls h) = filter (\<lambda>b. b \<notin> set (blocks_of K g)) (live (calls (kheap s)))"
    and room_law: "I gs s \<Longrightarrow> g \<in> set gs \<Longrightarrow> H (c, p) g \<Longrightarrow>
      p \<noteq> 0 \<and> g_caller g = snd c \<and> roomy p (user (fst c)) (zone (fst c)) g"
begin

text \<open>\<open>ok\<close>: no allocation has failed, so only guarded blocks are out.\<close>

definition holding :: "bool \<Rightarrow> guarded list \<Rightarrow> ((call \<times> u64) \<times> u64) list \<Rightarrow> ('z iso_zone_scheme) guard \<Rightarrow> bool" where
  "holding ok gs held s \<longleftrightarrow> I gs s \<and> list_all2 H held gs \<and>
     (ok \<longrightarrow> set (live (calls (kheap s))) = (\<Union>g\<in>set gs. set (blocks_of K g)))"

definition tested :: "bool \<Rightarrow> ((call \<times> u64) \<times> u64) list \<Rightarrow> ('z iso_zone_scheme) guard \<Rightarrow> bool" where
  "tested ok held s \<longleftrightarrow> (\<exists>gs. holding ok gs held s \<and> tails_hit gs s)"

lemma try_block_tested:
  assumes "tested ok held (checker m)" and "sane c" and "overruns (user (fst c)) (zone (fst c)) writes"
  shows "\<exists>p s. try_block i (alloc c) writes m = Inr (m\<lparr>ptr := (ptr m)(i := p), checker := s\<rparr>) \<and>
    tested (ok \<and> p \<noteq> 0) (if p = 0 then held else (c, p) # held) s"
proof -
  from assms(1) obtain gs where gs: "I gs (checker m)" "list_all2 H held gs" "tails_hit gs (checker m)"
    "ok \<longrightarrow> set (live (calls (kheap (checker m)))) = (\<Union>g\<in>set gs. set (blocks_of K g))"
    by (auto simp: tested_def holding_def)
  from alloc_law [OF gs(1) assms(2)] obtain p s where al: "alloc c (checker m) = Inr (p, s)" and
    or: "p = 0 \<and> I gs s \<and> failed_alloc (checker m) s \<or>
       p \<noteq> 0 \<and> (\<exists>g. H (c, p) g \<and> I (g # gs) s \<and> new_block g (checker m) s \<and>
         live (calls (kheap s)) = blocks_of K g @ live (calls (kheap (checker m))))" by blast
  from or show ?thesis
  proof (elim disjE conjE exE)
    assume p: "p = 0" "I gs s" "failed_alloc (checker m) s"
    then have "tails_hit gs s" using tails_same [OF invariant [OF gs(1)] gs(3)] by (simp add: failed_alloc_def)
    with p gs(2) al show ?thesis
      by (intro exI [of _ p] exI [of _ s]) (auto simp: try_block_def tested_def holding_def)
  next
    fix g assume p: "p \<noteq> 0" and g: "H (c, p) g" "I (g # gs) s" "new_block g (checker m) s"
      and l: "live (calls (kheap s)) = blocks_of K g @ live (calls (kheap (checker m)))"
    have room: "roomy p (user (fst c)) (zone (fst c)) g" using room_law [OF g(2) _ g(1)] by simp
    have old: "tails_hit gs s" using tails_same [OF invariant [OF gs(1)] gs(3)] g(3) by (simp add: new_block_def)
    have new: "\<forall>(q, z)\<in>set (g_nodes g). \<not> flag (zones s q) \<and> \<not> damaged (kheap s) z (g_size g)"
      using g(3) by (simp add: new_block_def)
    note over = overrun [OF invariant [OF g(2)] old new room assms(3)]
    have "holding ok (g # gs) ((c, p) # held) (stores (writes p) s)"
      using stores_law [OF g(2)] g(1) gs(2,4) l by (auto simp: holding_def)
    with over p al show ?thesis
      by (intro exI [of _ p] exI [of _ "stores (writes p) s"]) (auto simp: try_block_def tested_def Let_def)
  qed
qed

lemma scan_tested:
  assumes "tested ok held s"
  shows "\<exists>s' gs. scan s = Inr s' \<and> holding ok gs held s' \<and>
    messages s' = messages s @ map (\<lambda>((c, ra), p). MemoryOverflow (symbol_of K ra)) held"
proof -
  from assms obtain gs where gs: "I gs s" "list_all2 H held gs" "tails_hit gs s"
    "ok \<longrightarrow> set (live (calls (kheap s))) = (\<Union>g\<in>set gs. set (blocks_of K g))"
    by (auto simp: tested_def holding_def)
  note inv = invariant [OF gs(1)]
  let ?s = "scanned (iso_head s) s"
  have room: "\<exists>p user zone. roomy p user zone g" if "g \<in> set gs" for g
  proof -
    from that gs(2) obtain x where "H x g" by (metis in_set_conv_nth list_all2_nthD2)
    with room_law [OF gs(1) that, of "fst x" "snd x"] show ?thesis by auto
  qed
  have "messages ?s = messages s @ map (\<lambda>g. MemoryOverflow (symbol_of K (g_caller g))) gs"
    using reports_all [of gs K s] gs(3) guard_invD(5) [OF inv] room guard_invD(2) [OF inv]
    by (simp add: scanned_def)
  moreover have "map (\<lambda>g. MemoryOverflow (symbol_of K (g_caller g))) hs =
      map (\<lambda>((c, ra), p). MemoryOverflow (symbol_of K ra)) xs"
    if "list_all2 H xs hs" "set hs \<subseteq> set gs" for xs hs
    using that
  proof (induction rule: list_all2_induct)
    case (Cons x xs g hs)
    then have "g_caller g = snd (fst x)" using room_law [OF gs(1), of g "fst x" "snd x"] by simp
    with Cons show ?case by (simp add: case_prod_beta)
  qed simp
  ultimately have "messages ?s = messages s @ map (\<lambda>((c, ra), p). MemoryOverflow (symbol_of K ra)) held"
    using gs(2) by simp
  moreover have "scan s = Inr ?s" unfolding scan_law by (rule scan_list [OF inv])
  moreover have "holding ok gs held ?s"
    using scanned_law [OF gs(1)] gs(2,4) by (simp add: holding_def) (simp add: scanned_def)
  ultimately show ?thesis by blast
qed

lemma drop_block_held:
  assumes "holding ok gs (held @ (if ptr m i = 0 then [] else [(c, ptr m i)])) (checker m)"
  shows "\<exists>s gs'. drop_block i (free c) m = Inr (m\<lparr>checker := s\<rparr>) \<and> holding ok gs' held s \<and>
    messages s = messages (checker m)"
proof (cases "ptr m i = 0")
  case True
  with assms show ?thesis by (intro exI [of _ "checker m"] exI [of _ gs]) (simp add: drop_block_def)
next
  case False
  let ?p = "ptr m i"
  from assms False have gs: "I gs (checker m)" "list_all2 H (held @ [(c, ?p)]) gs"
    "ok \<longrightarrow> set (live (calls (kheap (checker m)))) = (\<Union>g\<in>set gs. set (blocks_of K g))"
    by (simp_all add: holding_def)
  from gs(2) obtain hs g where hs: "gs = hs @ g # []" "list_all2 H held hs" "H (c, ?p) g"
    by (auto simp: list_all2_append1 list_all2_Cons1)
  from free_law [OF gs(1) [unfolded hs(1)] hs(3)] obtain h where
    fr: "free c ?p (checker m) = Inr ((checker m)\<lparr>iso_head := nodes_of (hs @ []), kheap := h\<rparr>)"
    "I (hs @ []) ((checker m)\<lparr>iso_head := nodes_of (hs @ []), kheap := h\<rparr>)"
    "live (calls h) = filter (\<lambda>b. b \<notin> set (blocks_of K g)) (live (calls (kheap (checker m))))" by blast
  have apart: "set (blocks_of K g) \<inter> set (blocks_of K g') = {}" if "g' \<in> set hs" for g'
    using guard_invD(3) [OF invariant [OF gs(1)]] that
    by (fastforce simp: hs(1))
  have "ok \<longrightarrow> set (live (calls h)) = (\<Union>g\<in>set hs. set (blocks_of K g))"
    using gs(3) apart by (auto simp: fr(3) hs(1))
  with fr hs(2) False show ?thesis
    by (intro exI [of _ "(checker m)\<lparr>iso_head := nodes_of hs, kheap := h\<rparr>"] exI [of _ hs])
      (simp add: drop_block_def holding_def)
qed

text \<open>A test: the calls \<open>cs i\<close> with the writes of each, and then the releases in the same order.\<close>

fun tries :: "(nat \<Rightarrow> call \<times> u64) \<Rightarrow> (nat \<times> (u64 \<Rightarrow> (u64 \<times> u8) list)) list \<Rightarrow>
    'z iso_zone_scheme memcheck \<Rightarrow> 'z iso_zone_scheme memcheck result" where
  "tries cs [] m = Inr m"
| "tries cs ((i, writes) # xs) m = bind_result (try_block i (alloc (cs i)) writes m) (tries cs xs)"

fun drops :: "(nat \<Rightarrow> call \<times> u64) \<Rightarrow> nat list \<Rightarrow>
    'z iso_zone_scheme memcheck \<Rightarrow> 'z iso_zone_scheme memcheck result" where
  "drops cs [] m = Inr m"
| "drops cs (i # js) m = bind_result (drop_block i (free (cs i)) m) (drops cs js)"

definition taken :: "(nat \<Rightarrow> call \<times> u64) \<Rightarrow> nat list \<Rightarrow> (nat \<Rightarrow> u64) \<Rightarrow> ((call \<times> u64) \<times> u64) list" where
  "taken cs js p = concat (map (\<lambda>i. if p i = 0 then [] else [(cs i, p i)]) js)"

lemma tries_ok:
  assumes "tested (\<forall>j\<in>set js. ptr m j \<noteq> 0) (taken cs js (ptr m)) (checker m)"
    and "distinct (map fst xs @ js)"
    and "\<forall>(i, w)\<in>set xs. sane (cs i) \<and> overruns (user (fst (cs i))) (zone (fst (cs i))) w"
  shows "\<exists>m'. tries cs xs m = Inr m' \<and> tested (\<forall>j\<in>set (rev (map fst xs) @ js). ptr m' j \<noteq> 0)
    (taken cs (rev (map fst xs) @ js) (ptr m')) (checker m')"
  using assms
proof (induction xs arbitrary: js m)
  case (Cons x xs)
  obtain i w where x: "x = (i, w)" by fastforce
  from try_block_tested [OF Cons.prems(1), of "cs i" w i] Cons.prems(3) obtain p s where
    t: "try_block i (alloc (cs i)) w m = Inr (m\<lparr>ptr := (ptr m)(i := p), checker := s\<rparr>)"
    "tested ((\<forall>j\<in>set js. ptr m j \<noteq> 0) \<and> p \<noteq> 0)
       (if p = 0 then taken cs js (ptr m) else (cs i, p) # taken cs js (ptr m)) s" by (auto simp: x)
  let ?m = "m\<lparr>ptr := (ptr m)(i := p), checker := s\<rparr>"
  have i: "i \<notin> set js" using Cons.prems(2) by (simp add: x)
  then have "taken cs js ((ptr m)(i := p)) = taken cs js (ptr m)"
    unfolding taken_def by (intro arg_cong [where f = concat] map_cong) auto
  then have tk: "taken cs (i # js) (ptr ?m) = (if p = 0 then taken cs js (ptr m) else (cs i, p) # taken cs js (ptr m))"
    by (simp add: taken_def)
  have all: "(\<forall>j\<in>set (i # js). ptr ?m j \<noteq> 0) \<longleftrightarrow> (\<forall>j\<in>set js. ptr m j \<noteq> 0) \<and> p \<noteq> 0" using i by auto
  have "tested (\<forall>j\<in>set (i # js). ptr ?m j \<noteq> 0) (taken cs (i # js) (ptr ?m)) (checker ?m)"
    unfolding tk all using t(2) by simp
  from Cons.IH [OF this] Cons.prems(2,3) t(1) show ?case by (simp add: x)
qed (simp add: taken_def)

lemma drops_ok:
  assumes "holding ok gs (taken cs (rev js) (ptr m)) (checker m)"
  shows "\<exists>m' gs'. drops cs js m = Inr m' \<and> holding ok gs' [] (checker m')"
  using assms
proof (induction js arbitrary: m gs)
  case (Cons i js)
  have "taken cs (rev (i # js)) (ptr m) = taken cs (rev js) (ptr m) @ (if ptr m i = 0 then [] else [(cs i, ptr m i)])"
    by (simp add: taken_def)
  with drop_block_held [of ok gs _ m i "cs i"] Cons.prems obtain s gs' where
    d: "drop_block i (free (cs i)) m = Inr (m\<lparr>checker := s\<rparr>)" "holding ok gs' (taken cs (rev js) (ptr m)) s" by metis
  from Cons.IH [of gs' "m\<lparr>checker := s\<rparr>"] d show ?case by simp
qed (auto simp: taken_def)

lemma test_ok:
  assumes "I [] (checker m)" and "live (calls (kheap (checker m))) = []" and "distinct (map fst xs)"
    and "\<forall>(i, w)\<in>set xs. sane (cs i) \<and> overruns (user (fst (cs i))) (zone (fst (cs i))) w"
  shows "\<exists>m' s m''. tries cs xs m = Inr m' \<and> scan (checker m') = Inr s \<and>
    messages s = messages (checker m') @ map (\<lambda>i. MemoryOverflow (symbol_of K (snd (cs i))))
      (filter (\<lambda>i. ptr m' i \<noteq> 0) (rev (map fst xs))) \<and>
    drops cs (map fst xs) (m'\<lparr>checker := s\<rparr>) = Inr m'' \<and> iso_head (checker m'') = [] \<and>
    ((\<forall>i\<in>fst ` set xs. ptr m' i \<noteq> 0) \<longrightarrow> live (calls (kheap (checker m''))) = [])"
proof -
  have "tested (\<forall>j\<in>set []. ptr m j \<noteq> 0) (taken cs [] (ptr m)) (checker m)"
    using assms(1,2) by (auto simp: tested_def holding_def taken_def tails_hit_def intro!: exI [of _ "[]"])
  from tries_ok [OF this _ assms(4)] assms(3) obtain m' where m': "tries cs xs m = Inr m'"
    "tested (\<forall>i\<in>fst ` set xs. ptr m' i \<noteq> 0) (taken cs (rev (map fst xs)) (ptr m')) (checker m')" by auto
  from scan_tested [OF m'(2)] obtain s gs where s: "scan (checker m') = Inr s"
    "holding (\<forall>i\<in>fst ` set xs. ptr m' i \<noteq> 0) gs (taken cs (rev (map fst xs)) (ptr m')) s"
    "messages s = messages (checker m') @ map (\<lambda>((c, ra), p). MemoryOverflow (symbol_of K ra))
       (taken cs (rev (map fst xs)) (ptr m'))" by blast
  have "map (\<lambda>((c, ra), p). MemoryOverflow (symbol_of K ra)) (taken cs js p) =
      map (\<lambda>i. MemoryOverflow (symbol_of K (snd (cs i)))) (filter (\<lambda>i. p i \<noteq> 0) js)" for js p
    by (induction js) (simp_all add: taken_def case_prod_beta)
  with s(3) have msg: "messages s = messages (checker m') @ map (\<lambda>i. MemoryOverflow (symbol_of K (snd (cs i))))
      (filter (\<lambda>i. ptr m' i \<noteq> 0) (rev (map fst xs)))" by simp
  have "holding (\<forall>i\<in>fst ` set xs. ptr m' i \<noteq> 0) gs (taken cs (rev (map fst xs)) (ptr (m'\<lparr>checker := s\<rparr>)))
      (checker (m'\<lparr>checker := s\<rparr>))" using s(2) by simp
  from drops_ok [OF this] obtain m'' gs' where
    d: "drops cs (map fst xs) (m'\<lparr>checker := s\<rparr>) = Inr m''"
    "holding (\<forall>i\<in>fst ` set xs. ptr m' i \<noteq> 0) gs' [] (checker m'')" by blast
  from d(2) have "I [] (checker m'')" "(\<forall>i\<in>fst ` set xs. ptr m' i \<noteq> 0) \<longrightarrow> live (calls (kheap (checker m''))) = []"
    by (auto simp: holding_def)
  moreover from this(1) have "iso_head (checker m'') = []"
    using guard_invD(2) [OF invariant] by fastforce
  ultimately show ?thesis using m'(1) s(1) msg d(1) by blast
qed

end

end
