(* ===== verification/Guard_One_Ops.thy ===== *)
theory Guard_One_Ops
  imports Guard_One Guard_Held Guard_Contract
begin

text \<open>
  The operations of the checker with one zone seen uniformly, what they do under the invariant,
  and the contract of the checkers interpreted on them.
\<close>

section \<open>Registering and dropping a block\<close>

definition single_of :: "u64 \<Rightarrow> u64 \<Rightarrow> u64 \<Rightarrow> u64 \<Rightarrow> request \<Rightarrow> u32 \<Rightarrow> u64 \<Rightarrow> guarded" where
  "single_of a buffer ra base r n zone =
     \<lparr>g_nodes = [(a, zone)], g_struct = a, g_struct_size = sizeof_iso_zone1, g_text = buffer,
      g_caller = ra, g_base = base, g_req = r, g_size = n\<rparr>"

lemma single_of_simps [simp]:
  "g_nodes (single_of a buffer ra base r n z) = [(a, z)]"
  "g_struct (single_of a buffer ra base r n z) = a"
  "g_struct_size (single_of a buffer ra base r n z) = sizeof_iso_zone1"
  "g_text (single_of a buffer ra base r n z) = buffer"
  "g_caller (single_of a buffer ra base r n z) = ra"
  "g_base (single_of a buffer ra base r n z) = base"
  "g_req (single_of a buffer ra base r n z) = r"
  "g_size (single_of a buffer ra base r n z) = n"
  by (simp_all add: single_of_def)

text \<open>The invariant: besides that of the list, each structure knows the address of its block.\<close>

definition inv1 :: "heap_env \<Rightarrow> guarded list \<Rightarrow> guard1 \<Rightarrow> bool" where
  "inv1 K gs s \<longleftrightarrow> guard_inv (unat sizeof_iso_zone1) K gs s \<and>
     (\<forall>g\<in>set gs. \<forall>(q, z)\<in>set (g_nodes g). mem_addr (zones s q) = g_base g)"

definition fits1 :: "u64 \<Rightarrow> request \<Rightarrow> u32 \<Rightarrow> u64 \<Rightarrow> bool" where
  "fits1 base r n zone \<longleftrightarrow> 0 < unat n \<and> unat n < 2 ^ 31 \<and> unat base \<le> unat zone \<and>
     unat zone + unat n \<le> unat base + extent r"

lemma sint_small:
  assumes "unat (n :: u32) < 2 ^ 31"
  shows "nat (sint n) = unat n"
proof -
  have "uint n < 2 ^ 31" using assms by (metis of_nat_less_numeral_power_cancel_iff uint_nat)
  then have t: "take_bit 31 (uint n) = uint n" by (intro take_bit_int_eq_self) simp_all
  then have nb: "\<not> bit (uint n) 31" by (metis bit_take_bit_iff less_irrefl)
  have "sint n = signed_take_bit 31 (uint n)" unfolding sint_uint by simp
  also have "\<dots> = uint n" by (rule trans [OF signed_take_bit_eq_if_positive [OF nb] t])
  finally show ?thesis by simp
qed

lemma fits1_count: "fits1 base r n zone \<Longrightarrow> nat (sint n) = unat n"
  by (rule sint_small) (simp add: fits1_def)

lemma inv1_frame:
  assumes "inv1 K gs s" and "guard_inv (unat sizeof_iso_zone1) K gs s'"
    and "\<And>q. q \<in> set (iso_head s) \<Longrightarrow> zones s' q = zones s q"
  shows "inv1 K gs s'"
proof -
  have "mem_addr (zones s' q) = g_base g" if "g \<in> set gs" "(q, z) \<in> set (g_nodes g)" for g q z
  proof -
    have "q \<in> set (iso_head s)"
      using assms(1) that by (auto simp: inv1_def guard_inv_def set_nodes_of)
    then show ?thesis using assms(1,3) that by (auto simp: inv1_def)
  qed
  then show ?thesis using assms(2) by (auto simp: inv1_def)
qed

lemma shaped_single:
  assumes "sound_block (a, Kmalloc sizeof_iso_zone1 fl)" and "fits1 base r n zone"
  shows "shaped (unat sizeof_iso_zone1) (single_of a buffer ra base r n zone)"
  using assms(2) by (auto simp: shaped_def fits1_def sizeof_iso_zone1_def word_less_nat_alt)

text \<open>The state after the zone was filled.\<close>

definition filled1 :: "u32 \<Rightarrow> u64 \<Rightarrow> heap \<Rightarrow> heap" where
  "filled1 n zone h = h\<lparr>bytes := \<lambda>x. if x \<in> bytes_at zone (unat n) then guard_byte else bytes h x\<rparr>"

lemma filled1_simps [simp]:
  "calls (filled1 n p h) = calls h"
  "texts (filled1 n p h) = texts h"
  by (simp_all add: filled1_def)

definition failed1 :: "u32 \<Rightarrow> u64 \<Rightarrow> guard1 \<Rightarrow> guard1 \<Rightarrow> bool" where
  "failed1 n zone s s' \<longleftrightarrow> iso_head s' = iso_head s \<and> zones s' = zones s \<and>
     bytes (kheap s') = bytes (filled1 n zone (kheap s)) \<and>
     (messages s' = messages s @ [BufferFailed] \<or> messages s' = messages s @ [StructFailed])"

definition registered1 :: "heap_env \<Rightarrow> u64 \<Rightarrow> u64 \<Rightarrow> u32 \<Rightarrow> u64 \<Rightarrow> guard1 \<Rightarrow> guard1 \<Rightarrow> bool" where
  "registered1 K a buffer n zone s s' \<longleftrightarrow> iso_head s' = a # iso_head s \<and>
     (\<forall>q\<in>set (iso_head s). zones s' q = zones s q) \<and> \<not> flag (zones s' a) \<and>
     bytes (kheap s') = bytes (filled1 n zone (kheap s)) \<and>
     live (calls (kheap s')) = (a, Kmalloc sizeof_iso_zone1 (GFP_KERNEL K)) #
       (buffer, Kmalloc 200 (GFP_KERNEL K)) # live (calls (kheap s)) \<and>
     messages s' = messages s"

text \<open>
  Guarding a block after its zone is filled: without a text, without a structure, and with both.
\<close>

lemma guard_block1_no_text:
  assumes laws: "heap_laws K" and inv1: "inv1 K gs s"
    and inv: "guard_inv (unat sizeof_iso_zone1) K gs (s\<lparr>kheap := filled1 n zone (kheap s)\<rparr>)"
    and fill: "fill_zone zone (nat (sint n)) (kheap s) = Inr (filled1 n zone (kheap s))"
    and b: "ask K (Kmalloc 200 (GFP_KERNEL K)) (filled1 n zone (kheap s)) = (0, h1)"
  shows "\<exists>s'. guard_block1 K ra n zone base s = Inr (0, s') \<and> inv1 K gs s' \<and> failed1 n zone s s'"
proof -
  let ?s' = "say BufferFailed (s\<lparr>kheap := h1\<rparr>)"
  have "guard_block1 K ra n zone base s = Inr (0, ?s')"
    unfolding guard_block1_def fill using b by (simp add: kmalloc_def)
  moreover have "guard_inv (unat sizeof_iso_zone1) K gs (s\<lparr>kheap := h1\<rparr>)"
    using guard_inv_ask [OF inv laws, of "Kmalloc 200 (GFP_KERNEL K)"] b by simp
  then have "inv1 K gs ?s'" by (rule inv1_frame [OF inv1 guard_inv_say]) (simp add: say_def)
  moreover have "failed1 n zone s ?s'" using b by (simp add: failed1_def say_def)
  ultimately show ?thesis by blast
qed

lemma guard_block1_no_struct:
  assumes laws: "heap_laws K" and inv1: "inv1 K gs s"
    and inv: "guard_inv (unat sizeof_iso_zone1) K gs (s\<lparr>kheap := filled1 n zone (kheap s)\<rparr>)"
    and fill: "fill_zone zone (nat (sint n)) (kheap s) = Inr (filled1 n zone (kheap s))"
    and name: "nameable K ra"
    and b: "ask K (Kmalloc 200 (GFP_KERNEL K)) (filled1 n zone (kheap s)) = (buffer, h1)" "buffer \<noteq> 0"
    and a: "ask K (Kmalloc sizeof_iso_zone1 (GFP_KERNEL K))
      (h1\<lparr>texts := (texts h1)(buffer := symbol_of K ra)\<rparr>) = (0, h3)"
  shows "\<exists>s'. guard_block1 K ra n zone base s = Inr (0, s') \<and> inv1 K gs s' \<and> failed1 n zone s s'"
proof -
  let ?s' = "say StructFailed (s\<lparr>kheap := h3\<rparr>)"
  have "guard_block1 K ra n zone base s = Inr (0, ?s')"
    unfolding guard_block1_def fill using b text_written [OF b, of ra] a name by (simp add: kmalloc_def nameable_def)
  moreover have "failed1 n zone s ?s'" using b a by (simp add: failed1_def say_def)
  moreover have "guard_inv (unat sizeof_iso_zone1) K gs (s\<lparr>kheap := h1\<lparr>texts := (texts h1)(buffer := symbol_of K ra)\<rparr>\<rparr>)"
    by (rule guard_inv_text [OF inv laws _ b(2)]) (use b(1) in simp_all)
  from guard_inv_ask [OF this laws, of "Kmalloc sizeof_iso_zone1 (GFP_KERNEL K)"] a
  have "guard_inv (unat sizeof_iso_zone1) K gs (s\<lparr>kheap := h3\<rparr>)" by (simp add: sizeof_iso_zone1_def)
  then have "inv1 K gs ?s'" by (intro inv1_frame [OF inv1 guard_inv_say]) (simp_all add: say_def)
  ultimately show ?thesis by blast
qed

lemma guard_block1_both:
  assumes laws: "heap_laws K" and inv1: "inv1 K gs s"
    and inv: "guard_inv (unat sizeof_iso_zone1) K gs (s\<lparr>kheap := filled1 n zone (kheap s)\<rparr>)"
    and base: "(base, r) \<in> set (live (calls (kheap s)))" "unused K gs base" and fits: "fits1 base r n zone"
    and fill: "fill_zone zone (nat (sint n)) (kheap s) = Inr (filled1 n zone (kheap s))"
    and name: "nameable K ra"
    and b: "ask K (Kmalloc 200 (GFP_KERNEL K)) (filled1 n zone (kheap s)) = (buffer, h1)" "buffer \<noteq> 0"
    and a: "ask K (Kmalloc sizeof_iso_zone1 (GFP_KERNEL K))
      (h1\<lparr>texts := (texts h1)(buffer := symbol_of K ra)\<rparr>) = (a, h3)" "a \<noteq> 0"
  shows "\<exists>s'. guard_block1 K ra n zone base s = Inr (base, s') \<and>
    inv1 K (single_of a buffer ra base r n zone # gs) s' \<and> registered1 K a buffer n zone s s'"
proof -
  let ?N = "unat sizeof_iso_zone1" and ?s0 = "s\<lparr>kheap := filled1 n zone (kheap s)\<rparr>"
  let ?h2 = "h1\<lparr>texts := (texts h1)(buffer := symbol_of K ra)\<rparr>" and ?g = "single_of a buffer ra base r n zone"
  let ?zs = "(zones s)(a := \<lparr>callerinfo = buffer, iso_size = n, addr = zone, flag = False, mem_addr = base\<rparr>)"
  let ?s' = "s\<lparr>kheap := h3, zones := ?zs, iso_head := a # iso_head s\<rparr>"
  have "sound_block (a, Kmalloc sizeof_iso_zone1 (GFP_KERNEL K))"
    by (rule ask_sound [OF laws a]) (simp add: sizeof_iso_zone1_def)
  note shp = shaped_single [OF this fits, of buffer ra]
  have new: "callerinfo (?zs p) = g_text ?g \<and> iso_size (?zs p) = g_size ?g \<and> addr (?zs p) = z"
    if "(p, z) \<in> set (g_nodes ?g)" for p z using that by auto
  have old: "?zs p = zones ?s0 p" if "p \<notin> fst ` set (g_nodes ?g)" for p using that by simp
  have sz: "0 < unat (g_struct_size ?g)" by (simp add: sizeof_iso_zone1_def)
  have pre: "(g_base ?g, g_req ?g) \<in> set (live (calls (kheap ?s0)))" "unused K gs (g_base ?g)"
    "kmalloc K 200 (GFP_KERNEL K) (kheap ?s0) = (g_text ?g, h1)" "g_text ?g \<noteq> 0"
    "?h2 = h1\<lparr>texts := (texts h1)(g_text ?g := symbol_of K (g_caller ?g))\<rparr>"
    "kmalloc K (g_struct_size ?g) (GFP_KERNEL K) ?h2 = (g_struct ?g, h3)" "g_struct ?g \<noteq> 0"
    using base b a by (simp_all add: kmalloc_def)
  note reg = guard_inv_register [where zs = ?zs, OF laws inv pre sz shp new old]
  have inv': "guard_inv ?N K (?g # gs) ?s'" using reg(1) by simp
  have nl: "\<forall>q\<in>set (a # iso_head s). in_live h3 q ?N"
    using inv_nodes_live [OF inv'] by (simp add: node_live_def)
  have "guard_block1 K ra n zone base s = Inr (base, ?s')"
    unfolding guard_block1_def fill using b text_written [OF b, of ra] a name nl
    by (simp add: list_add_ok node_live_def Let_def kmalloc_def nameable_def)
  moreover have "registered1 K a buffer n zone s ?s'" unfolding registered1_def using reg(2-4) by simp
  moreover have "mem_addr (zones ?s' q) = g_base g" if "g \<in> set gs" "(q, z) \<in> set (g_nodes g)" for g q z
  proof -
    have "q \<in> set (iso_head s)" using that guard_invD(2) [of ?N K gs s] inv1 by (auto simp: inv1_def set_nodes_of)
    then have "zones ?s' q = zones s q" using reg(3) by simp
    with inv1 that show ?thesis by (auto simp: inv1_def)
  qed
  then have "inv1 K (?g # gs) ?s'" using inv' by (auto simp: inv1_def)
  ultimately show ?thesis by blast
qed

lemma guard_block1_ok:
  assumes laws: "heap_laws K" and inv: "inv1 K gs s"
    and base: "(base, r) \<in> set (live (calls (kheap s)))" "unused K gs base" and fits: "fits1 base r n zone"
    and name: "nameable K ra"
  shows "\<exists>p s'. guard_block1 K ra n zone base s = Inr (p, s') \<and>
    (p = 0 \<and> inv1 K gs s' \<and> failed1 n zone s s' \<or>
     p = base \<and> (\<exists>a buffer. inv1 K (single_of a buffer ra base r n zone # gs) s' \<and>
       registered1 K a buffer n zone s s'))"
proof -
  let ?h0 = "filled1 n zone (kheap s)"
  have ginv: "guard_inv (unat sizeof_iso_zone1) K gs s" using inv by (simp add: inv1_def)
  note snd = live_sound [OF guard_invD(1) [OF ginv] base(1)]
  have fill: "fill_zone zone (nat (sint n)) (kheap s) = Inr ?h0"
    unfolding filled1_def fits1_count [OF fits] using snd fits
    by (intro fill_zone_ok in_liveI [OF base(1)]) (auto simp: fits1_def sound_block_def)
  have inv0: "guard_inv (unat sizeof_iso_zone1) K gs (s\<lparr>kheap := ?h0\<rparr>)"
    using guard_inv_bytes [OF ginv] by (simp add: filled1_def)
  obtain buffer h1 where b: "ask K (Kmalloc 200 (GFP_KERNEL K)) ?h0 = (buffer, h1)" by fastforce
  obtain a h3 where a: "ask K (Kmalloc sizeof_iso_zone1 (GFP_KERNEL K))
      (h1\<lparr>texts := (texts h1)(buffer := symbol_of K ra)\<rparr>) = (a, h3)" by fastforce
  consider (none) "buffer = 0" | (struct) "buffer \<noteq> 0" "a = 0" | (both) "buffer \<noteq> 0" "a \<noteq> 0" by blast
  then show ?thesis
  proof cases
    case none
    with guard_block1_no_text [OF laws inv inv0 fill, of h1 ra base] b show ?thesis by blast
  next
    case struct
    with guard_block1_no_struct [OF laws inv inv0 fill name b, of h3 base] a show ?thesis by blast
  next
    case both
    from guard_block1_both [OF laws inv inv0 base fits fill name b both(1) a both(2)] show ?thesis by blast
  qed
qed


lemma unguard_block1_ok:
  assumes inv: "inv1 K (gs1 @ g # gs2) s" and g: "g = single_of a buffer ra base r n zone"
    and q: "releases q r"
    and s': "s' = s\<lparr>iso_head := nodes_of (gs1 @ gs2), kheap := (kheap s)
      \<lparr>calls := Gave q base # Gave Kfree a # Gave Kfree buffer # calls (kheap s)\<rparr>\<rparr>"
  shows "unguard_block1 base q s = Inr s'" and "inv1 K (gs1 @ gs2) s'"
proof -
  let ?n = "unat sizeof_iso_zone1"
  have ginv: "guard_inv ?n K (gs1 @ g # gs2) s" using inv by (simp add: inv1_def)
  have gin: "g \<in> set (gs1 @ g # gs2)" by simp
  have head: "iso_head s = nodes_of gs1 @ a # nodes_of gs2"
    using guard_invD(2) [OF ginv] by (simp add: g)
  have dist: "distinct (iso_head s)" using nodes_distinct [OF ginv] guard_invD(2) [OF ginv] by simp
  note live = inv_nodes_live [OF ginv]
  have mem: "mem_addr (zones s p) = g_base h" if "h \<in> set (gs1 @ g # gs2)" "(p, z) \<in> set (g_nodes h)" for h p z
  proof -
    from inv that(1) have "\<forall>(q, z)\<in>set (g_nodes h). mem_addr (zones s q) = g_base h" unfolding inv1_def by blast
    with that(2) show ?thesis by fastforce
  qed
  have hit: "base = mem_addr (zones s a)" using mem [OF gin, of a zone] by (simp add: g)
  have miss: "\<forall>p\<in>set (nodes_of gs1). node_live ?n s p \<and> base \<noteq> mem_addr (zones s p)"
  proof
    fix p assume p: "p \<in> set (nodes_of gs1)"
    then obtain h z where h: "h \<in> set gs1" "(p, z) \<in> set (g_nodes h)" by (auto simp: set_nodes_of)
    have hin: "h \<in> set (gs1 @ g # gs2)" using h(1) by simp
    have "g \<noteq> h" using h p dist by (auto simp: head g)
    moreover have "g = h" if "g_base g = g_base h"
      by (rule block_owner [OF ginv gin hin, of "(g_base g, g_req g)" "(g_base h, g_req h)"])
        (simp_all add: blocks_of_def that)
    ultimately have "base \<noteq> g_base h" by (auto simp: g)
    moreover have "node_live ?n s p" using live p by (simp add: head)
    ultimately show "node_live ?n s p \<and> base \<noteq> mem_addr (zones s p)" using mem [OF hin h(2)] by simp
  qed
  have "\<exists>prev. search_zone (node_live ?n s) (\<lambda>p. base = mem_addr (zones s p)) None 0 (iso_head s) =
      Inr (a, Some prev)"
    unfolding head using search_zone_hit [OF miss _ hit] live by (simp add: head)
  moreover have "list_del ?n a s = Inr (s\<lparr>iso_head := nodes_of (gs1 @ gs2)\<rparr>)"
    using list_del_ok [OF head live] dist by (simp add: head)
  ultimately have drop: "drop_zone1 base s = Inr (a, s\<lparr>iso_head := nodes_of (gs1 @ gs2)\<rparr>)"
    by (auto simp: drop_zone1_def)
  have node: "(g_struct g, zone) \<in> set (g_nodes g)" by (simp add: g)
  from free_blocks [OF ginv node _ refl refl, of q] q drop
  have res: "unguard_block1 base q s = Inr s'" "guard_inv ?n K (gs1 @ gs2) s'"
    by (simp_all add: unguard_block1_def s' g)
  show "unguard_block1 base q s = Inr s'" by (rule res(1))
  have "\<forall>h\<in>set (gs1 @ gs2). \<forall>(q, z)\<in>set (g_nodes h). mem_addr (zones s q) = g_base h"
    using inv by (simp add: inv1_def)
  moreover have "zones s' = zones s" by (simp add: s')
  ultimately show "inv1 K (gs1 @ gs2) s'" using res(2) by (simp only: inv1_def simp_thms)
qed

section \<open>The operations uniformly\<close>

fun do_alloc1 :: "heap_env \<Rightarrow> call \<times> u64 \<Rightarrow> guard1 \<Rightarrow> (u64 \<times> guard1) result" where
  "do_alloc1 K (Skmalloc n flags, ra) s = skmalloc1 K ra n flags s"
| "do_alloc1 K (Svmalloc n, ra) s = svmalloc1 K ra n s"
| "do_alloc1 K (SdmaAlloc n flags, ra) s =
     bind_result (sdma_alloc_coherent1 K ra n flags s) (\<lambda>((p, handle), s). Inr (p, s))"
| "do_alloc1 K (SgetPages gm order, ra) s = sget_free_pages1 K ra gm order s"
| "do_alloc1 K (SgetPage gm, ra) s = sget_free_page1 K ra gm s"
| "do_alloc1 K (SgetDmaPages gm order, ra) s = sget_dma_pages1 K ra gm order s"
| "do_alloc1 K (NgetPages gm order, ra) s = nget_free_pages1 K ra gm order s"
| "do_alloc1 K (GetPagesEx gm n, ra) s = get_free_pages_ex1 K ra gm n s"

fun do_free1 :: "call \<times> u64 \<Rightarrow> u64 \<Rightarrow> u64 \<Rightarrow> guard1 \<Rightarrow> guard1 result" where
  "do_free1 (Skmalloc _ _, _) p bus s = skfree1 p s"
| "do_free1 (Svmalloc _, _) p bus s = svfree1 p s"
| "do_free1 (SdmaAlloc n _, _) p bus s = sdma_free_coherent1 n p bus s"
| "do_free1 (SgetPages _ order, _) p bus s = sfree_pages1 p order s"
| "do_free1 (SgetPage _, _) p bus s = sfree_page1 p s"
| "do_free1 (SgetDmaPages _ order, _) p bus s = sfree_pages1 p order s"
| "do_free1 (NgetPages _ order, _) p bus s = nfree_pages1 p order s"
| "do_free1 (GetPagesEx _ n, _) p bus s = free_pages_ex1 p n s"

fun request_of1 :: "heap_env \<Rightarrow> call \<Rightarrow> request" where
  "request_of1 K (Skmalloc n flags) = Kmalloc (n + 20) flags"
| "request_of1 K (Svmalloc n) = Vmalloc (n + 20)"
| "request_of1 K (SdmaAlloc n flags) = DmaAllocCoherent (n + 20) flags"
| "request_of1 K (SgetPages gm order) = GetFreePages gm (order + 1)"
| "request_of1 K (SgetPage gm) = GetFreePages gm 1"
| "request_of1 K (SgetDmaPages gm order) = GetFreePages (or gm (GFP_DMA K)) (order + 1)"
| "request_of1 K (NgetPages gm order) = GetFreePages gm order"
| "request_of1 K (GetPagesEx gm n) = AllocPagesExact (n + 20) gm"

fun zone_bytes1 :: "call \<Rightarrow> u32" where
  "zone_bytes1 (SgetPages gm order) = ucast (page_bytes order)"
| "zone_bytes1 (SgetPage gm) = ucast (page_bytes 0)"
| "zone_bytes1 (SgetDmaPages gm order) = ucast (page_bytes order)"
| "zone_bytes1 _ = 20"

fun user_bytes1 :: "call \<Rightarrow> u64" where
  "user_bytes1 (Skmalloc n flags) = n"
| "user_bytes1 (Svmalloc n) = n"
| "user_bytes1 (SdmaAlloc n flags) = n"
| "user_bytes1 (SgetPages gm order) = page_bytes order"
| "user_bytes1 (SgetPage gm) = page_bytes 0"
| "user_bytes1 (SgetDmaPages gm order) = page_bytes order"
| "user_bytes1 (NgetPages gm order) = page_bytes order - 20"
| "user_bytes1 (GetPagesEx gm n) = n"

fun release_of1 :: "call \<Rightarrow> u64 \<Rightarrow> release" where
  "release_of1 (Skmalloc n flags) bus = Kfree"
| "release_of1 (Svmalloc n) bus = Vfree"
| "release_of1 (SdmaAlloc n flags) bus = DmaFreeCoherent (n + 20) bus"
| "release_of1 (SgetPages gm order) bus = FreePages (order + 1)"
| "release_of1 (SgetPage gm) bus = FreePages 1"
| "release_of1 (SgetDmaPages gm order) bus = FreePages (order + 1)"
| "release_of1 (NgetPages gm order) bus = FreePages order"
| "release_of1 (GetPagesEx gm n) bus = FreePagesExact (n + 20)"

fun sane_call1 :: "call \<Rightarrow> bool" where
  "sane_call1 (Skmalloc n flags) \<longleftrightarrow> unat n + 20 < 2 ^ 64"
| "sane_call1 (Svmalloc n) \<longleftrightarrow> unat n + 20 < 2 ^ 64"
| "sane_call1 (SdmaAlloc n flags) \<longleftrightarrow> unat n + 20 < 2 ^ 64"
| "sane_call1 (SgetPages gm order) \<longleftrightarrow> unat order < 11"
| "sane_call1 (SgetPage gm) \<longleftrightarrow> True"
| "sane_call1 (SgetDmaPages gm order) \<longleftrightarrow> unat order < 11"
| "sane_call1 (NgetPages gm order) \<longleftrightarrow> unat order < 11"
| "sane_call1 (GetPagesEx gm n) \<longleftrightarrow> unat n + 20 < 2 ^ 64"

lemma do_alloc1_eq:
  "do_alloc1 K (c, ra) s = (let (base, h) = ask K (request_of1 K c) (kheap s); s = s\<lparr>kheap := h\<rparr> in
    if base \<noteq> 0 then guard_block1 K ra (zone_bytes1 c) (base + user_bytes1 c) base s
    else Inr (0, say AllocationFailed s))"
proof (cases c)
  case (SdmaAlloc n flags)
  obtain base h where a: "ask K (DmaAllocCoherent (n + 20) flags) (kheap s) = (base, h)" by fastforce
  have b: "bind_result (bind_result m (\<lambda>(ret, s). Inr ((ret, x), s))) (\<lambda>((p, y), s). Inr (p, s)) = m"
    for m :: "(u64 \<times> guard1) result" and x :: u64
    by (cases m) auto
  show ?thesis by (simp add: SdmaAlloc sdma_alloc_coherent1_def a b Let_def)
qed (simp_all add: skmalloc1_def svmalloc1_def sget_free_pages1_def sget_free_page1_def
      sget_dma_pages1_def nget_free_pages1_def get_free_pages_ex1_def kmalloc_def Let_def case_prod_beta
      algebra_simps cong: if_cong)

lemma do_free1_eq:
  "do_free1 (c, ra) p bus s = (if p = 0 then Inr s else unguard_block1 p (release_of1 c bus) s)"
  by (cases c) (simp_all add: skfree1_def svfree1_def sdma_free_coherent1_def sfree_pages1_def sfree_page1_def
      nfree_pages1_def free_pages_ex1_def)

lemma releases_request1: "releases (release_of1 c bus) (request_of1 K c)"
  by (cases c) simp_all

lemma page_zone1:
  assumes "unat order < 11"
  shows "unat (ucast (page_bytes order) :: u32) = 2 ^ unat order * 4096"
    and "(2 :: nat) ^ unat order * 4096 < 2 ^ 31" and "20 \<le> (2 :: nat) ^ unat order * 4096"
proof -
  have "2 ^ unat order < (2 :: nat) ^ 11" by (rule power_strict_increasing [OF assms]) simp
  then show b: "(2 :: nat) ^ unat order * 4096 < 2 ^ 31" by simp
  then show "unat (ucast (page_bytes order) :: u32) = 2 ^ unat order * 4096"
    by (simp add: unsigned_ucast_eq page_bytes_eq(1) [OF assms] take_bit_nat_eq_self)
  show "20 \<le> (2 :: nat) ^ unat order * 4096" using one_le_power [of "2 :: nat" "unat order"] by linarith
qed

lemma room_fits1:
  assumes "sane_call1 c" and "sound_block (base, request_of1 K c)"
  shows "fits1 base (request_of1 K c) (zone_bytes1 c) (base + user_bytes1 c)"
    and "unat (base + user_bytes1 c) = unat base + unat (user_bytes1 c)"
    and "extent (request_of1 K c) = unat (user_bytes1 c) + unat (zone_bytes1 c)"
proof -
  have add: "unat (x + y) = unat x + unat y" if "unat x + unat y < 2 ^ 64" for x y :: u64
    using that by (simp add: unat_plus_if')
  show ext: "extent (request_of1 K c) = unat (user_bytes1 c) + unat (zone_bytes1 c)"
  proof (cases c)
    case (NgetPages gm order)
    with assms(1) have o: "unat order < 11" by simp
    have "20 \<le> page_bytes order" using page_bytes_eq(1) [OF o] page_zone1(3) [OF o] by (simp add: word_le_nat_alt)
    then have "unat (page_bytes order - 20) = 2 ^ unat order * 4096 - 20"
      using page_bytes_eq(1) [OF o] by (simp add: unat_sub)
    then show ?thesis using page_zone1(3) [OF o] by (simp add: NgetPages PAGE_SIZE_def)
  qed (use assms(1) page_bytes_eq [of 0] page_bytes_eq page_zone1(1) [of 0] page_zone1(1)
      in \<open>auto simp: add PAGE_SIZE_def\<close>)
  have z: "20 \<le> unat (zone_bytes1 c)" "unat (zone_bytes1 c) < 2 ^ 31"
    using page_zone1 assms(1) page_zone1 [of 0] by (cases c; simp)+
  show b: "unat (base + user_bytes1 c) = unat base + unat (user_bytes1 c)"
    using assms(2) ext by (intro add) (simp add: sound_block_def)
  show "fits1 base (request_of1 K c) (zone_bytes1 c) (base + user_bytes1 c)"
    using z ext b by (simp add: fits1_def)
qed


section \<open>What the operations do under the invariant\<close>

definition holds1 :: "heap_env \<Rightarrow> (call \<times> u64) \<times> u64 \<Rightarrow> guarded \<Rightarrow> bool" where
  "holds1 K x g \<longleftrightarrow> (case x of ((c, ra), p) \<Rightarrow> sane_call1 c \<and>
     (\<exists>a buffer. g = single_of a buffer ra p (request_of1 K c) (zone_bytes1 c) (p + user_bytes1 c)))"

lemma holds1E:
  assumes "holds1 K ((c, ra), p) g"
  obtains a buffer where
    "g = single_of a buffer ra p (request_of1 K c) (zone_bytes1 c) (p + user_bytes1 c)" "sane_call1 c"
  using assms by (auto simp: holds1_def)

lemma same_zones1:
  assumes inv: "inv1 K gs s" and base: "(base, r) \<in> set (live (calls (kheap s)))" "unused K gs base"
    and fits: "fits1 base r n zone"
    and zs: "\<And>q. q \<in> set (iso_head s) \<Longrightarrow> zones s' q = zones s q"
    and bs: "bytes (kheap s') = bytes (filled1 n zone (kheap s))"
  shows "same_zones s s'"
  unfolding same_zones_def
proof (intro ballI conjI)
  have ginv: "guard_inv (unat sizeof_iso_zone1) K gs s" using inv by (simp add: inv1_def)
  fix q assume q: "q \<in> set (iso_head s)"
  with zs show "zones s' q = zones s q" by simp
  from q obtain g z where g: "g \<in> set gs" "(q, z) \<in> set (g_nodes g)"
    by (auto simp: guard_invD(2) [OF ginv] set_nodes_of)
  have d: "addr (zones s q) = z" "iso_size (zones s q) = g_size g"
    using guard_invD(5) [OF ginv g(1)] g(2) by (auto simp: described_def)
  have "bytes (kheap s') x = bytes (kheap s) x" if "x \<in> bytes_at z (unat (g_size g))" for x
  proof -
    have "x \<notin> bytes_at zone (unat n)"
      using zone_apart [OF ginv g base that] fits unfolding bytes_at_def fits1_def by auto
    then show ?thesis by (simp add: bs filled1_def)
  qed
  then show "damaged (kheap s') (addr (zones s q)) (iso_size (zones s q)) =
      damaged (kheap s) (addr (zones s q)) (iso_size (zones s q))" by (simp add: d damaged_def)
qed

lemma request1_positive: "sane_call1 c \<Longrightarrow> 0 < extent (request_of1 K c)"
proof (rule ccontr)
  assume c: "sane_call1 c" and "\<not> 0 < extent (request_of1 K c)"
  then have "extent (request_of1 K c) = 0" by simp
  with c show False using page_bytes_eq(3) by (cases c) (auto simp: unat_plus_if' PAGE_SIZE_def)
qed

lemma alloc1_refused:
  assumes inv: "inv1 K gs s" and ask: "ask K (request_of1 K c) (kheap s) = (0, h)"
  shows "inv1 K gs (say AllocationFailed (s\<lparr>kheap := h\<rparr>))"
    and "failed_alloc s (say AllocationFailed (s\<lparr>kheap := h\<rparr>))"
proof -
  have "guard_inv (unat sizeof_iso_zone1) K gs s" using inv by (simp add: inv1_def)
  from ask_refused(1) [OF this ask] show "inv1 K gs (say AllocationFailed (s\<lparr>kheap := h\<rparr>))"
    by (intro inv1_frame [OF inv] guard_inv_say) (simp_all add: say_def)
  show "failed_alloc s (say AllocationFailed (s\<lparr>kheap := h\<rparr>))"
    using ask by (simp add: failed_alloc_def same_zones_def say_def damaged_def)
qed

text \<open>After a block was given out: nothing old is damaged, and neither is the new zone.\<close>

lemma alloc1_unregistered:
  assumes inv: "inv1 K gs s" and mem: "(base, r) \<in> set (live (calls (kheap s)))"
    and un: "unused K gs base" and fits: "fits1 base r n zone" and f: "failed1 n zone s s'"
  shows "failed_alloc s s'"
proof -
  have "same_zones s s'"
    by (rule same_zones1 [OF inv mem un fits]) (use f in \<open>auto simp: failed1_def\<close>)
  then show ?thesis using f by (auto simp: failed_alloc_def failed1_def)
qed

lemma alloc1_registered:
  assumes inv: "inv1 K gs s" and mem: "(base, r) \<in> set (live (calls (kheap s)))"
    and un: "unused K gs base" and fits: "fits1 base r n zone" and f: "registered1 K a buffer n zone s s'"
  shows "new_block (single_of a buffer ra base r n zone) s s'"
proof -
  have "same_zones s s'"
    by (rule same_zones1 [OF inv mem un fits]) (use f in \<open>auto simp: registered1_def\<close>)
  moreover have "\<not> damaged (kheap s') zone n"
    using f by (simp add: registered1_def damaged_def filled1_def)
  ultimately show ?thesis using f by (auto simp: new_block_def registered1_def)
qed

lemma do_alloc1_ok:
  assumes laws: "heap_laws K" and inv: "inv1 K gs s" and c: "sane_call1 c" and name: "nameable K ra"
  shows "\<exists>p s'. do_alloc1 K (c, ra) s = Inr (p, s') \<and>
    (p = 0 \<and> inv1 K gs s' \<and> failed_alloc s s' \<or>
     p \<noteq> 0 \<and> (\<exists>g. holds1 K ((c, ra), p) g \<and> inv1 K (g # gs) s' \<and> new_block g s s' \<and>
       live (calls (kheap s')) = blocks_of K g @ live (calls (kheap s))))"
proof -
  let ?r = "request_of1 K c" and ?n = "zone_bytes1 c"
  have ginv: "guard_inv (unat sizeof_iso_zone1) K gs s" using inv by (simp add: inv1_def)
  obtain base h where ask: "ask K ?r (kheap s) = (base, h)" by fastforce
  show ?thesis
  proof (cases "base = 0")
    case True
    with ask have "do_alloc1 K (c, ra) s = Inr (0, say AllocationFailed (s\<lparr>kheap := h\<rparr>))"
      unfolding do_alloc1_eq by simp
    with alloc1_refused [OF inv, of c h] ask True show ?thesis by blast
  next
    case False
    let ?s = "s\<lparr>kheap := h\<rparr>" and ?z = "base + user_bytes1 c"
    note ext = request1_positive [OF c, of K]
    have sb: "sound_block (base, ?r)" by (rule ask_sound [OF laws ask False ext])
    note fits = room_fits1 [OF c sb]
    have l: "live (calls h) = (base, ?r) # live (calls (kheap s))" using ask_live [OF ask] False by simp
    have inv': "inv1 K gs ?s" by (rule inv1_frame [OF inv guard_inv_ask [OF ginv laws ask ext]]) simp
    have un: "unused K gs base" by (rule ask_unused [OF ginv laws ask False ext])
    have mem: "(base, ?r) \<in> set (live (calls (kheap ?s)))" by (simp add: l)
    have same: "failed_alloc ?s s' \<Longrightarrow> failed_alloc s s'" "new_block g ?s s' \<Longrightarrow> new_block g s s'" for g s'
      using ask by (auto simp: failed_alloc_def new_block_def same_zones_def damaged_def)
    have eq: "do_alloc1 K (c, ra) s = guard_block1 K ra ?n ?z base ?s"
      unfolding do_alloc1_eq using ask False by simp
    from guard_block1_ok [OF laws inv' mem un fits(1) name] obtain p s' where
      blk: "guard_block1 K ra ?n ?z base ?s = Inr (p, s')" and
      or: "p = 0 \<and> inv1 K gs s' \<and> failed1 ?n ?z ?s s' \<or>
       p = base \<and> (\<exists>a buffer. inv1 K (single_of a buffer ra base ?r ?n ?z # gs) s' \<and>
         registered1 K a buffer ?n ?z ?s s')" by blast
    from or show ?thesis
    proof (elim disjE conjE exE)
      assume p: "p = 0" "inv1 K gs s'" and f: "failed1 ?n ?z ?s s'"
      from same(1) [OF alloc1_unregistered [OF inv' mem un fits(1) f]] p blk eq show ?thesis
        by (intro exI [of _ p] exI [of _ s']) simp
    next
      fix a buffer assume p: "p = base"
        and i: "inv1 K (single_of a buffer ra base ?r ?n ?z # gs) s'"
        and f: "registered1 K a buffer ?n ?z ?s s'"
      let ?g = "single_of a buffer ra base ?r ?n ?z"
      have "live (calls (kheap s')) = blocks_of K ?g @ live (calls (kheap s))"
        using f by (simp add: registered1_def blocks_of_def l)
      moreover have "holds1 K ((c, ra), p) ?g" using p c by (auto simp: holds1_def)
      ultimately show ?thesis using i blk eq p False same(2) [OF alloc1_registered [OF inv' mem un fits(1) f]]
        by (intro exI [of _ p] exI [of _ s'] conjI disjI2 exI [of _ ?g]) simp_all
    qed
  qed
qed

lemma do_free1_ok:
  assumes inv: "inv1 K (gs1 @ g # gs2) s" and g: "holds1 K (x, p) g"
  shows "\<exists>h. do_free1 x p bus s = Inr (s\<lparr>iso_head := nodes_of (gs1 @ gs2), kheap := h\<rparr>) \<and>
    inv1 K (gs1 @ gs2) (s\<lparr>iso_head := nodes_of (gs1 @ gs2), kheap := h\<rparr>) \<and> bytes h = bytes (kheap s) \<and>
    live (calls h) = filter (\<lambda>b. b \<notin> set (blocks_of K g)) (live (calls (kheap s)))"
proof -
  obtain c ra where x: "x = (c, ra)" by (cases x)
  from g [unfolded x] obtain a buffer where
    single: "g = single_of a buffer ra p (request_of1 K c) (zone_bytes1 c) (p + user_bytes1 c)" and c: "sane_call1 c"
    by (rule holds1E)
  have ginv: "guard_inv (unat sizeof_iso_zone1) K (gs1 @ g # gs2) s" using inv by (simp add: inv1_def)
  have gin: "g \<in> set (gs1 @ g # gs2)" by simp
  have ok: "heap_ok (kheap s)" by (rule guard_invD(1) [OF ginv])
  have bl: "set (blocks_of K g) \<subseteq> set (live (calls (kheap s)))" using guard_invD(6) [OF ginv gin] by blast
  have "sound_block (p, request_of1 K c)"
    by (rule live_sound [OF ok]) (use bl in \<open>simp add: blocks_of_def single\<close>)
  then have "p \<noteq> 0" by (simp add: sound_block_def)
  then have eq: "do_free1 x p bus s = unguard_block1 p (release_of1 c bus) s"
    by (simp add: x do_free1_eq)
  let ?h = "(kheap s)\<lparr>calls := Gave (release_of1 c bus) p # Gave Kfree a # Gave Kfree buffer # calls (kheap s)\<rparr>"
  have "live (calls ?h) = filter (\<lambda>b. b \<notin> set (blocks_of K g)) (live (calls (kheap s)))"
    using live_without [OF ok bl [unfolded blocks_of_def]] by (simp add: blocks_of_def single)
  with unguard_block1_ok [OF inv single releases_request1 refl] eq show ?thesis
    by (intro exI [of _ ?h]) simp
qed


section \<open>The contract\<close>

definition client_inv1 :: "heap_env \<Rightarrow> ((call \<times> u64) \<times> u64) list \<Rightarrow> guard1 \<Rightarrow> bool" where
  "client_inv1 K held s \<longleftrightarrow> heap_laws K \<and>
     (\<exists>gs. inv1 K gs s \<and> list_all2 (holds1 K) held gs \<and> quiet s)"

text \<open>Every zone lies behind the room of a block held.\<close>

lemma zone_bounds1:
  assumes inv: "inv1 K gs s" and g: "g \<in> set gs" "holds1 K ((c, ra), p) g"
  shows "sound_block (p, request_of1 K c)" and "sane_call1 c"
    and "(p, request_of1 K c) \<in> set (blocks_of K g)"
    and "(q, z) \<in> set (g_nodes g) \<Longrightarrow> z = p + user_bytes1 c" and "g_size g = zone_bytes1 c" and "g_caller g = ra"
proof -
  from g(2) obtain a buffer where
    single: "g = single_of a buffer ra p (request_of1 K c) (zone_bytes1 c) (p + user_bytes1 c)" and c: "sane_call1 c"
    by (rule holds1E)
  show mem: "(p, request_of1 K c) \<in> set (blocks_of K g)" by (simp add: blocks_of_def single)
  have ginv: "guard_inv (unat sizeof_iso_zone1) K gs s" using inv by (simp add: inv1_def)
  show "sound_block (p, request_of1 K c)"
    by (rule live_sound [OF guard_invD(1) [OF ginv] guard_invD(6) [OF ginv g(1) mem]])
  show "sane_call1 c" by (rule c)
  show "(q, z) \<in> set (g_nodes g) \<Longrightarrow> z = p + user_bytes1 c" "g_size g = zone_bytes1 c" "g_caller g = ra"
    by (simp_all add: single)
qed

text \<open>A byte of a block held is in no zone of another.\<close>

lemma other_zone1:
  assumes inv: "inv1 K gs s" and all: "list_all2 (holds1 K) held gs"
    and g: "g \<in> set gs" "holds1 K ((c, ra), p) g" and g': "g' \<in> set gs" "(q, z) \<in> set (g_nodes g')"
    and x: "x \<in> bytes_at z (unat (g_size g'))" "unat p \<le> unat x" "unat x < unat p + extent (request_of1 K c)"
  shows "g = g'"
proof -
  have ginv: "guard_inv (unat sizeof_iso_zone1) K gs s" using inv by (simp add: inv1_def)
  show ?thesis
    by (rule shared_byte [OF ginv g(1) g'(1) zone_bounds1(3) [OF inv g], of "(g_base g', g_req g')" "unat x"])
      (use x shapedD [OF guard_invD(4) [OF ginv g'(1)] g'(2)] in \<open>auto simp: blocks_of_def bytes_at_def\<close>)
qed

lemma unat_offset: "unat p + i < 2 ^ 64 \<Longrightarrow> unat (p + of_nat i :: u64) = unat p + i"
  by (simp add: unat_plus_if' unsigned_of_nat take_bit_nat_eq_self)

lemma store_quiet1:
  assumes inv: "inv1 K gs s" and quiet: "quiet s"
    and "\<And>g q z. g \<in> set gs \<Longrightarrow> (q, z) \<in> set (g_nodes g) \<Longrightarrow> x \<notin> bytes_at z (unat (g_size g))"
  shows "quiet (store x b s)" and "inv1 K gs (store x b s)"
proof -
  have ginv: "guard_inv (unat sizeof_iso_zone1) K gs s" using inv by (simp add: inv1_def)
  have "damaged (kheap (store x b s)) (addr (zones s q)) (iso_size (zones s q)) =
      damaged (kheap s) (addr (zones s q)) (iso_size (zones s q))" if q: "q \<in> set (iso_head s)" for q
  proof -
    from q obtain g z where g: "g \<in> set gs" "(q, z) \<in> set (g_nodes g)"
      by (auto simp: guard_invD(2) [OF ginv] set_nodes_of)
    have d: "addr (zones s q) = z" "iso_size (zones s q) = g_size g"
      using guard_invD(5) [OF ginv g(1)] g(2) by (auto simp: described_def)
    have "bytes (kheap (store x b s)) y = bytes (kheap s) y" if "y \<in> bytes_at z (unat (g_size g))" for y
      using assms(3) [OF g] that by (auto simp: store_def)
    then show ?thesis by (simp add: damaged_def d)
  qed
  then show "quiet (store x b s)" using quiet by (simp add: quiet_def) (simp add: store_def)
  show "inv1 K gs (store x b s)"
    by (rule inv1_frame [OF inv]) (simp_all add: store_def guard_inv_bytes [OF ginv])
qed

lemma client_alloc1:
  assumes "client_inv1 K held s" and "sane_call1 c" and "nameable K ra"
  shows "\<exists>p s'. do_alloc1 K (c, ra) s = Inr (p, s') \<and>
    client_inv1 K (if p = 0 then held else ((c, ra), p) # held) s'"
proof -
  from assms(1) obtain gs where laws: "heap_laws K" and inv: "inv1 K gs s" and all: "list_all2 (holds1 K) held gs"
    and quiet: "quiet s" by (auto simp: client_inv1_def)
  from do_alloc1_ok [OF laws inv assms(2,3)] obtain p s' where
    al: "do_alloc1 K (c, ra) s = Inr (p, s')" and
    or: "p = 0 \<and> inv1 K gs s' \<and> failed_alloc s s' \<or>
      p \<noteq> 0 \<and> (\<exists>g. holds1 K ((c, ra), p) g \<and> inv1 K (g # gs) s' \<and> new_block g s s')" by blast
  from or have "client_inv1 K (if p = 0 then held else ((c, ra), p) # held) s'"
  proof (elim disjE conjE exE)
    assume "p = 0" "inv1 K gs s'" "failed_alloc s s'"
    with laws all quiet_failed [OF quiet] show ?thesis by (auto simp: client_inv1_def)
  next
    fix g assume "p \<noteq> 0" and g: "holds1 K ((c, ra), p) g" "inv1 K (g # gs) s'" "new_block g s s'"
    moreover have "described K s' g" using g(2) by (simp add: inv1_def guard_inv_def)
    ultimately show ?thesis using laws all quiet_new [OF quiet g(3)]
      by (auto simp: client_inv1_def intro!: exI [of _ "g # gs"])
  qed
  with al show ?thesis by blast
qed

lemma client_free1:
  assumes "client_inv1 K held s" and "(x, p) \<in> set held"
  shows "\<exists>s'. do_free1 x p bus s = Inr s' \<and> client_inv1 K (remove1 (x, p) held) s'"
proof -
  from assms(1) obtain gs where laws: "heap_laws K" and inv: "inv1 K gs s" and all: "list_all2 (holds1 K) held gs"
    and quiet: "quiet s" by (auto simp: client_inv1_def)
  from split_held [OF all assms(2)] obtain held1 held2 gs1 g gs2 where
    h: "held = held1 @ (x, p) # held2" "(x, p) \<notin> set held1" and gs: "gs = gs1 @ g # gs2" and
    all': "list_all2 (holds1 K) held1 gs1" "holds1 K (x, p) g" "list_all2 (holds1 K) held2 gs2" by metis
  from do_free1_ok [OF inv [unfolded gs] all'(2), of bus] obtain h' where
    fr: "do_free1 x p bus s = Inr (s\<lparr>iso_head := nodes_of (gs1 @ gs2), kheap := h'\<rparr>)"
    "inv1 K (gs1 @ gs2) (s\<lparr>iso_head := nodes_of (gs1 @ gs2), kheap := h'\<rparr>)" "bytes h' = bytes (kheap s)" by blast
  have "set (nodes_of (gs1 @ gs2)) \<subseteq> set (iso_head s)"
    using inv by (auto simp: gs inv1_def guard_inv_def)
  then have "quiet (s\<lparr>iso_head := nodes_of (gs1 @ gs2), kheap := h'\<rparr>)"
    using quiet fr(3) by (auto simp: quiet_def damaged_def)
  moreover have "list_all2 (holds1 K) (remove1 (x, p) held) (gs1 @ gs2)"
    using h(2) all' by (simp add: h(1) remove1_append list_all2_appendI)
  ultimately have "client_inv1 K (remove1 (x, p) held) (s\<lparr>iso_head := nodes_of (gs1 @ gs2), kheap := h'\<rparr>)"
    using fr(2) laws by (auto simp: client_inv1_def)
  with fr(1) show ?thesis by blast
qed

lemma client_store1:
  assumes "client_inv1 K held s" and "((c, ra), p) \<in> set held" and "i < unat (user_bytes1 c)"
  shows "client_inv1 K held (store (p + of_nat i) b s)"
proof -
  from assms(1) obtain gs where laws: "heap_laws K" and inv: "inv1 K gs s" and all: "list_all2 (holds1 K) held gs"
    and quiet: "quiet s" by (auto simp: client_inv1_def)
  from split_held [OF all assms(2)] obtain gs1 g gs2 where
    g0: "gs = gs1 @ g # gs2" "holds1 K ((c, ra), p) g" by metis
  then have g: "g \<in> set gs" "holds1 K ((c, ra), p) g" by simp_all
  note zb = zone_bounds1 [OF inv g]
  note fits = room_fits1 [OF zb(2,1)]
  have u: "unat (p + of_nat i) = unat p + i"
    using zb(1) fits(3) assms(3) by (intro unat_offset) (simp add: sound_block_def)
  have "p + of_nat i \<notin> bytes_at z (unat (g_size g'))" if g': "g' \<in> set gs" "(q, z) \<in> set (g_nodes g')" for g' q z
  proof
    assume x: "p + of_nat i \<in> bytes_at z (unat (g_size g'))"
    have "g = g'" by (rule other_zone1 [OF inv all g g' x]) (use u fits(3) assms(3) in simp_all)
    then have "z = p + user_bytes1 c" using zb(4) g'(2) by simp
    then show False using x u fits(2) assms(3) by (simp add: bytes_at_def)
  qed
  then have "quiet (store (p + of_nat i) b s)" "inv1 K gs (store (p + of_nat i) b s)"
    by (blast intro: store_quiet1 [OF inv quiet])+
  with laws all show ?thesis by (auto simp: client_inv1_def)
qed

lemma quiet_scan1:
  assumes "inv1 K gs s" and "quiet s"
  shows "check_iso1 s = Inr s"
proof -
  have ginv: "guard_inv (unat sizeof_iso_zone1) K gs s" using assms(1) by (simp add: inv1_def)
  have "scanned (iso_head s) s = s"
    by (rule scanned_id) (use assms(2) in \<open>simp add: quiet_def bad_def\<close>)
  then show ?thesis
    using check_zones_ok [OF inv_list_readable [OF ginv]] nodes_distinct [OF ginv]
      guard_invD(2) [OF ginv] by (simp add: check_iso1_def)
qed

lemma client_scan1: "client_inv1 K held s \<Longrightarrow> check_iso1 s = Inr s"
  using quiet_scan1 by (auto simp: client_inv1_def)

interpretation one: overflow_guard "do_alloc1 K" do_free1 store check_iso1 "\<lambda>(c, ra). unat (user_bytes1 c)"
  "\<lambda>(c, ra). sane_call1 c \<and> nameable K ra" "client_inv1 K" for K
proof unfold_locales
  show "\<exists>p s'. do_alloc1 K c s = Inr (p, s') \<and> client_inv1 K (if p = 0 then held else (c, p) # held) s'"
    if "client_inv1 K held s" "case c of (c, ra) \<Rightarrow> sane_call1 c \<and> nameable K ra" for held s c
  proof -
    obtain c' ra where c: "c = (c', ra)" by (cases c)
    then show ?thesis using client_alloc1 [OF that(1), of c' ra] that(2) by (simp only: prod.case)
  qed
  show "client_inv1 K held (store (p + of_nat i) b s)"
    if "client_inv1 K held s" "(c, p) \<in> set held" "i < (case c of (c, ra) \<Rightarrow> unat (user_bytes1 c))"
    for held s c p i b
    using client_store1 that by (cases c) auto
qed (rule client_free1 client_scan1, assumption+)+

end
