(* ===== verification/Guard_One_Props.thy ===== *)
theory Guard_One_Props
  imports Guard_One_Ops Heap_Demo
begin

text \<open>
  The properties of the overflow checker with one zone,
  mem_overflow_del_firstiso/code/mem_overflow_check.c.
\<close>

definition fresh1 :: guard1 where
  "fresh1 = \<lparr>kheap = \<lparr>calls = [], bytes = \<lambda>_. 0, texts = \<lambda>_. []\<rparr>,
     zones = \<lambda>_. \<lparr>callerinfo = 0, iso_size = 0, addr = 0, flag = False, mem_addr = 0\<rparr>,
     iso_head = [], messages = []\<rparr>"

lemma started_client1:
  assumes "heap_laws K" and "iso_head s = []" and "messages s = []" and "calls (kheap s) = []"
  shows "client_inv1 K [] s"
  using assms by (auto simp: client_inv1_def inv1_def guard_inv_def quiet_def heap_ok_def nodes_of_def)

lemma demo_client1: "client_inv1 demo_env [] fresh1"
  by (rule started_client1 [OF demo_heap_laws]) (simp_all add: fresh1_def)

lemma demo_alloc1: "\<exists>s. do_alloc1 demo_env (Skmalloc 8 0, 1) fresh1 = Inr (4096, s)"
proof -
  let ?h = "(kheap fresh1)\<lparr>calls := [Got (Kmalloc 28 0) 4096]\<rparr>"
  have "fill_zone 4104 20 ?h = Inr (filled1 20 4104 ?h)"
    using fill_zone_ok [of ?h 4104 20] by (simp add: in_live_def filled1_def)
  then show ?thesis
    by (simp add: skmalloc1_def kmalloc_def ask_def demo_ask top_def fresh1_def Let_def guard_block1_def
      sprint_symbol_def in_live_def list_add_def node_live_def demo_env_def sizeof_iso_zone1_def filled1_def)
qed

lemma demo_held1:
  obtains s where "do_alloc1 demo_env (Skmalloc 8 0, 1) fresh1 = Inr (4096, s)"
    "client_inv1 demo_env [((Skmalloc 8 0, 1), 4096)] s"
proof -
  from demo_alloc1 obtain s where s: "do_alloc1 demo_env (Skmalloc 8 0, 1) fresh1 = Inr (4096, s)" by auto
  with client_alloc1 [OF demo_client1, of "Skmalloc 8 0" 1] demo_nameable [of 1]
  have "client_inv1 demo_env [((Skmalloc 8 0, 1), 4096)] s" by auto
  with s that show ?thesis by blast
qed

abbreviation room_of1 :: "call \<times> u64 \<Rightarrow> nat" where
  "room_of1 \<equiv> \<lambda>(c, ra). unat (user_bytes1 c)"

text \<open>C30: With one zone too, a client that stays inside its blocks and releases each once never makes
  the checker fault and is never reported; the list holds one zone for every block held.\<close>

theorem disciplined_client_silent1:
  assumes "heap_laws K" and "iso_head s = []" and "messages s = []" and "calls (kheap s) = []"
    and "\<forall>e\<in>set es. \<forall>(c, ra)\<in>asks e. sane_call1 c \<and> nameable K ra"
  shows "\<exists>held s'. client_run (do_alloc1 K) do_free1 store check_iso1 room_of1 es [] s = Inr (held, s') \<and>
    check_iso1 s' = Inr s' \<and> (\<forall>t. MemoryOverflow t \<notin> set (messages s')) \<and>
    length (iso_head s') = length held"
proof -
  from one.run_ok [OF started_client1 [OF assms(1-4)] assms(5)] obtain held s' where
    run: "client_run (do_alloc1 K) do_free1 store check_iso1 room_of1 es [] s = Inr (held, s')"
    and inv: "client_inv1 K held s'" by blast
  from inv obtain gs where gs: "inv1 K gs s'" "list_all2 (holds1 K) held gs" "quiet s'"
    by (auto simp: client_inv1_def)
  from gs(2) have "length (nodes_of gs) = length held"
    by (induction rule: list_all2_induct) (auto simp: holds1_def)
  with run gs(1,3) client_scan1 [OF inv] show ?thesis by (auto simp: quiet_def inv1_def guard_inv_def)
qed

theorem disciplined_client_silent1_witness:
  "\<exists>held s'. client_run (do_alloc1 demo_env) do_free1 store check_iso1 room_of1
     [Allocate (Svmalloc 100, 1), Scan, Allocate (NgetPages 0 1, 1)] [] fresh1 =
       Inr (held, s') \<and> check_iso1 s' = Inr s'"
  using disciplined_client_silent1 [OF demo_heap_laws, of fresh1
      "[Allocate (Svmalloc 100, 1), Scan, Allocate (NgetPages 0 1, 1)]"]
  by (auto simp: fresh1_def demo_nameable)

text \<open>Detection behind the block: overwriting a byte of the zone makes the next scan report exactly
  one overflow, with the name of the allocating caller, and no later scan reports it again.\<close>

theorem overflow_detected1:
  assumes "heap_laws K" and "iso_head s0 = []" and "messages s0 = []" and "calls (kheap s0) = []"
    and "\<forall>e\<in>set es. \<forall>(c, ra)\<in>asks e. sane_call1 c \<and> nameable K ra"
    and "client_run (do_alloc1 K) do_free1 store check_iso1 room_of1 es [] s0 = Inr (held, s)"
    and "((c, ra), p) \<in> set held" and "i < unat (zone_bytes1 c)" and "b \<noteq> guard_byte"
  shows "\<exists>s'. check_iso1 (store (p + user_bytes1 c + of_nat i) b s) = Inr s' \<and>
    messages s' = messages s @ [MemoryOverflow (symbol_of K ra)] \<and> check_iso1 s' = Inr s'"
proof -
  let ?x = "p + user_bytes1 c + of_nat i"
  have "client_inv1 K held s" by (rule one.run_inv [OF started_client1 [OF assms(1-4)] assms(5,6)])
  then obtain gs where inv: "inv1 K gs s" and all: "list_all2 (holds1 K) held gs" and quiet: "quiet s"
    by (auto simp: client_inv1_def)
  have ginv: "guard_inv (unat sizeof_iso_zone1) K gs s" using inv by (simp add: inv1_def)
  from split_held [OF all assms(7)] obtain gs1 g gs2 where
    g0: "gs = gs1 @ g # gs2" "holds1 K ((c, ra), p) g" by metis
  then have g: "g \<in> set gs" "holds1 K ((c, ra), p) g" by simp_all
  from g(2) obtain a buffer where
    single: "g = single_of a buffer ra p (request_of1 K c) (zone_bytes1 c) (p + user_bytes1 c)" by (rule holds1E)
  note zb = zone_bounds1 [OF inv g]
  note fits = room_fits1 [OF zb(2,1)]
  have u: "unat ?x = unat p + unat (user_bytes1 c) + i"
    using zb(1) fits(2,3) assms(8) by (subst unat_offset) (simp_all add: sound_block_def)
  have node: "(a, p + user_bytes1 c) \<in> set (g_nodes g)" by (simp add: single)
  have x: "?x \<in> bytes_at (p + user_bytes1 c) (unat (g_size g))"
    using u fits(2) assms(8) by (simp add: bytes_at_def single)
  have "q' = a" if g': "g' \<in> set gs" "(q', z') \<in> set (g_nodes g')" "?x \<in> bytes_at z' (unat (g_size g'))" for g' q' z'
  proof -
    have "g = g'" by (rule other_zone1 [OF inv all g g']) (use u fits(3) assms(8) in simp_all)
    then show ?thesis using g'(2) by (auto simp: single)
  qed
  then have "filter (bad (store ?x b s)) (iso_head s) = [a]"
    by (intro one_bad [OF ginv quiet g(1) node x assms(9)]) blast
  from scan_one_bad [OF ginv g(1) node this] obtain s' where
    "check_zones (unat sizeof_iso_zone1) (iso_head s) (store ?x b s) = Inr s'"
    "messages s' = messages s @ [MemoryOverflow (symbol_of K (g_caller g))]"
    "iso_head s' = iso_head s" "check_zones (unat sizeof_iso_zone1) (iso_head s) s' = Inr s'" by blast
  then show ?thesis using zb(6) by (intro exI [of _ s']) (auto simp: check_iso1_def store_def)
qed

theorem overflow_detected1_witness:
  "\<exists>s s'. skmalloc1 demo_env 1 8 0 fresh1 = Inr (4096, s) \<and> check_iso1 (store 4104 0 s) = Inr s' \<and>
     messages s' = messages s @ [MemoryOverflow ''main'']"
proof -
  from demo_held1 obtain s where s: "do_alloc1 demo_env (Skmalloc 8 0, 1) fresh1 = Inr (4096, s)" by blast
  let ?es = "[Allocate (Skmalloc 8 0, 1)] :: (call \<times> u64) client_event list"
  have "client_run (do_alloc1 demo_env) do_free1 store check_iso1 room_of1 ?es [] fresh1 =
      Inr ([((Skmalloc 8 0, 1), 4096)], s)" using s by simp
  from overflow_detected1 [OF demo_heap_laws _ _ _ _ this, of "Skmalloc 8 0" 1 4096 0 0]
  have "\<exists>s'. check_iso1 (store 4104 0 s) = Inr s' \<and> messages s' = messages s @ [MemoryOverflow ''main'']"
    by (simp add: fresh1_def demo_nameable guard_byte_def) (auto simp: demo_env_def)
  with s show ?thesis by auto
qed



text \<open>Releasing a block undoes its allocation without a leak, for DMA too: the list is as before
  and exactly the blocks that were out before are out.\<close>

theorem alloc_free_roundtrip1:
  assumes "client_inv1 K held s" and "sane_call1 c" and "nameable K ra"
    and "do_alloc1 K (c, ra) s = Inr (p, s1)" and "p \<noteq> 0"
  shows "\<exists>s2. do_free1 (c, ra) p bus s1 = Inr s2 \<and> iso_head s2 = iso_head s \<and>
    live (calls (kheap s2)) = live (calls (kheap s))"
proof -
  from assms(1) obtain gs where laws: "heap_laws K" and inv: "inv1 K gs s" and quiet: "quiet s"
    by (auto simp: client_inv1_def)
  from do_alloc1_ok [OF laws inv assms(2,3)] assms(4,5) obtain g where
    g: "holds1 K ((c, ra), p) g" "inv1 K (g # gs) s1"
    "live (calls (kheap s1)) = blocks_of K g @ live (calls (kheap s))" by auto
  from do_free1_ok [of K "[]", simplified, OF g(2,1), of bus] obtain h where
    fr: "do_free1 (c, ra) p bus s1 = Inr (s1\<lparr>iso_head := nodes_of gs, kheap := h\<rparr>)"
    "live (calls h) = filter (\<lambda>b. b \<notin> set (blocks_of K g)) (live (calls (kheap s1)))" by blast
  have "heap_ok (kheap s1)" using g(2) by (simp add: inv1_def guard_inv_def)
  from live_distinct [OF this] have "live (calls h) = live (calls (kheap s))"
    unfolding fr(2) g(3) by (rule filter_prefix)
  moreover have "iso_head s = nodes_of gs" using inv by (simp add: inv1_def guard_inv_def)
  ultimately show ?thesis using fr(1) by simp
qed

theorem alloc_free_roundtrip1_witness:
  "\<exists>s1 s2. skmalloc1 demo_env 1 8 0 fresh1 = Inr (4096, s1) \<and> skfree1 4096 s1 = Inr s2 \<and>
     iso_head s2 = [] \<and> live (calls (kheap s2)) = []"
proof -
  from demo_held1 obtain s where s: "do_alloc1 demo_env (Skmalloc 8 0, 1) fresh1 = Inr (4096, s)" by blast
  from alloc_free_roundtrip1 [OF demo_client1 _ _ s] s show ?thesis
    by (auto simp: demo_nameable fresh1_def)
qed

end
