(* ===== verification/Memcheck_Props.thy ===== *)
theory Memcheck_Props
  imports Guard_Overrun Guard_One_Props Guard_Two_Props
begin

text \<open>
  The test modules of the overflow checkers, mem_overflow/test/memcheck.c and the one for the checker
  with one zone: each checker interprets the contract of theory Guard_Overrun, and reports the tests.
\<close>

section \<open>The loops of the tests\<close>

lemma unat_step: "unat p + i < 2 ^ 64 \<Longrightarrow> unat (p + of_nat i :: u64) = unat p + i"
  by (simp add: unat_plus_if' unsigned_of_nat take_bit_nat_eq_self)

lemma char_loop_overruns:
  assumes "user < n" and "n \<le> user + zone"
  shows "overruns user zone (char_loop n)"
  unfolding overruns_def
proof (intro allI impI conjI)
  fix p :: u64 assume p: "unat p + user + zone < 2 ^ 64"
  have at: "unat (p + of_nat i) = unat p + i" if "i < n" for i using that p assms(2) by (intro unat_step) simp
  show "\<forall>(x, b)\<in>set (char_loop n p). unat p \<le> unat x \<and> unat x < unat p + user + zone \<and> b \<noteq> guard_byte"
    using at assms(2) by (auto simp: char_loop_def guard_byte_def)
  show "\<exists>(x, b)\<in>set (char_loop n p). unat p + user \<le> unat x"
    using at [OF assms(1)] assms(1) by (auto simp: char_loop_def intro!: bexI [of _ user])
qed

lemma int_bytes_small: "i < 11 \<Longrightarrow> k < 4 \<Longrightarrow> (ucast (drop_bit (8 * k) (of_nat i :: u32)) :: u8) \<noteq> guard_byte"
proof -
  have "\<forall>i\<in>set [0..<11]. \<forall>k\<in>set [0..<4]. (ucast (drop_bit (8 * k) (of_nat i :: u32)) :: u8) \<noteq> guard_byte"
    by code_simp
  then show "i < 11 \<Longrightarrow> k < 4 \<Longrightarrow> ?thesis" by simp
qed

lemma int_loop_overruns:
  assumes "4 \<le> zone"
  shows "overruns 40 zone (int_loop 11)"
  unfolding overruns_def
proof (intro allI impI conjI)
  fix p :: u64 assume p: "unat p + 40 + zone < 2 ^ 64"
  have at: "unat (p + of_nat (4 * i + k)) = unat p + (4 * i + k)" if "i < 11" "k < 4" for i k
    by (rule unat_step) (use that p assms in simp)
  show "\<forall>(x, b)\<in>set (int_loop 11 p). unat p \<le> unat x \<and> unat x < unat p + 40 + zone \<and> b \<noteq> guard_byte"
  proof clarify
    fix x b assume "(x, b) \<in> set (int_loop 11 p)"
    then obtain i k where ik: "i < 11" "k < 4" "x = p + of_nat (4 * i + k)"
      "b = ucast (drop_bit (8 * k) (of_nat i :: u32))" by (auto simp: int_loop_def int_cell_def)
    with at [OF ik(1,2)] int_bytes_small [OF ik(1,2)] assms
    show "unat p \<le> unat x \<and> unat x < unat p + 40 + zone \<and> b \<noteq> guard_byte" by simp
  qed
  have "(p + of_nat (4 * 10 + 0), 10) \<in> set (int_loop 11 p)"
    unfolding int_loop_def int_cell_def by (auto intro!: bexI [of _ 10] image_eqI [of _ _ 0])
  then show "\<exists>(x, b)\<in>set (int_loop 11 p). unat p + 40 \<le> unat x"
    using at [of 10 0] by (intro bexI [of _ "(p + of_nat (4 * 10 + 0), 10)"]) simp_all
qed

section \<open>The checkers under test\<close>


text \<open>With one zone the room must not be empty for the zone to lie behind its start.\<close>

interpretation test1: tested_checker "unat sizeof_iso_zone1" K "do_alloc1 K" "\<lambda>c p. do_free1 c p 0" check_iso1
  "\<lambda>(c, ra). sane_call1 c \<and> nameable K ra \<and> 0 < unat (user_bytes1 c)" "\<lambda>c. unat (user_bytes1 c)"
  "\<lambda>c. unat (zone_bytes1 c)" "\<lambda>gs s. heap_laws K \<and> inv1 K gs s"
  "\<lambda>x g. holds1 K x g \<and> 0 < unat (user_bytes1 (fst (fst x)))" for K
proof unfold_locales
  fix gs :: "guarded list" and s ps ws gs1 gs2 g c p
  show "guard_inv (unat sizeof_iso_zone1) K gs s" if "heap_laws K \<and> inv1 K gs s" using that by (simp add: inv1_def)
  show "heap_laws K \<and> inv1 K gs (stores ws s)" if "heap_laws K \<and> inv1 K gs s"
    using that stores_inv by (auto simp: inv1_def)
  have mem: "mem_addr (zones (scanned ps s) q) = mem_addr (zones s q)" for q by (simp add: scanned_def)
  show "heap_laws K \<and> inv1 K gs (scanned ps s)" if "heap_laws K \<and> inv1 K gs s"
    using that guard_inv_scanned by (auto simp: inv1_def mem)
  show "check_iso1 s = check_zones (unat sizeof_iso_zone1) (iso_head s) s" by (simp add: check_iso1_def)
  show "\<exists>p s'. do_alloc1 K c s = Inr (p, s') \<and>
      (p = 0 \<and> (heap_laws K \<and> inv1 K gs s') \<and> failed_alloc s s' \<or>
       p \<noteq> 0 \<and> (\<exists>g. (holds1 K (c, p) g \<and> 0 < unat (user_bytes1 (fst (fst (c, p))))) \<and>
         (heap_laws K \<and> inv1 K (g # gs) s') \<and> new_block g s s' \<and>
         live (calls (kheap s')) = blocks_of K g @ live (calls (kheap s))))"
    if "heap_laws K \<and> inv1 K gs s" "case c of (c, ra) \<Rightarrow> sane_call1 c \<and> nameable K ra \<and> 0 < unat (user_bytes1 c)"
  proof -
    obtain c' ra where c: "c = (c', ra)" by (cases c)
    with do_alloc1_ok [of K gs s c' ra] that show ?thesis by (fastforce simp del: do_alloc1.simps)
  qed
  show "\<exists>h. do_free1 c p 0 s = Inr (s\<lparr>iso_head := nodes_of (gs1 @ gs2), kheap := h\<rparr>) \<and>
      (heap_laws K \<and> inv1 K (gs1 @ gs2) (s\<lparr>iso_head := nodes_of (gs1 @ gs2), kheap := h\<rparr>)) \<and>
      live (calls h) = filter (\<lambda>b. b \<notin> set (blocks_of K g)) (live (calls (kheap s)))"
    if "heap_laws K \<and> inv1 K (gs1 @ g # gs2) s" "holds1 K (c, p) g \<and> 0 < unat (user_bytes1 (fst (fst (c, p))))"
    using do_free1_ok [of K gs1 g gs2 s c p 0] that by blast
  show "p \<noteq> 0 \<and> g_caller g = snd c \<and> roomy p (unat (user_bytes1 (fst c))) (unat (zone_bytes1 (fst c))) g"
    if "heap_laws K \<and> inv1 K gs s" "g \<in> set gs" "holds1 K (c, p) g \<and> 0 < unat (user_bytes1 (fst (fst (c, p))))"
  proof -
    obtain c' ra where c: "c = (c', ra)" by (cases c)
    from that(3) have h: "holds1 K ((c', ra), p) g" "0 < unat (user_bytes1 c')" by (simp_all add: c)
    from h(1) obtain a buffer where
      single: "g = single_of a buffer ra p (request_of1 K c') (zone_bytes1 c') (p + user_bytes1 c')" and sane: "sane_call1 c'"
      by (rule holds1E)
    have inv: "inv1 K gs s" using that(1) by simp
    have sb: "sound_block (p, request_of1 K c')" by (rule zone_bounds1(1) [OF inv that(2) h(1)])
    note fits = room_fits1 [OF sane sb]
    have "p + user_bytes1 c' \<noteq> p" using h(2) by auto
    moreover have "p \<noteq> 0" using sb by (simp add: sound_block_def)
    ultimately show ?thesis using fits(2,3) by (auto simp: roomy_def c) (auto simp: single)
  qed
qed

section \<open>The tests are reported\<close>

text \<open>The calls of the tests.\<close>

definition test_calls :: "heap_env \<Rightarrow> (nat \<Rightarrow> u64) \<Rightarrow> nat \<Rightarrow> call \<times> u64" where
  "test_calls K ra i =
     ([Skmalloc 40 (GFP_KERNEL K), Svmalloc 40, GetPagesEx (GFP_KERNEL K) 3000, SgetPages (GFP_KERNEL K) 2,
       NgetPages (GFP_KERNEL K) 2, SgetPage (GFP_KERNEL K), SgetDmaPages (GFP_KERNEL K) 2] ! (i - 1), ra i)"

definition test_loops :: "nat \<Rightarrow> (nat \<times> (u64 \<Rightarrow> (u64 \<times> u8) list)) list" where
  "test_loops k = [(1, int_loop 11), (2, int_loop 11), (3, char_loop (3000 + 3)),
     (4, char_loop (2 ^ 2 * 4096 + 10)), (5, char_loop k), (6, char_loop (4096 + 5)), (7, char_loop (2 ^ 2 * 4096 + 5))]"

lemma bind_result_return: "bind_result x Inr = x"
  by (cases x) simp_all



lemma check_init1_tries:
  "check_init1 K ra m = tested_checker.tries (do_alloc1 K) (test_calls K ra) (test_loops (2 ^ 2 * 4096)) m"
  by (simp add: check_init1_def test_loops_def test_calls_def do_alloc1.simps [abs_def] test1.tries.simps [abs_def]
      bind_result_return del: do_alloc1.simps)

lemma check_exit1_drops:
  "check_exit1 m = tested_checker.drops (\<lambda>c p. do_free1 c p 0) (test_calls K ra) [1, 2, 3, 4, 5, 6, 7] m"
  by (simp add: check_exit1_def test_calls_def do_free1.simps [abs_def] test1.drops.simps [abs_def]
      bind_result_return del: do_free1.simps)

lemma page_bytes_values: "unat (page_bytes 2) = 16384" "unat (page_bytes 2 div 2) = 8192"
  "unat (page_bytes 0) = 4096" "unat (page_bytes 0 div 2) = 2048" "unat (page_bytes 2 - 40) = 16344"
  "unat (page_bytes 2 - 20) = 16364" "unat (ucast (page_bytes 2) :: u32) = 16384"
  "unat (ucast (page_bytes 0) :: u32) = 4096"
  by (simp_all add: page_bytes_def PAGE_SIZE_def push_bit_eq_mult)

lemma test_indices: "map fst (test_loops k) = [1, 2, 3, 4, 5, 6, 7]" "fst ` set (test_loops k) = {1..7}"
  by (auto simp: test_loops_def)

lemmas test_defs = test_loops_def test_calls_def page_bytes_values int_loop_overruns char_loop_overruns is_dma_def



text \<open>The same for the test of the checker with one zone, which writes twenty bytes more to the
  fifth block.\<close>

theorem memcheck_reported1:
  assumes "heap_laws K" and "iso_head (checker m) = []" and "calls (kheap (checker m)) = []"
    and "\<forall>i\<in>{1..7}. nameable K (ra i)"
  shows "\<exists>m' s m''. check_init1 K ra m = Inr m' \<and> check_iso1 (checker m') = Inr s \<and>
    messages s = messages (checker m') @ map (\<lambda>i. MemoryOverflow (symbol_of K (ra i)))
      (filter (\<lambda>i. ptr m' i \<noteq> 0) [7, 6, 5, 4, 3, 2, 1]) \<and>
    check_exit1 (m'\<lparr>checker := s\<rparr>) = Inr m'' \<and> iso_head (checker m'') = [] \<and>
    ((\<forall>i\<in>{1..7}. ptr m' i \<noteq> 0) \<longrightarrow> live (calls (kheap (checker m''))) = [])"
proof -
  let ?xs = "test_loops (2 ^ 2 * 4096)"
  have inv: "heap_laws K \<and> inv1 K [] (checker m)"
    using assms(1-3) by (simp add: inv1_def guard_inv_def heap_ok_def)
  have ok: "\<forall>(i, w)\<in>set ?xs. (case test_calls K ra i of (c, ra) \<Rightarrow> sane_call1 c \<and> nameable K ra \<and> 0 < unat (user_bytes1 c)) \<and>
      overruns (unat (user_bytes1 (fst (test_calls K ra i)))) (unat (zone_bytes1 (fst (test_calls K ra i)))) w"
    using assms(4) by (simp add: test_defs)
  have "live (calls (kheap (checker m))) = []" "distinct (map fst ?xs)" using assms(3) by (simp_all add: test_indices)
  from test1.test_ok [OF inv this ok] obtain m' s m'' where
    "check_init1 K ra m = Inr m'" "check_iso1 (checker m') = Inr s"
    "messages s = messages (checker m') @ map (\<lambda>i. MemoryOverflow (symbol_of K (snd (test_calls K ra i))))
      (filter (\<lambda>i. ptr m' i \<noteq> 0) [7, 6, 5, 4, 3, 2, 1])"
    "check_exit1 (m'\<lparr>checker := s\<rparr>) = Inr m''" "iso_head (checker m'') = []"
    "(\<forall>i\<in>{1..7}. ptr m' i \<noteq> 0) \<longrightarrow> live (calls (kheap (checker m''))) = []"
    unfolding check_init1_tries check_exit1_drops [of _ K ra] test_indices by auto
  moreover have "snd (test_calls K ra i) = ra i" for i by (simp add: test_calls_def)
  ultimately show ?thesis by (intro exI conjI) (assumption | simp)+
qed

theorem memcheck_reported1_witness:
  "\<exists>m s m''. check_init1 demo_env (\<lambda>_. 1) \<lparr>ptr = (\<lambda>_. 0), checker = fresh1\<rparr> = Inr m \<and>
     check_iso1 (checker m) = Inr s \<and> check_exit1 (m\<lparr>checker := s\<rparr>) = Inr m'' \<and> iso_head (checker m'') = []"
  using memcheck_reported1 [OF demo_heap_laws, of "\<lparr>ptr = (\<lambda>_. 0), checker = fresh1\<rparr>" "\<lambda>_. 1"]
  by (auto simp: fresh1_def demo_nameable)

end
