(* ===== verification/User_Walk.thy ===== *)
theory User_Walk
  imports Prelude
begin

text \<open>
  The walk over user page tables that prints every virtual address of a physical page,
  mem_leak/userspace/huawei_user_space_mem.c, and the forward translation of its test,
  huawei_user_space_mem_test.c. The accessors and constants of asm/pgtable.h are the parameter
  \<open>arch\<close>; \<open>mem\<close> is the memory the tables lie in, eight bytes per entry.
\<close>

section \<open>Parameters and state\<close>

record arch =
  PAGE_SHIFT :: nat
  PMD_SHIFT :: nat
  PUD_SHIFT :: nat
  PGDIR_SHIFT :: nat
  PTRS_PER_PTE :: nat
  PTRS_PER_PMD :: nat
  PTRS_PER_PUD :: nat
  PTRS_PER_PGD :: nat
  PTE_PFN_MASK :: u64
  pgd_present :: "u64 \<Rightarrow> bool"
  pud_present :: "u64 \<Rightarrow> bool"
  pmd_present :: "u64 \<Rightarrow> bool"
  pte_present :: "u64 \<Rightarrow> bool"
  pud_large :: "u64 \<Rightarrow> bool"
  pmd_large :: "u64 \<Rightarrow> bool"
  pte_pfn :: "u64 \<Rightarrow> u64"
  pgd_page_vaddr :: "u64 \<Rightarrow> u64"
  pud_page_vaddr :: "u64 \<Rightarrow> u64"
  pmd_page_vaddr :: "u64 \<Rightarrow> u64"

type_synonym table_mem = "u64 \<Rightarrow> u64"

datatype page_kind = K4 | M2 | G1

text \<open>The printed line, without the task: the kind of page and the virtual address.\<close>

type_synonym vline = "page_kind \<times> u64"

definition entry_at :: "table_mem \<Rightarrow> u64 \<Rightarrow> nat \<Rightarrow> u64" where
  "entry_at mem base i = mem (base + 8 * of_nat i)"

section \<open>The walk\<close>

definition handle_4_k_page :: "arch \<Rightarrow> u64 \<Rightarrow> u64 \<Rightarrow> nat \<Rightarrow> nat \<Rightarrow> nat \<Rightarrow> nat \<Rightarrow> vline list" where
  "handle_4_k_page A pte paddr pgd_offset pud_offset pmd_offset pte_offset =
     (if pte_pfn A pte = drop_bit (PAGE_SHIFT A) paddr
      then [(K4, push_bit (PGDIR_SHIFT A) (of_nat pgd_offset)
               + push_bit (PUD_SHIFT A) (of_nat pud_offset)
               + push_bit (PMD_SHIFT A) (of_nat pmd_offset)
               + push_bit (PAGE_SHIFT A) (of_nat pte_offset))]
      else [])"

definition walk_pte :: "arch \<Rightarrow> table_mem \<Rightarrow> u64 \<Rightarrow> u64 \<Rightarrow> nat \<Rightarrow> nat \<Rightarrow> nat \<Rightarrow> vline list" where
  "walk_pte A mem base paddr pgd_offset pud_offset pmd_offset =
     concat (map (\<lambda>pte_i.
       let pte = entry_at mem base pte_i in
       if \<not> pte_present A pte then []
       else handle_4_k_page A pte paddr pgd_offset pud_offset pmd_offset pte_i)
     [0..<PTRS_PER_PTE A])"

definition pmd_is_2_m_page :: "arch \<Rightarrow> u64 \<Rightarrow> bool" where
  "pmd_is_2_m_page A pte = pmd_large A pte"

definition handle_2_m_page :: "arch \<Rightarrow> u64 \<Rightarrow> u64 \<Rightarrow> nat \<Rightarrow> nat \<Rightarrow> nat \<Rightarrow> vline list" where
  "handle_2_m_page A pmd paddr pgd_offset pud_offset pmd_offset =
     (if drop_bit (12 + 9) (and pmd (PTE_PFN_MASK A)) = drop_bit (12 + 9) paddr
      then [(M2, push_bit (PGDIR_SHIFT A) (of_nat pgd_offset)
               + push_bit (PUD_SHIFT A) (of_nat pud_offset)
               + push_bit (PMD_SHIFT A) (of_nat pmd_offset))]
      else [])"

definition walk_pmd :: "arch \<Rightarrow> table_mem \<Rightarrow> u64 \<Rightarrow> u64 \<Rightarrow> nat \<Rightarrow> nat \<Rightarrow> vline list" where
  "walk_pmd A mem base paddr pgd_offset pud_offset =
     concat (map (\<lambda>pmd_i.
       let pmd = entry_at mem base pmd_i in
       if \<not> pmd_present A pmd then []
       else if pmd_is_2_m_page A pmd then handle_2_m_page A pmd paddr pgd_offset pud_offset pmd_i
       else walk_pte A mem (pmd_page_vaddr A pmd) paddr pgd_offset pud_offset pmd_i)
     [0..<PTRS_PER_PMD A])"

definition pud_is_1_g_page :: "arch \<Rightarrow> u64 \<Rightarrow> bool" where
  "pud_is_1_g_page A pte = pud_large A pte"

definition handle_1_g_page :: "arch \<Rightarrow> u64 \<Rightarrow> u64 \<Rightarrow> nat \<Rightarrow> nat \<Rightarrow> vline list" where
  "handle_1_g_page A pud paddr pgd_offset pud_offset =
     (if drop_bit (12 + 9 + 9) (and pud (PTE_PFN_MASK A)) = drop_bit (12 + 9 + 9) paddr
      then [(G1, push_bit (PGDIR_SHIFT A) (of_nat pgd_offset)
               + push_bit (PUD_SHIFT A) (of_nat pud_offset))]
      else [])"

definition walk_pud :: "arch \<Rightarrow> table_mem \<Rightarrow> u64 \<Rightarrow> u64 \<Rightarrow> nat \<Rightarrow> vline list" where
  "walk_pud A mem base paddr pgd_offset =
     concat (map (\<lambda>pud_i.
       let pud = entry_at mem base pud_i in
       if \<not> pud_present A pud then []
       else if pud_is_1_g_page A pud then handle_1_g_page A pud paddr pgd_offset pud_i
       else walk_pmd A mem (pud_page_vaddr A pud) paddr pgd_offset pud_i)
     [0..<PTRS_PER_PUD A])"

definition walk_pgd :: "arch \<Rightarrow> table_mem \<Rightarrow> u64 \<Rightarrow> u64 \<Rightarrow> vline list" where
  "walk_pgd A mem base paddr =
     concat (map (\<lambda>pgd_i.
       let pgd = entry_at mem base pgd_i in
       if \<not> pgd_present A pgd then []
       else walk_pud A mem (pgd_page_vaddr A pgd) paddr pgd_i)
     [0..<PTRS_PER_PGD A div 2])"

section \<open>Tasks\<close>

text \<open>
  A task is its process id, its name and its address space, \<open>None\<close> for a kernel thread, and
  \<open>next_task\<close> its link in the ring of all tasks. \<open>users\<close> is \<open>mm_users\<close> of each address space,
  \<open>pgd_of\<close> its top table; \<open>now_task\<close> is the variable of that name, null between two walks.
\<close>

record task =
  pid :: int
  comm :: string
  task_mm :: "u64 option"
  next_task :: u64

record address_spaces =
  pgd_of :: "u64 \<Rightarrow> u64"
  users :: "u64 \<Rightarrow> int"
  now_task :: u64

type_synonym task_line = "u64 \<times> int \<times> string \<times> vline"

definition walk_mm_struct :: "arch \<Rightarrow> table_mem \<Rightarrow> address_spaces \<Rightarrow> u64 \<Rightarrow> u64 \<Rightarrow> vline list" where
  "walk_mm_struct A mem S mm paddr = walk_pgd A mem (pgd_of S mm) paddr"

text \<open>One round of the loop: what it prints and the state after it.\<close>

definition print_task ::
  "arch \<Rightarrow> table_mem \<Rightarrow> (u64 \<Rightarrow> task) \<Rightarrow> u64 \<Rightarrow> u64 \<Rightarrow> address_spaces \<Rightarrow> task_line list \<times> address_spaces"
where
  "print_task A mem T paddr p S =
     (case task_mm (T p) of
        None \<Rightarrow> ([], S)
      | Some mm \<Rightarrow>
          let S = S\<lparr>users := (users S)(mm := users S mm + 1)\<rparr>;
              S = S\<lparr>now_task := p\<rparr>;
              out = map (\<lambda>v. (paddr, pid (T (now_task S)), comm (T (now_task S)), v))
                      (walk_mm_struct A mem S mm paddr);
              S = S\<lparr>now_task := 0\<rparr>
          in (out, S\<lparr>users := (users S)(mm := users S mm - 1)\<rparr>))"

text \<open>
  \<open>list_for_each_safe\<close> goes from the task after \<open>current\<close> round the ring and stops at the node
  it was given, \<open>current\<close> itself; where the links do not lead back it never returns.
\<close>

partial_function (option) print_tasks ::
  "arch \<Rightarrow> table_mem \<Rightarrow> (u64 \<Rightarrow> task) \<Rightarrow> u64 \<Rightarrow> u64 \<Rightarrow> u64 \<Rightarrow> task_line list \<Rightarrow> address_spaces \<Rightarrow>
     (task_line list \<times> address_spaces) option"
where
  "print_tasks A mem T current paddr p out S =
     (if p = current then Some (out, S)
      else let n = next_task (T p);
               (more, S) = print_task A mem T paddr p S
           in print_tasks A mem T current paddr n (out @ more) S)"

definition print_vaddr_of_paddr ::
  "arch \<Rightarrow> table_mem \<Rightarrow> (u64 \<Rightarrow> task) \<Rightarrow> u64 \<Rightarrow> u64 \<Rightarrow> address_spaces \<Rightarrow> (task_line list \<times> address_spaces) option"
where
  "print_vaddr_of_paddr A mem T current paddr S =
     print_tasks A mem T current paddr (next_task (T current)) [] S"

section \<open>The forward translation of the test\<close>

text \<open>
  \<open>pgd_offset\<close> and the others of asm/pgtable.h give the address of an entry; \<open>find_vma\<close> is the
  area that ends behind the address, if there is one, and whether \<open>is_vm_hugetlb_page\<close> holds of it.
\<close>

record offsets =
  find_vma :: "u64 \<Rightarrow> u64 \<Rightarrow> bool option"
  pgd_offset :: "u64 \<Rightarrow> u64 \<Rightarrow> u64"
  pud_offset :: "u64 \<Rightarrow> u64 \<Rightarrow> u64"
  pmd_offset :: "u64 \<Rightarrow> u64 \<Rightarrow> u64"
  pte_offset_kernel :: "u64 \<Rightarrow> u64 \<Rightarrow> u64"

definition get_paddr :: "arch \<Rightarrow> table_mem \<Rightarrow> offsets \<Rightarrow> (u64 \<Rightarrow> u64) \<Rightarrow> task \<Rightarrow> u64 \<Rightarrow> u64 result" where
  "get_paddr A mem F pgds p vaddr =
     (case task_mm p of
        None \<Rightarrow> Inl NullDeref
      | Some mm \<Rightarrow>
          (case find_vma F mm vaddr of
             None \<Rightarrow> Inl NullDeref
           | Some True \<Rightarrow> Inr 0
           | Some False \<Rightarrow>
               let pgd = pgd_offset F (pgds mm) vaddr;
                   pud = pud_offset F (mem pgd) vaddr;
                   pmd = pmd_offset F (mem pud) vaddr;
                   pte = pte_offset_kernel F (mem pmd) vaddr
               in Inr (push_bit (PAGE_SHIFT A) (pte_pfn A (mem pte)))))"

partial_function (option) find_task ::
  "(u64 \<Rightarrow> task) \<Rightarrow> u64 \<Rightarrow> int \<Rightarrow> u64 \<Rightarrow> u64 option option"
where
  "find_task T current n p =
     (if p = current then Some None
      else if pid (T p) = n then Some (Some p)
      else find_task T current n (next_task (T p)))"

definition vaddr_to_paddr ::
  "arch \<Rightarrow> table_mem \<Rightarrow> offsets \<Rightarrow> (u64 \<Rightarrow> u64) \<Rightarrow> (u64 \<Rightarrow> task) \<Rightarrow> u64 \<Rightarrow> int \<Rightarrow> u64 \<Rightarrow> u64 result option"
where
  "vaddr_to_paddr A mem F pgds T current n vaddr =
     map_option (\<lambda>found. case found of
         None \<Rightarrow> Inr 0
       | Some p \<Rightarrow> get_paddr A mem F pgds (T p) vaddr)
     (find_task T current n (next_task (T current)))"

text \<open>
  Loading the test: \<open>Inr 1\<close> when there is no physical address, otherwise the lines are printed
  and the answer is 0.
\<close>

abbreviation (input) PID :: int where "PID \<equiv> 1587"
abbreviation (input) LIBC_ADDR :: u64 where "LIBC_ADDR \<equiv> 0x7fe2e3bf5000"

definition huawei_user_space_mem_test_init ::
  "arch \<Rightarrow> table_mem \<Rightarrow> offsets \<Rightarrow> (u64 \<Rightarrow> task) \<Rightarrow> u64 \<Rightarrow> address_spaces \<Rightarrow>
     (int \<times> task_line list \<times> address_spaces) result option"
where
  "huawei_user_space_mem_test_init A mem F T current S =
     Option.bind (vaddr_to_paddr A mem F (pgd_of S) T current PID LIBC_ADDR) (\<lambda>r.
       case r of
         Inl e \<Rightarrow> Some (Inl e)
       | Inr paddr \<Rightarrow>
           if paddr = 0 then Some (Inr (1, [], S))
           else Option.bind (print_vaddr_of_paddr A mem T current paddr S) (\<lambda>(out, S).
             Some (Inr (0, out, S))))"

end
