(* ===== verification/User_Walk_Props.thy ===== *)
theory User_Walk_Props
  imports User_Walk
begin

text \<open>
  The walk prints exactly the virtual addresses that map to the physical page, once each; the
  tasks it visits; and the round trip with the forward translation.
\<close>

section \<open>Addresses and indices\<close>

text \<open>The documented constants of x86-64 with four levels of tables.\<close>

definition x86_64 :: "arch \<Rightarrow> bool" where
  "x86_64 A \<longleftrightarrow> PAGE_SHIFT A = 12 \<and> PMD_SHIFT A = 21 \<and> PUD_SHIFT A = 30 \<and> PGDIR_SHIFT A = 39 \<and>
     PTRS_PER_PTE A = 512 \<and> PTRS_PER_PMD A = 512 \<and> PTRS_PER_PUD A = 512 \<and> PTRS_PER_PGD A = 512"

definition idx :: "nat \<Rightarrow> u64 \<Rightarrow> nat" where
  "idx s v = unat v div 2 ^ s mod 512"

definition va :: "nat \<Rightarrow> nat \<Rightarrow> nat \<Rightarrow> nat \<Rightarrow> u64" where
  "va i j k l = push_bit 39 (of_nat i) + push_bit 30 (of_nat j) + push_bit 21 (of_nat k) + push_bit 12 (of_nat l)"

lemma unat_va:
  assumes "i < 256" and "j < 512" and "k < 512" and "l < 512"
  shows "unat (va i j k l) = i * 2 ^ 39 + j * 2 ^ 30 + k * 2 ^ 21 + l * 2 ^ 12"
proof -
  have "va i j k l = of_nat (i * 2 ^ 39 + j * 2 ^ 30 + k * 2 ^ 21 + l * 2 ^ 12)"
    by (simp add: va_def push_bit_eq_mult)
  moreover have "i * 2 ^ 39 + j * 2 ^ 30 + k * 2 ^ 21 + l * 2 ^ 12 < 2 ^ 64" using assms by simp
  ultimately show ?thesis by (simp only: unsigned_of_nat) (simp add: take_bit_nat_eq_self)
qed

lemma div_base: "r < q \<Longrightarrow> (a * q + r) div q = (a :: nat)"
  by simp

lemma mod_base: "r < q \<Longrightarrow> (a * q + r) mod q = (r :: nat)"
  by simp

lemma idx_va:
  assumes "i < 256" and "j < 512" and "k < 512" and "l < 512"
  shows "idx 39 (va i j k l) = i" and "idx 30 (va i j k l) = j" and "idx 21 (va i j k l) = k"
    and "idx 12 (va i j k l) = l"
proof -
  note u = unat_va [OF assms]
  have "unat (va i j k l) = i * 2 ^ 39 + (j * 2 ^ 30 + k * 2 ^ 21 + l * 2 ^ 12)" unfolding u by simp
  then have "unat (va i j k l) div 2 ^ 39 = i" by (simp only:) (rule div_base, use assms in simp)
  then show "idx 39 (va i j k l) = i" using assms(1) unfolding idx_def by simp
  have "unat (va i j k l) = (i * 512 + j) * 2 ^ 30 + (k * 2 ^ 21 + l * 2 ^ 12)" unfolding u by simp
  then have "unat (va i j k l) div 2 ^ 30 = i * 512 + j" by (simp only:) (rule div_base, use assms in simp)
  then show "idx 30 (va i j k l) = j" unfolding idx_def by (simp only:) (rule mod_base [OF assms(2)])
  have "unat (va i j k l) = ((i * 512 + j) * 512 + k) * 2 ^ 21 + l * 2 ^ 12" unfolding u by simp
  then have "unat (va i j k l) div 2 ^ 21 = (i * 512 + j) * 512 + k"
    by (simp only:) (rule div_base, use assms in simp)
  then show "idx 21 (va i j k l) = k" unfolding idx_def by (simp only:) (rule mod_base [OF assms(3)])
  have "unat (va i j k l) = (((i * 512 + j) * 512 + k) * 512 + l) * 2 ^ 12 + 0" unfolding u by simp
  then have "unat (va i j k l) div 2 ^ 12 = ((i * 512 + j) * 512 + k) * 512 + l"
    by (simp only:) (rule div_base, simp)
  then show "idx 12 (va i j k l) = l" unfolding idx_def by (simp only:) (rule mod_base [OF assms(4)])
qed

lemma digits:
  fixes n :: nat
  shows "n = n div 2 ^ 39 * 2 ^ 39 + n div 2 ^ 30 mod 512 * 2 ^ 30 + n div 2 ^ 21 mod 512 * 2 ^ 21 +
    n div 2 ^ 12 mod 512 * 2 ^ 12 + n mod 2 ^ 12"
proof -
  have step: "n mod (q * 512) = n div q mod 512 * q + n mod q" for q :: nat
    by (simp add: mod_mult2_eq mult.commute)
  have "n = n div 2 ^ 39 * 2 ^ 39 + n mod 2 ^ 39" by simp
  also have "n mod 2 ^ 39 = n div 2 ^ 30 mod 512 * 2 ^ 30 + n mod 2 ^ 30" using step [of "2 ^ 30"] by simp
  also have "n mod 2 ^ 30 = n div 2 ^ 21 mod 512 * 2 ^ 21 + n mod 2 ^ 21" using step [of "2 ^ 21"] by simp
  also have "n mod 2 ^ 21 = n div 2 ^ 12 mod 512 * 2 ^ 12 + n mod 2 ^ 12" using step [of "2 ^ 12"] by simp
  finally show ?thesis by (simp only: add.assoc)
qed

lemma idx_less [simp]: "idx s v < 512"
  by (simp add: idx_def)

lemma idx_39:
  assumes "unat v < 2 ^ 47"
  shows "unat v div 2 ^ 39 = idx 39 v" and "idx 39 v < 256"
proof -
  have "unat v div 2 ^ 39 < 256" using assms by (intro less_mult_imp_div_less) simp
  then show "unat v div 2 ^ 39 = idx 39 v" "idx 39 v < 256" by (simp_all add: idx_def)
qed

text \<open>An address of the user half is made of its indices, as far as its page reaches.\<close>

lemma va_idx:
  assumes "unat v < 2 ^ 47"
  shows "2 ^ 12 dvd unat v \<Longrightarrow> v = va (idx 39 v) (idx 30 v) (idx 21 v) (idx 12 v)"
    and "2 ^ 21 dvd unat v \<Longrightarrow> idx 12 v = 0" and "2 ^ 30 dvd unat v \<Longrightarrow> idx 21 v = 0"
proof -
  show "v = va (idx 39 v) (idx 30 v) (idx 21 v) (idx 12 v)" if "2 ^ 12 dvd unat v"
  proof -
    have "unat v mod 2 ^ 12 = 0" using that by (simp add: dvd_eq_mod_eq_0)
    then have "unat v = idx 39 v * 2 ^ 39 + idx 30 v * 2 ^ 30 + idx 21 v * 2 ^ 21 + idx 12 v * 2 ^ 12"
      using digits [of "unat v"] idx_39(1) [OF assms] by (simp add: idx_def)
    then have "unat v = unat (va (idx 39 v) (idx 30 v) (idx 21 v) (idx 12 v))"
      using unat_va [OF idx_39(2) [OF assms] idx_less idx_less idx_less] by simp
    then show ?thesis by (simp add: word_unat_eq_iff)
  qed
  have zero: "n div a mod 512 = 0" if "a * 512 dvd n" "0 < a" for n a :: nat
    using that by (auto elim!: dvdE)
  show "idx 12 v = 0" if "2 ^ 21 dvd unat v" using zero [of "2 ^ 12" "unat v"] that by (simp add: idx_def)
  show "idx 21 v = 0" if "2 ^ 30 dvd unat v" using zero [of "2 ^ 21" "unat v"] that by (simp add: idx_def)
qed

section \<open>The reference translation\<close>

definition mapped :: "arch \<Rightarrow> table_mem \<Rightarrow> u64 \<Rightarrow> u64 \<Rightarrow> (page_kind \<times> u64) option" where
  "mapped A mem base v =
     (let pgd = entry_at mem base (idx 39 v) in
      if \<not> pgd_present A pgd then None else
      let pud = entry_at mem (pgd_page_vaddr A pgd) (idx 30 v) in
      if \<not> pud_present A pud then None else if pud_large A pud then Some (G1, pud) else
      let pmd = entry_at mem (pud_page_vaddr A pud) (idx 21 v) in
      if \<not> pmd_present A pmd then None else if pmd_large A pmd then Some (M2, pmd) else
      let pte = entry_at mem (pmd_page_vaddr A pmd) (idx 12 v) in
      if \<not> pte_present A pte then None else Some (K4, pte))"

fun page_bits :: "page_kind \<Rightarrow> nat" where
  "page_bits K4 = 12"
| "page_bits M2 = 21"
| "page_bits G1 = 30"

text \<open>The entry maps the page of the physical address.\<close>

fun hits :: "arch \<Rightarrow> u64 \<Rightarrow> page_kind \<Rightarrow> u64 \<Rightarrow> bool" where
  "hits A paddr K4 e \<longleftrightarrow> pte_pfn A e = drop_bit 12 paddr"
| "hits A paddr M2 e \<longleftrightarrow> drop_bit 21 (and e (PTE_PFN_MASK A)) = drop_bit 21 paddr"
| "hits A paddr G1 e \<longleftrightarrow> drop_bit 30 (and e (PTE_PFN_MASK A)) = drop_bit 30 paddr"

text \<open>What each level contributes.\<close>

lemma set_concat_upt: "x \<in> set (concat (map f [0..<n])) \<longleftrightarrow> (\<exists>i<n. x \<in> set (f i))"
  by auto

lemma set_walk_pte:
  assumes "x86_64 A"
  shows "(kd, v) \<in> set (walk_pte A mem base paddr i j k) \<longleftrightarrow>
    (\<exists>l<512. kd = K4 \<and> v = va i j k l \<and> pte_present A (entry_at mem base l) \<and>
       hits A paddr K4 (entry_at mem base l))"
  using assms by (auto simp: walk_pte_def handle_4_k_page_def x86_64_def va_def Let_def split: if_splits)

lemma set_walk_pmd:
  assumes "x86_64 A"
  shows "(kd, v) \<in> set (walk_pmd A mem base paddr i j) \<longleftrightarrow>
    (\<exists>k<512. let pmd = entry_at mem base k in pmd_present A pmd \<and>
       (if pmd_large A pmd then kd = M2 \<and> v = va i j k 0 \<and> hits A paddr M2 pmd
        else (kd, v) \<in> set (walk_pte A mem (pmd_page_vaddr A pmd) paddr i j k)))"
  using assms unfolding walk_pmd_def set_concat_upt
  by (intro ex_cong1) (auto simp: handle_2_m_page_def pmd_is_2_m_page_def x86_64_def va_def Let_def)

lemma set_walk_pud:
  assumes "x86_64 A"
  shows "(kd, v) \<in> set (walk_pud A mem base paddr i) \<longleftrightarrow>
    (\<exists>j<512. let pud = entry_at mem base j in pud_present A pud \<and>
       (if pud_large A pud then kd = G1 \<and> v = va i j 0 0 \<and> hits A paddr G1 pud
        else (kd, v) \<in> set (walk_pmd A mem (pud_page_vaddr A pud) paddr i j)))"
  using assms unfolding walk_pud_def set_concat_upt
  by (intro ex_cong1) (auto simp: handle_1_g_page_def pud_is_1_g_page_def x86_64_def va_def Let_def)

lemma set_walk_pgd:
  assumes "x86_64 A"
  shows "(kd, v) \<in> set (walk_pgd A mem base paddr) \<longleftrightarrow>
    (\<exists>i<256. let pgd = entry_at mem base i in pgd_present A pgd \<and>
       (kd, v) \<in> set (walk_pud A mem (pgd_page_vaddr A pgd) paddr i))"
  using assms by (auto simp: walk_pgd_def x86_64_def Let_def split: if_splits)


section \<open>The walk is the inverse of the translation\<close>

lemma mapped_va:
  assumes "i < 256" and "j < 512" and "k < 512" and "l < 512"
  shows "mapped A mem base (va i j k l) =
     (let pgd = entry_at mem base i in
      if \<not> pgd_present A pgd then None else
      let pud = entry_at mem (pgd_page_vaddr A pgd) j in
      if \<not> pud_present A pud then None else if pud_large A pud then Some (G1, pud) else
      let pmd = entry_at mem (pud_page_vaddr A pud) k in
      if \<not> pmd_present A pmd then None else if pmd_large A pmd then Some (M2, pmd) else
      let pte = entry_at mem (pmd_page_vaddr A pmd) l in
      if \<not> pte_present A pte then None else Some (K4, pte))"
  unfolding mapped_def idx_va [OF assms] ..

lemma va_range:
  assumes "i < 256" and "j < 512" and "k < 512" and "l < 512"
  shows "unat (va i j k l) < 2 ^ 47" and "2 ^ 12 dvd unat (va i j k l)"
    and "2 ^ 21 dvd unat (va i j k 0)" and "2 ^ 30 dvd unat (va i j 0 0)"
proof -
  show "unat (va i j k l) < 2 ^ 47" unfolding unat_va [OF assms] using assms by simp
  have "unat (va i j k l) = 2 ^ 12 * (i * 2 ^ 27 + j * 2 ^ 18 + k * 2 ^ 9 + l)"
    unfolding unat_va [OF assms] by simp
  then show "2 ^ 12 dvd unat (va i j k l)" by (simp only: dvd_triv_left)
  have "unat (va i j k 0) = 2 ^ 21 * (i * 2 ^ 18 + j * 2 ^ 9 + k)"
    using unat_va [OF assms(1-3), of 0] by simp
  then show "2 ^ 21 dvd unat (va i j k 0)" by (simp only: dvd_triv_left)
  have "unat (va i j 0 0) = 2 ^ 30 * (i * 2 ^ 9 + j)"
    using unat_va [OF assms(1,2), of 0 0] by simp
  then show "2 ^ 30 dvd unat (va i j 0 0)" by (simp only: dvd_triv_left)
qed

lemma concat_distinct:
  assumes "\<And>i. i < n \<Longrightarrow> distinct (f i)"
    and "\<And>i x. i < n \<Longrightarrow> x \<in> set (f i) \<Longrightarrow> g x = i"
  shows "distinct (concat (map f [0..<n]))"
  using assms
proof (induction n)
  case 0
  then show ?case by simp
next
  case (Suc n)
  have "set (f n) \<inter> set (f i) = {}" if "i < n" for i
    using Suc.prems(2) [of n] Suc.prems(2) [of i] that by fastforce
  then have "set (concat (map f [0..<n])) \<inter> set (f n) = {}" by fastforce
  moreover have "distinct (concat (map f [0..<n]))" using Suc by simp
  ultimately show ?case using Suc.prems(1) [of n] by simp
qed

text \<open>The walk of each level lists an address once: its index there tells which entry it comes from.\<close>

lemma distinct_walk_pte:
  assumes "x86_64 A" and "i < 256" "j < 512" "k < 512"
  shows "distinct (walk_pte A mem base paddr i j k)"
  unfolding walk_pte_def
proof (rule concat_distinct [where g = "\<lambda>(kd, v). idx 12 v"], goal_cases)
  case (1 l)
  show ?case by (simp add: Let_def handle_4_k_page_def)
next
  case (2 l x)
  then show ?case using assms idx_va(4) [OF assms(2-4), of l]
    by (auto simp: x86_64_def Let_def handle_4_k_page_def va_def split: if_splits)
qed

lemma walk_pmd_va:
  assumes "x86_64 A" and "(kd, v) \<in> set (walk_pmd A mem base paddr i j)"
  shows "\<exists>k<512. \<exists>l<512. v = va i j k l"
proof -
  from assms(2) obtain k where k: "k < 512" "if pmd_large A (entry_at mem base k) then v = va i j k 0
      else (kd, v) \<in> set (walk_pte A mem (pmd_page_vaddr A (entry_at mem base k)) paddr i j k)"
    unfolding set_walk_pmd [OF assms(1)] Let_def by (auto split: if_splits)
  then have "\<exists>l<512. v = va i j k l"
    using set_walk_pte [OF assms(1)] by (cases "pmd_large A (entry_at mem base k)") (auto intro: exI [of _ 0])
  with k(1) show ?thesis by blast
qed

lemma distinct_walk_pmd:
  assumes "x86_64 A" and "i < 256" "j < 512"
  shows "distinct (walk_pmd A mem base paddr i j)"
  unfolding walk_pmd_def
proof (rule concat_distinct [where g = "\<lambda>(kd, v). idx 21 v"], goal_cases)
  case (1 k)
  then have "k < 512" using assms(1) by (simp add: x86_64_def)
  then show ?case using distinct_walk_pte [OF assms(1-3)] by (simp add: Let_def handle_2_m_page_def)
next
  case (2 k x)
  then have k: "k < 512" using assms(1) by (simp add: x86_64_def)
  obtain kd v where x: "x = (kd, v)" by (cases x)
  have "\<exists>l<512. v = va i j k l"
  proof (cases "pmd_large A (entry_at mem base k)")
    case True
    then have "v = va i j k 0" using 2(2) assms(1) unfolding x
      by (auto simp: x86_64_def Let_def handle_2_m_page_def pmd_is_2_m_page_def va_def split: if_splits)
    then show ?thesis by (intro exI [of _ 0]) simp
  next
    case False
    then have "(kd, v) \<in> set (walk_pte A mem (pmd_page_vaddr A (entry_at mem base k)) paddr i j k)"
      using 2(2) unfolding x by (auto simp: Let_def pmd_is_2_m_page_def split: if_splits)
    then show ?thesis unfolding set_walk_pte [OF assms(1)] by blast
  qed
  with idx_va(3) [OF assms(2,3) k] show ?case by (auto simp: x)
qed

lemma distinct_walk_pud:
  assumes "x86_64 A" and "i < 256"
  shows "distinct (walk_pud A mem base paddr i)"
  unfolding walk_pud_def
proof (rule concat_distinct [where g = "\<lambda>(kd, v). idx 30 v"], goal_cases)
  case (1 j)
  then have "j < 512" using assms(1) by (simp add: x86_64_def)
  then show ?case using distinct_walk_pmd [OF assms] by (simp add: Let_def handle_1_g_page_def)
next
  case (2 j x)
  then have j: "j < 512" using assms(1) by (simp add: x86_64_def)
  obtain kd v where x: "x = (kd, v)" by (cases x)
  have "\<exists>k<512. \<exists>l<512. v = va i j k l"
  proof (cases "pud_large A (entry_at mem base j)")
    case True
    then have "v = va i j 0 0" using 2(2) assms(1) unfolding x
      by (auto simp: x86_64_def Let_def handle_1_g_page_def pud_is_1_g_page_def va_def split: if_splits)
    then show ?thesis by (intro exI [of _ 0] conjI) simp_all
  next
    case False
    then have "(kd, v) \<in> set (walk_pmd A mem (pud_page_vaddr A (entry_at mem base j)) paddr i j)"
      using 2(2) unfolding x by (auto simp: Let_def pud_is_1_g_page_def split: if_splits)
    then show ?thesis by (rule walk_pmd_va [OF assms(1)])
  qed
  with idx_va(2) [OF assms(2) j] show ?case by (auto simp: x)
qed

lemma walk_pud_va:
  assumes "x86_64 A" and "(kd, v) \<in> set (walk_pud A mem base paddr i)"
  shows "\<exists>j<512. \<exists>k<512. \<exists>l<512. v = va i j k l"
proof -
  from assms(2) obtain j where j: "j < 512" "if pud_large A (entry_at mem base j) then v = va i j 0 0
      else (kd, v) \<in> set (walk_pmd A mem (pud_page_vaddr A (entry_at mem base j)) paddr i j)"
    unfolding set_walk_pud [OF assms(1)] Let_def by (auto split: if_splits)
  show ?thesis
  proof (cases "pud_large A (entry_at mem base j)")
    case True
    with j show ?thesis by (intro exI [of _ j] conjI exI [of _ 0]) simp_all
  next
    case False
    with j(2) have "\<exists>k<512. \<exists>l<512. v = va i j k l" using walk_pmd_va [OF assms(1)] by simp
    with j(1) show ?thesis by blast
  qed
qed

lemma distinct_walk_pgd:
  assumes "x86_64 A"
  shows "distinct (walk_pgd A mem base paddr)"
  unfolding walk_pgd_def
proof (rule concat_distinct [where g = "\<lambda>(kd, v). idx 39 v"], goal_cases)
  case (1 i)
  then have "i < 256" using assms by (simp add: x86_64_def)
  then show ?case using distinct_walk_pud [OF assms] by (simp add: Let_def)
next
  case (2 i x)
  then have i: "i < 256" using assms by (simp add: x86_64_def)
  obtain kd v where x: "x = (kd, v)" by (cases x)
  with 2(2) have "(kd, v) \<in> set (walk_pud A mem (pgd_page_vaddr A (entry_at mem base i)) paddr i)"
    by (auto simp: Let_def split: if_splits)
  from walk_pud_va [OF assms this] idx_va(1) [OF i] show ?case by (auto simp: x)
qed

lemma walk_sound:
  assumes "x86_64 A" and walked: "(kd, v) \<in> set (walk_pgd A mem base paddr)"
  shows "unat v < 2 ^ 47 \<and> 2 ^ page_bits kd dvd unat v \<and>
    (\<exists>e. mapped A mem base v = Some (kd, e) \<and> hits A paddr kd e)"
proof -
  from walked obtain i where i: "i < 256" "pgd_present A (entry_at mem base i)"
    "(kd, v) \<in> set (walk_pud A mem (pgd_page_vaddr A (entry_at mem base i)) paddr i)"
    by (auto simp: set_walk_pgd [OF assms(1)] Let_def)
  let ?t1 = "pgd_page_vaddr A (entry_at mem base i)"
  from i(3) obtain j where j: "j < 512" "pud_present A (entry_at mem ?t1 j)"
    "if pud_large A (entry_at mem ?t1 j) then kd = G1 \<and> v = va i j 0 0 \<and> hits A paddr G1 (entry_at mem ?t1 j)
     else (kd, v) \<in> set (walk_pmd A mem (pud_page_vaddr A (entry_at mem ?t1 j)) paddr i j)"
    by (auto simp only: set_walk_pud [OF assms(1)] Let_def)
  let ?t2 = "pud_page_vaddr A (entry_at mem ?t1 j)"
  show ?thesis
  proof (cases "pud_large A (entry_at mem ?t1 j)")
    case True
    with j(3) have v: "kd = G1" "v = va i j 0 0" "hits A paddr G1 (entry_at mem ?t1 j)" by simp_all
    from mapped_va [OF i(1) j(1), of 0 0 A mem base] True i(2) j(2)
    have "mapped A mem base v = Some (G1, entry_at mem ?t1 j)" unfolding v(2) by (simp add: Let_def)
    with v va_range(1,4) [OF i(1) j(1), of 0 0] show ?thesis by simp
  next
    case False
    with j(3) obtain k where k: "k < 512" "pmd_present A (entry_at mem ?t2 k)"
      "if pmd_large A (entry_at mem ?t2 k) then kd = M2 \<and> v = va i j k 0 \<and> hits A paddr M2 (entry_at mem ?t2 k)
       else (kd, v) \<in> set (walk_pte A mem (pmd_page_vaddr A (entry_at mem ?t2 k)) paddr i j k)"
      by (auto simp only: set_walk_pmd [OF assms(1)] Let_def if_False)
    let ?t3 = "pmd_page_vaddr A (entry_at mem ?t2 k)"
    show ?thesis
    proof (cases "pmd_large A (entry_at mem ?t2 k)")
      case True
      with k(3) have v: "kd = M2" "v = va i j k 0" "hits A paddr M2 (entry_at mem ?t2 k)" by simp_all
      from mapped_va [OF i(1) j(1) k(1), of 0 A mem base] True \<open>\<not> pud_large A (entry_at mem ?t1 j)\<close> i(2) j(2) k(2)
      have "mapped A mem base v = Some (M2, entry_at mem ?t2 k)" unfolding v(2) by (simp add: Let_def)
      with v va_range(1,3) [OF i(1) j(1) k(1), of 0] show ?thesis by simp
    next
      case large: False
      with k(3) obtain l where l: "l < 512" "kd = K4" "v = va i j k l" "pte_present A (entry_at mem ?t3 l)"
        "hits A paddr K4 (entry_at mem ?t3 l)"
        by (auto simp only: set_walk_pte [OF assms(1)] if_False)
      from mapped_va [OF i(1) j(1) k(1) l(1), of A mem base] False large i(2) j(2) k(2) l(4)
      have "mapped A mem base v = Some (K4, entry_at mem ?t3 l)" unfolding l(3) by (simp add: Let_def)
      with l va_range(1,2) [OF i(1) j(1) k(1) l(1)] show ?thesis by simp
    qed
  qed
qed

lemma walk_complete:
  assumes "x86_64 A" and r: "unat v < 2 ^ 47 \<and> 2 ^ page_bits kd dvd unat v \<and>
    (\<exists>e. mapped A mem base v = Some (kd, e) \<and> hits A paddr kd e)"
  shows "(kd, v) \<in> set (walk_pgd A mem base paddr)"
proof -
  from r obtain e where v: "unat v < 2 ^ 47" and al: "2 ^ page_bits kd dvd unat v"
    and e: "mapped A mem base v = Some (kd, e)" "hits A paddr kd e" by blast
  have "(2 :: nat) ^ 12 dvd 2 ^ page_bits kd" by (cases kd) (simp_all add: le_imp_power_dvd)
  then have va: "v = va (idx 39 v) (idx 30 v) (idx 21 v) (idx 12 v)"
    using va_idx(1) [OF v] al dvd_trans by blast
  let ?i = "idx 39 v" and ?j = "idx 30 v" and ?k = "idx 21 v" and ?l = "idx 12 v"
  let ?g = "entry_at mem base ?i"
  let ?u = "entry_at mem (pgd_page_vaddr A ?g) ?j"
  let ?m = "entry_at mem (pud_page_vaddr A ?u) ?k"
  let ?p = "entry_at mem (pmd_page_vaddr A ?m) ?l"
  note i = idx_39(2) [OF v]
  have g: "pgd_present A ?g" "pud_present A ?u"
    using e(1) unfolding mapped_def Let_def by (auto split: if_splits)
  consider (G1) "pud_large A ?u" "kd = G1" "e = ?u"
    | (M2) "\<not> pud_large A ?u" "pmd_present A ?m" "pmd_large A ?m" "kd = M2" "e = ?m"
    | (K4) "\<not> pud_large A ?u" "pmd_present A ?m" "\<not> pmd_large A ?m" "pte_present A ?p" "kd = K4" "e = ?p"
    using e(1) g unfolding mapped_def Let_def by (auto split: if_splits)
  then have "(kd, v) \<in> set (walk_pud A mem (pgd_page_vaddr A ?g) paddr ?i)"
  proof cases
    case G1
    then have "v = va ?i ?j 0 0"
      using va va_idx(2,3) [OF v] al dvd_trans [OF le_imp_power_dvd [of 21 30 "2 :: nat"]] by simp
    then show ?thesis unfolding set_walk_pud [OF assms(1)] Let_def
      using g G1 e(2) by (intro exI [of _ ?j]) simp
  next
    case M2
    then have "v = va ?i ?j ?k 0" using va va_idx(2) [OF v] al by simp
    then have "(kd, v) \<in> set (walk_pmd A mem (pud_page_vaddr A ?u) paddr ?i ?j)"
      unfolding set_walk_pmd [OF assms(1)] Let_def using M2 e(2) by (intro exI [of _ ?k]) simp
    then show ?thesis unfolding set_walk_pud [OF assms(1)] Let_def
      using g M2 by (intro exI [of _ ?j]) simp
  next
    case K4
    have "(kd, v) \<in> set (walk_pte A mem (pmd_page_vaddr A ?m) paddr ?i ?j ?k)"
      unfolding set_walk_pte [OF assms(1)] using K4 e(2) va by (intro exI [of _ ?l]) simp
    then have "(kd, v) \<in> set (walk_pmd A mem (pud_page_vaddr A ?u) paddr ?i ?j)"
      unfolding set_walk_pmd [OF assms(1)] Let_def using K4 by (intro exI [of _ ?k]) simp
    then show ?thesis unfolding set_walk_pud [OF assms(1)] Let_def
      using g K4 by (intro exI [of _ ?j]) simp
  qed
  then show ?thesis unfolding set_walk_pgd [OF assms(1)] Let_def using g i by (intro exI [of _ ?i]) simp
qed

lemma walk_member:
  assumes "x86_64 A"
  shows "(kd, v) \<in> set (walk_pgd A mem base paddr) \<longleftrightarrow>
    unat v < 2 ^ 47 \<and> 2 ^ page_bits kd dvd unat v \<and>
    (\<exists>e. mapped A mem base v = Some (kd, e) \<and> hits A paddr kd e)"
  using walk_sound [OF assms] walk_complete [OF assms] by blast

text \<open>C33: The walk prints no line twice, and it prints a virtual address of a page size if and only if
  it is an address of the user half, aligned to that size, that the tables translate with an entry of
  that size to the page of the physical address.\<close>

theorem walk_exact:
  assumes "x86_64 A"
  shows "distinct (walk_pgd A mem base paddr) \<and>
    ((kd, v) \<in> set (walk_pgd A mem base paddr) \<longleftrightarrow>
      unat v < 2 ^ 47 \<and> 2 ^ page_bits kd dvd unat v \<and>
      (\<exists>e. mapped A mem base v = Some (kd, e) \<and> hits A paddr kd e))"
  by (rule conjI [OF distinct_walk_pgd [OF assms] walk_member [OF assms]])

text \<open>
  A concrete instance: the bits of x86-64 entries, tables at their physical addresses, and the page
  0x9000 mapped at one address.
\<close>

definition demo_arch :: arch where
  "demo_arch = \<lparr>PAGE_SHIFT = 12, PMD_SHIFT = 21, PUD_SHIFT = 30, PGDIR_SHIFT = 39, PTRS_PER_PTE = 512,
     PTRS_PER_PMD = 512, PTRS_PER_PUD = 512, PTRS_PER_PGD = 512, PTE_PFN_MASK = 0xFFFFFFFFFF000,
     pgd_present = (\<lambda>e. bit e 0), pud_present = (\<lambda>e. bit e 0), pmd_present = (\<lambda>e. bit e 0),
     pte_present = (\<lambda>e. bit e 0), pud_large = (\<lambda>e. bit e 7), pmd_large = (\<lambda>e. bit e 7),
     pte_pfn = (\<lambda>e. drop_bit 12 (and e 0xFFFFFFFFFF000)),
     pgd_page_vaddr = (\<lambda>e. and e 0xFFFFFFFFFF000), pud_page_vaddr = (\<lambda>e. and e 0xFFFFFFFFFF000),
     pmd_page_vaddr = (\<lambda>e. and e 0xFFFFFFFFFF000)\<rparr>"

definition demo_tables :: table_mem where
  "demo_tables a =
     (if a = 0x1000 + 8 * 255 then 0x2001 else if a = 0x2000 + 8 * 395 then 0x3001
      else if a = 0x3000 + 8 * 285 then 0x4001 else if a = 0x4000 + 8 * 501 then 0x9001 else 0)"

lemma demo_x86_64: "x86_64 demo_arch"
  by (simp add: x86_64_def demo_arch_def)

lemma demo_mapped: "mapped demo_arch demo_tables 0x1000 0x7fe2e3bf5000 = Some (K4, 0x9001)"
  by (simp add: mapped_def idx_def entry_at_def demo_arch_def demo_tables_def Let_def)

theorem walk_exact_witness:
  "(K4, 0x7fe2e3bf5000) \<in> set (walk_pgd demo_arch demo_tables 0x1000 0x9123)"
  using walk_exact [OF demo_x86_64, of demo_tables "0x1000" "0x9123" K4 "0x7fe2e3bf5000"] demo_mapped
  by (simp add: demo_arch_def)

section \<open>The tasks visited\<close>

text \<open>Following \<open>nxt\<close> from \<open>p\<close> visits \<open>ps\<close> and arrives at \<open>q\<close>.\<close>

primrec path :: "(u64 \<Rightarrow> u64) \<Rightarrow> u64 \<Rightarrow> u64 list \<Rightarrow> u64 \<Rightarrow> bool" where
  "path nxt p [] q \<longleftrightarrow> p = q"
| "path nxt p (x # xs) q \<longleftrightarrow> p = x \<and> path nxt (nxt x) xs q"

definition others :: "(u64 \<Rightarrow> task) \<Rightarrow> u64 \<Rightarrow> u64 list \<Rightarrow> bool" where
  "others T current ps \<longleftrightarrow>
     path (\<lambda>p. next_task (T p)) (next_task (T current)) ps current \<and> current \<notin> set ps"

definition task_lines :: "arch \<Rightarrow> table_mem \<Rightarrow> (u64 \<Rightarrow> task) \<Rightarrow> u64 \<Rightarrow> address_spaces \<Rightarrow> u64 \<Rightarrow> task_line list" where
  "task_lines A mem T paddr S p =
     (case task_mm (T p) of
        None \<Rightarrow> []
      | Some mm \<Rightarrow> map (\<lambda>v. (paddr, pid (T p), comm (T p), v)) (walk_mm_struct A mem S mm paddr))"

lemma print_task_lines:
  "now_task S = 0 \<Longrightarrow> print_task A mem T paddr p S = (task_lines A mem T paddr S p, S)"
  by (cases "task_mm (T p)") (simp_all add: print_task_def task_lines_def walk_mm_struct_def Let_def)

lemma print_tasks_path:
  "now_task S = 0 \<Longrightarrow> path (\<lambda>p. next_task (T p)) p ps current \<Longrightarrow> current \<notin> set ps \<Longrightarrow>
     print_tasks A mem T current paddr p out S =
       Some (out @ concat (map (task_lines A mem T paddr S) ps), S)"
proof (induction ps arbitrary: p out)
  case Nil
  then show ?case by (simp add: print_tasks.simps)
next
  case (Cons x xs)
  then have "p = x" "x \<noteq> current" by auto
  with Cons show ?case by (subst print_tasks.simps) (simp add: print_task_lines)
qed

lemma find_task_path:
  "path (\<lambda>p. next_task (T p)) p ps current \<Longrightarrow> current \<notin> set ps \<Longrightarrow>
     find_task T current n p = Some (find (\<lambda>q. pid (T q) = n) ps)"
proof (induction ps arbitrary: p)
  case Nil
  then show ?case by (simp add: find_task.simps)
next
  case (Cons x xs)
  then have "p = x" "x \<noteq> current" by auto
  with Cons show ?case by (subst find_task.simps) simp
qed

text \<open>C34: On a ring of tasks the search returns: it prints, task by task in the order of the ring, the
  lines of every task other than the current one that has an address space, and leaves the use counts
  and the current walk as they were. The mappings of the current task are never looked at.\<close>

theorem print_vaddr_of_paddr_others:
  assumes "others T current ps" and "now_task S = 0"
  shows "print_vaddr_of_paddr A mem T current paddr S =
    Some (concat (map (task_lines A mem T paddr S) ps), S)"
  using assms print_tasks_path [of S T "next_task (T current)" ps current A mem paddr "[]"]
  by (simp add: print_vaddr_of_paddr_def others_def)

text \<open>The test of the module: two tasks on a ring, the second one with the tables above.\<close>

definition demo_tasks :: "u64 \<Rightarrow> task" where
  "demo_tasks p = (if p = 1 then \<lparr>pid = 99, comm = ''insmod'', task_mm = Some 7, next_task = 2\<rparr>
     else \<lparr>pid = 1587, comm = ''sh'', task_mm = Some 7, next_task = 1\<rparr>)"

definition demo_spaces :: address_spaces where
  "demo_spaces = \<lparr>pgd_of = (\<lambda>_. 0x1000), users = (\<lambda>_. 1), now_task = 0\<rparr>"

lemma demo_others: "others demo_tasks 1 [2]"
  by (simp add: others_def demo_tasks_def)

theorem print_vaddr_of_paddr_others_witness:
  "\<exists>out. print_vaddr_of_paddr demo_arch demo_tables demo_tasks 1 0x9123 demo_spaces = Some (out, demo_spaces) \<and>
     fst ` snd ` set out \<subseteq> {1587}"
proof -
  have "now_task demo_spaces = 0" by (simp add: demo_spaces_def)
  from print_vaddr_of_paddr_others [OF demo_others this, of demo_arch demo_tables "0x9123"]
  show ?thesis by (auto simp: task_lines_def demo_tasks_def)
qed

section \<open>Round trip with the forward translation\<close>

text \<open>What the documentation promises of the address of an entry.\<close>

definition offset_laws :: "arch \<Rightarrow> offsets \<Rightarrow> bool" where
  "offset_laws A F \<longleftrightarrow> (\<forall>b v. pgd_offset F b v = b + 8 * of_nat (idx 39 v)) \<and>
     (\<forall>e v. pud_offset F e v = pgd_page_vaddr A e + 8 * of_nat (idx 30 v)) \<and>
     (\<forall>e v. pmd_offset F e v = pud_page_vaddr A e + 8 * of_nat (idx 21 v)) \<and>
     (\<forall>e v. pte_offset_kernel F e v = pmd_page_vaddr A e + 8 * of_nat (idx 12 v))"

lemma get_paddr_mapped:
  assumes "x86_64 A" and "offset_laws A F" and "task_mm p = Some mm" and "find_vma F mm v = Some False"
    and "mapped A mem (pgds mm) v = Some (K4, e)"
  shows "get_paddr A mem F pgds p v = Inr (push_bit 12 (pte_pfn A e))"
  using assms
  by (auto simp: get_paddr_def mapped_def entry_at_def offset_laws_def x86_64_def Let_def split: if_splits)

lemma frame_back:
  fixes f :: u64
  assumes "unat f < 2 ^ 52"
  shows "drop_bit 12 (push_bit 12 f) = f"
proof -
  have "push_bit 12 f = f * 4096" by (simp add: push_bit_eq_mult)
  then have "unat (push_bit 12 f) = unat f * 4096" using assms by (simp add: unat_word_ariths)
  then have "unat (drop_bit 12 (push_bit 12 f)) = unat f"
    unfolding unat_drop_bit_eq by (simp add: drop_bit_eq_div)
  then show ?thesis by (simp add: word_unat_eq_iff)
qed

text \<open>C35: Loading the test round-trips: when the first task of the ring with the test's process id has
  the test's address mapped to a frame by a page of four kilobytes, the physical address found is
  translated back to lines among which is that address of that task.\<close>

theorem test_init_roundtrip:
  assumes "x86_64 A" and "offset_laws A F" and "others T current ps" and "now_task S = 0"
    and "find (\<lambda>q. pid (T q) = PID) ps = Some p" and "task_mm (T p) = Some mm"
    and "find_vma F mm LIBC_ADDR = Some False"
    and "mapped A mem (pgd_of S mm) LIBC_ADDR = Some (K4, e)"
    and "0 < pte_pfn A e" and "unat (pte_pfn A e) < 2 ^ 52"
  shows "\<exists>paddr out. vaddr_to_paddr A mem F (pgd_of S) T current PID LIBC_ADDR = Some (Inr paddr) \<and>
    huawei_user_space_mem_test_init A mem F T current S = Some (Inr (0, out, S)) \<and>
    (paddr, PID, comm (T p), K4, LIBC_ADDR) \<in> set out"
proof -
  let ?f = "pte_pfn A e" and ?out = "concat (map (task_lines A mem T (push_bit 12 (pte_pfn A e)) S) ps)"
  have p: "p \<in> set ps" "pid (T p) = PID" using assms(5) by (auto simp: find_Some_iff)
  have "find_task T current PID (next_task (T current)) = Some (Some p)"
    using find_task_path [of T "next_task (T current)" ps current] assms(3,5) by (simp add: others_def)
  then have fwd: "vaddr_to_paddr A mem F (pgd_of S) T current PID LIBC_ADDR = Some (Inr (push_bit 12 ?f))"
    using get_paddr_mapped [of A F "T p" mm LIBC_ADDR mem "pgd_of S" e, OF assms(1,2,6,7,8)] by (simp add: vaddr_to_paddr_def)
  have frame: "drop_bit 12 (push_bit 12 ?f) = ?f" by (rule frame_back [OF assms(10)])
  then have nz: "push_bit 12 ?f \<noteq> 0" using assms(9) by auto
  have "(K4, LIBC_ADDR) \<in> set (walk_mm_struct A mem S mm (push_bit 12 ?f))"
    unfolding walk_mm_struct_def walk_member [OF assms(1)] using assms(8) frame by simp
  then have "(push_bit 12 ?f, PID, comm (T p), K4, LIBC_ADDR) \<in> set ?out"
    using p assms(6) by (auto simp: task_lines_def intro!: bexI [of _ p])
  moreover have "huawei_user_space_mem_test_init A mem F T current S = Some (Inr (0, ?out, S))"
    using fwd nz print_tasks_path [OF assms(4), of T "next_task (T current)" ps current] assms(3)
    by (simp add: huawei_user_space_mem_test_init_def print_vaddr_of_paddr_def others_def)
  ultimately show ?thesis using fwd by blast
qed

definition demo_offsets :: offsets where
  "demo_offsets = \<lparr>find_vma = (\<lambda>mm v. Some False), pgd_offset = (\<lambda>b v. b + 8 * of_nat (idx 39 v)),
     pud_offset = (\<lambda>e v. pgd_page_vaddr demo_arch e + 8 * of_nat (idx 30 v)),
     pmd_offset = (\<lambda>e v. pud_page_vaddr demo_arch e + 8 * of_nat (idx 21 v)),
     pte_offset_kernel = (\<lambda>e v. pmd_page_vaddr demo_arch e + 8 * of_nat (idx 12 v))\<rparr>"

theorem test_init_roundtrip_witness:
  "\<exists>paddr out. huawei_user_space_mem_test_init demo_arch demo_tables demo_offsets demo_tasks 1 demo_spaces =
       Some (Inr (0, out, demo_spaces)) \<and>
     (paddr, 1587, ''sh'', K4, 0x7fe2e3bf5000) \<in> set out"
proof -
  have "offset_laws demo_arch demo_offsets" by (simp add: offset_laws_def demo_offsets_def)
  from test_init_roundtrip [OF demo_x86_64 this demo_others, of demo_spaces 2 7 demo_tables "0x9001"]
  show ?thesis
    using demo_mapped by (auto simp: demo_spaces_def demo_tasks_def demo_offsets_def demo_arch_def)
qed

end
