(* ===== verification/Prio_Tree.thy ===== *)
theory Prio_Tree
  imports Prelude
begin

text \<open>
  The iteration over a priority search tree of memory areas that mem_leak/rmap/rmap.c keeps as its
  own copy of the kernel's. The memory of the tree and of the areas does not change during an
  iteration and is, with the macros of linux/prio_tree.h, the parameter \<open>areas\<close>; the null pointer
  is 0.
\<close>

section \<open>Memory and iterator\<close>

text \<open>
  \<open>node_left\<close> to \<open>node_last\<close> are the fields of \<open>struct prio_tree_node\<close>, \<open>vm_start\<close> to
  \<open>vm_mm\<close> those of \<open>struct vm_area_struct\<close>, \<open>set_next\<close> to \<open>set_head\<close> its \<open>shared.vm_set\<close>;
  the last nine are the macros \<open>prio_tree_left_empty\<close>, \<open>prio_tree_right_empty\<close>,
  \<open>prio_tree_root\<close>, \<open>prio_tree_entry\<close>, \<open>list_entry\<close> on \<open>shared.vm_set.list\<close>,
  \<open>INIT_PRIO_TREE_ITER\<close>, \<open>prio_tree_empty\<close>, \<open>prio_tree_iter_init\<close> and \<open>PAGE_SHIFT\<close>.
\<close>

record tree_root =
  root_node :: u64
  index_bits :: nat
  raw :: bool

record prio_tree_iter =
  it_cur :: u64
  it_mask :: u64
  it_value :: u64
  size_level :: nat
  it_root :: tree_root
  r_index :: u64
  h_index :: u64

record areas =
  node_left :: "u64 \<Rightarrow> u64"
  node_right :: "u64 \<Rightarrow> u64"
  node_parent :: "u64 \<Rightarrow> u64"
  node_start :: "u64 \<Rightarrow> u64"
  node_last :: "u64 \<Rightarrow> u64"
  vm_start :: "u64 \<Rightarrow> u64"
  vm_end :: "u64 \<Rightarrow> u64"
  vm_pgoff :: "u64 \<Rightarrow> u64"
  vm_mm :: "u64 \<Rightarrow> u64"
  set_next :: "u64 \<Rightarrow> u64"
  set_parent :: "u64 \<Rightarrow> u64"
  set_head :: "u64 \<Rightarrow> u64"
  left_empty :: "u64 \<Rightarrow> bool"
  right_empty :: "u64 \<Rightarrow> bool"
  is_root :: "u64 \<Rightarrow> bool"
  prio_tree_entry :: "u64 \<Rightarrow> u64"
  set_entry :: "u64 \<Rightarrow> u64"
  init_iter :: "prio_tree_iter \<Rightarrow> prio_tree_iter"
  tree_empty :: "tree_root \<Rightarrow> bool"
  iter_init :: "tree_root \<Rightarrow> u64 \<Rightarrow> u64 \<Rightarrow> prio_tree_iter"
  page_shift :: nat

definition RADIX_INDEX_USER :: "areas \<Rightarrow> u64 \<Rightarrow> u64" where
  "RADIX_INDEX_USER K vma = vm_pgoff K vma"

definition VMA_SIZE_USER :: "areas \<Rightarrow> u64 \<Rightarrow> u64" where
  "VMA_SIZE_USER K vma = drop_bit (page_shift K) (vm_end K vma - vm_start K vma)"

definition HEAP_INDEX_USER :: "areas \<Rightarrow> u64 \<Rightarrow> u64" where
  "HEAP_INDEX_USER K vma = vm_pgoff K vma + (VMA_SIZE_USER K vma - 1)"

section \<open>Moving in the tree\<close>

definition get_index_user :: "areas \<Rightarrow> tree_root \<Rightarrow> u64 \<Rightarrow> (u64 \<times> u64) result" where
  "get_index_user K root node =
     (if node = 0 then Inl NullDeref
      else if raw root then
        let vma = prio_tree_entry K node in Inr (RADIX_INDEX_USER K vma, HEAP_INDEX_USER K vma)
      else Inr (node_start K node, node_last K node))"

text \<open>Going down: the mask moves to the next bit of the index, and then through the bits of the size.\<close>

definition move_down :: "areas \<Rightarrow> u64 \<Rightarrow> prio_tree_iter \<Rightarrow> prio_tree_iter result" where
  "move_down K child it =
     (let m = drop_bit 1 (it_mask it); it = it\<lparr>it_cur := child, it_mask := m\<rparr> in
      if m \<noteq> 0 then
        Inr (if size_level it \<noteq> 0 then it\<lparr>size_level := size_level it + 1\<rparr> else it)
      else if size_level it \<noteq> 0 then
        if \<not> left_empty K child then Inl Bug
        else if \<not> right_empty K child then Inl Bug
        else Inr (it\<lparr>size_level := size_level it + 1, it_mask := - 1\<rparr>)
      else Inr (it\<lparr>size_level := 1, it_mask := push_bit 63 1\<rparr>))"

text \<open>\<open>None\<close> is the null pointer; otherwise the indices of the node moved to and the iterator.\<close>

definition prio_tree_left_user ::
  "areas \<Rightarrow> prio_tree_iter \<Rightarrow> ((u64 \<times> u64) \<times> prio_tree_iter) option result"
where
  "prio_tree_left_user K it =
     (if left_empty K (it_cur it) then Inr None
      else bind_result (get_index_user K (it_root it) (node_left K (it_cur it))) (\<lambda>(r, h).
        if r_index it \<le> h then
          bind_result (move_down K (node_left K (it_cur it)) it) (\<lambda>it. Inr (Some ((r, h), it)))
        else Inr None))"

definition prio_tree_right_user ::
  "areas \<Rightarrow> prio_tree_iter \<Rightarrow> ((u64 \<times> u64) \<times> prio_tree_iter) option result"
where
  "prio_tree_right_user K it =
     (if right_empty K (it_cur it) then Inr None
      else
        let v = (if size_level it \<noteq> 0 then it_value it else or (it_value it) (it_mask it)) in
        if h_index it < v then Inr None
        else bind_result (get_index_user K (it_root it) (node_right K (it_cur it))) (\<lambda>(r, h).
          if r_index it \<le> h then
            bind_result (move_down K (node_right K (it_cur it)) (it\<lparr>it_value := v\<rparr>)) (\<lambda>it. Inr (Some ((r, h), it)))
          else Inr None))"

definition prio_tree_parent_user :: "areas \<Rightarrow> prio_tree_iter \<Rightarrow> prio_tree_iter" where
  "prio_tree_parent_user K it =
     (let it = it\<lparr>it_cur := node_parent K (it_cur it)\<rparr>;
          it = (if it_mask it = - 1 then it\<lparr>it_mask := 1\<rparr>
                else if size_level it = 1 then it\<lparr>it_mask := 1\<rparr>
                else it\<lparr>it_mask := push_bit 1 (it_mask it)\<rparr>);
          it = (if size_level it \<noteq> 0 then it\<lparr>size_level := size_level it - 1\<rparr> else it)
      in if size_level it = 0 \<and> and (it_value it) (it_mask it) \<noteq> 0
         then it\<lparr>it_value := xor (it_value it) (it_mask it)\<rparr> else it)"

definition overlap_user :: "prio_tree_iter \<Rightarrow> u64 \<Rightarrow> u64 \<Rightarrow> bool" where
  "overlap_user it r h \<longleftrightarrow> h_index it \<ge> r \<and> r_index it \<le> h"

section \<open>First and next node\<close>

text \<open>
  A loop that does not end is \<open>None\<close>. The node of an answer is the iterator's; 0 is the null
  pointer.
\<close>

partial_function (option) first_loop ::
  "areas \<Rightarrow> u64 \<times> u64 \<Rightarrow> prio_tree_iter \<Rightarrow> (u64 \<times> prio_tree_iter) result option"
where
  "first_loop K rh it =
     (if overlap_user it (fst rh) (snd rh) then Some (Inr (it_cur it, it))
      else case prio_tree_left_user K it of
        Inl e \<Rightarrow> Some (Inl e)
      | Inr (Some (rh', it')) \<Rightarrow> first_loop K rh' it'
      | Inr None \<Rightarrow>
          (case prio_tree_right_user K it of
             Inl e \<Rightarrow> Some (Inl e)
           | Inr (Some (rh', it')) \<Rightarrow> first_loop K rh' it'
           | Inr None \<Rightarrow> Some (Inr (0, it))))"

definition prio_tree_first_user :: "areas \<Rightarrow> prio_tree_iter \<Rightarrow> (u64 \<times> prio_tree_iter) result option" where
  "prio_tree_first_user K it =
     (let it = init_iter K it; root = it_root it in
      if tree_empty K root then Some (Inr (0, it))
      else case get_index_user K root (root_node root) of
        Inl e \<Rightarrow> Some (Inl e)
      | Inr (r, h) \<Rightarrow>
          if r_index it > h then Some (Inr (0, it))
          else first_loop K (r, h)
                 (it\<lparr>it_mask := push_bit (index_bits root - 1) 1, it_cur := root_node root\<rparr>))"

text \<open>The first inner loop of \<open>prio_tree_next_user\<close>: it returns from within or runs out of left nodes.\<close>

partial_function (option) left_loop ::
  "areas \<Rightarrow> prio_tree_iter \<Rightarrow> (bool \<times> prio_tree_iter) result option"
where
  "left_loop K it =
     (case prio_tree_left_user K it of
        Inl e \<Rightarrow> Some (Inl e)
      | Inr None \<Rightarrow> Some (Inr (False, it))
      | Inr (Some (rh, it')) \<Rightarrow>
          if overlap_user it' (fst rh) (snd rh) then Some (Inr (True, it')) else left_loop K it')"

text \<open>Leaving right subtrees.\<close>

partial_function (option) up_loop :: "areas \<Rightarrow> prio_tree_iter \<Rightarrow> prio_tree_iter option" where
  "up_loop K it =
     (if \<not> is_root K (it_cur it) \<and> node_right K (node_parent K (it_cur it)) = it_cur it
      then up_loop K (prio_tree_parent_user K it) else Some it)"

partial_function (option) right_loop ::
  "areas \<Rightarrow> prio_tree_iter \<Rightarrow> ((u64 \<times> u64) option \<times> prio_tree_iter) result option"
where
  "right_loop K it =
     (case prio_tree_right_user K it of
        Inl e \<Rightarrow> Some (Inl e)
      | Inr (Some (rh, it')) \<Rightarrow> Some (Inr (Some rh, it'))
      | Inr None \<Rightarrow>
          Option.bind (up_loop K it) (\<lambda>it.
            if is_root K (it_cur it) then Some (Inr (None, it))
            else right_loop K (prio_tree_parent_user K it)))"

partial_function (option) repeat_loop ::
  "areas \<Rightarrow> prio_tree_iter \<Rightarrow> (u64 \<times> prio_tree_iter) result option"
where
  "repeat_loop K it =
     Option.bind (left_loop K it) (\<lambda>r. case r of
       Inl e \<Rightarrow> Some (Inl e)
     | Inr (found, it) \<Rightarrow>
         if found then Some (Inr (it_cur it, it))
         else Option.bind (right_loop K it) (\<lambda>r. case r of
           Inl e \<Rightarrow> Some (Inl e)
         | Inr (None, it) \<Rightarrow> Some (Inr (0, it))
         | Inr (Some rh, it) \<Rightarrow>
             if overlap_user it (fst rh) (snd rh) then Some (Inr (it_cur it, it))
             else repeat_loop K it))"

definition prio_tree_next_user :: "areas \<Rightarrow> prio_tree_iter \<Rightarrow> (u64 \<times> prio_tree_iter) result option" where
  "prio_tree_next_user K it = (if it_cur it = 0 then prio_tree_first_user K it else repeat_loop K it)"

section \<open>The areas of the nodes\<close>

definition prio_tree_iter_init_user :: "prio_tree_iter \<Rightarrow> tree_root \<Rightarrow> u64 \<Rightarrow> u64 \<Rightarrow> prio_tree_iter" where
  "prio_tree_iter_init_user it root r h =
     it\<lparr>it_root := root, r_index := r, h_index := h, it_cur := 0\<rparr>"

definition next_node :: "areas \<Rightarrow> prio_tree_iter \<Rightarrow> (u64 \<times> prio_tree_iter) result option" where
  "next_node K it =
     map_option (map_sum id (\<lambda>(ptr, it). if ptr = 0 then (0, it) else (prio_tree_entry K ptr, it)))
       (prio_tree_next_user K it)"

definition vma_prio_tree_next_user ::
  "areas \<Rightarrow> u64 \<Rightarrow> prio_tree_iter \<Rightarrow> (u64 \<times> prio_tree_iter) result option"
where
  "vma_prio_tree_next_user K vma it =
     (if vma = 0 then next_node K it
      else if set_parent K vma \<noteq> 0 then
        if set_head K vma \<noteq> 0 then Some (Inr (set_head K vma, it)) else next_node K it
      else
        let n = set_entry K (set_next K vma) in
        if set_head K n = 0 then Some (Inr (n, it)) else next_node K it)"

text \<open>
  The loop of \<open>vma_prio_tree_foreach_user\<close> around a body that may change a state; \<open>nxt\<close> is the
  function that yields the next area.
\<close>

partial_function (option) foreach_loop ::
  "(u64 \<Rightarrow> prio_tree_iter \<Rightarrow> (u64 \<times> prio_tree_iter) result option) \<Rightarrow> (u64 \<Rightarrow> 's \<Rightarrow> 's result) \<Rightarrow>
     u64 \<Rightarrow> prio_tree_iter \<Rightarrow> 's \<Rightarrow> 's result option"
where
  "foreach_loop nxt body vma it s =
     Option.bind (nxt vma it) (\<lambda>r. case r of
       Inl e \<Rightarrow> Some (Inl e)
     | Inr (vma, it) \<Rightarrow>
         if vma = 0 then Some (Inr s)
         else case body vma s of
           Inl e \<Rightarrow> Some (Inl e)
         | Inr s \<Rightarrow> foreach_loop nxt body vma it s)"

definition vma_prio_tree_foreach_user ::
  "areas \<Rightarrow> tree_root \<Rightarrow> u64 \<Rightarrow> u64 \<Rightarrow> (u64 \<Rightarrow> 's \<Rightarrow> 's result) \<Rightarrow> 's \<Rightarrow> 's result option"
where
  "vma_prio_tree_foreach_user K root first_index last_index body s =
     foreach_loop (vma_prio_tree_next_user K) body 0 (iter_init K root first_index last_index) s"

text \<open>A body run over a list of areas, stopping at the first fault.\<close>

fun each_area :: "(u64 \<Rightarrow> 's \<Rightarrow> 's result) \<Rightarrow> u64 list \<Rightarrow> 's \<Rightarrow> 's result" where
  "each_area body [] s = Inr s"
| "each_area body (vma # vs) s = bind_result (body vma s) (each_area body vs)"

end
