(* ===== verification/Rmap.thy ===== *)
theory Rmap
  imports Prio_Tree Kernel_Heap
begin

text \<open>
  The reverse mapping module, mem_leak/rmap/rmap.c, over the iteration of theory Prio_Tree: the array
  of process ids, the locking of an anonymous page and the search for the processes of a page.
\<close>

section \<open>Parameters and state\<close>

text \<open>
  The fields of \<open>struct page\<close> and what they lead to, the page macros, the areas on the list of an
  anonymous page, the address of the owner of an address space, its process id and name, the tree
  of a file's mapping, the areas themselves and the allocator behind \<open>vmalloc\<close>.
\<close>

record pages =
  page_mapping :: "u64 \<Rightarrow> u64"
  page_index :: "u64 \<Rightarrow> u64"
  page_mapped :: "u64 \<Rightarrow> bool"
  page_anon :: "u64 \<Rightarrow> bool"
  pfn_to_page :: "u64 \<Rightarrow> u64"
  anon_list :: "u64 \<Rightarrow> u64 list"
  mm_owner :: "u64 \<Rightarrow> u64"
  owner_pid :: "u64 \<Rightarrow> int"
  owner_comm :: "u64 \<Rightarrow> string"
  i_mmap :: "u64 \<Rightarrow> tree_root"
  page_cache_shift :: nat
  anon_bit :: u64
  vmas :: areas
  allocator :: heap_env

record task_info =
  info_pid :: int
  taskname :: string

datatype rmap_line =
    AnonPage
  | FilePage
  | WillBeSwapped
  | RelatedTasks
  | TaskLine int string
  | LackOfPidArr

text \<open>
  \<open>task_head\<close> lists the addresses of its nodes, \<open>infos\<close> what lies there; \<open>rcu\<close> is the depth of
  read locks and \<open>locked\<close> the anonymous areas whose lock is held.
\<close>

record rmap =
  pid_arr :: "int list"
  task_head :: "u64 list"
  infos :: "u64 \<Rightarrow> task_info"
  rheap :: heap
  rcu :: nat
  locked :: "u64 list"
  console :: "rmap_line list"

definition say :: "rmap_line \<Rightarrow> rmap \<Rightarrow> rmap" where
  "say t s = s\<lparr>console := console s @ [t]\<rparr>"

section \<open>The array of process ids\<close>

definition VM_NUM :: nat where "VM_NUM = 20"

definition init_pid_arr :: "rmap \<Rightarrow> rmap" where
  "init_pid_arr s = s\<lparr>pid_arr := map (\<lambda>i. - 1) [0..<VM_NUM]\<rparr>"

function exist_loop :: "int list \<Rightarrow> int \<Rightarrow> nat \<Rightarrow> nat" where
  "exist_loop arr n i =
     (if i < VM_NUM \<and> arr ! i \<noteq> - 1 \<and> arr ! i \<noteq> n then exist_loop arr n (i + 1) else i)"
  by pat_completeness auto
termination by (relation "measure (\<lambda>(arr, n, i). VM_NUM - i)") auto

definition check_exist :: "int \<Rightarrow> rmap \<Rightarrow> int" where
  "check_exist n s = (if exist_loop (pid_arr s) n 0 < VM_NUM then 1 else 0)"

text \<open>The loop of \<open>insert_arr\<close> reads the slot before it compares the index with the bound.\<close>

function insert_loop :: "int list \<Rightarrow> nat \<Rightarrow> nat result" where
  "insert_loop arr i =
     (if i \<ge> VM_NUM then Inl OutOfBounds
      else if arr ! i \<noteq> - 1 \<and> i < VM_NUM then insert_loop arr (i + 1) else Inr i)"
  by pat_completeness auto
termination by (relation "measure (\<lambda>(arr, i). VM_NUM - i)") auto

definition insert_arr :: "int \<Rightarrow> rmap \<Rightarrow> (int \<times> rmap) result" where
  "insert_arr n s =
     bind_result (insert_loop (pid_arr s) 0) (\<lambda>i.
       if i = VM_NUM then Inr (0, say LackOfPidArr s)
       else Inr (1, s\<lparr>pid_arr := (pid_arr s)[i := n]\<rparr>))"

declare exist_loop.simps [simp del] insert_loop.simps [simp del]

section \<open>Locking an anonymous page\<close>

definition page_lock_anon_vma_user :: "pages \<Rightarrow> u64 \<Rightarrow> rmap \<Rightarrow> (u64 \<times> rmap) result" where
  "page_lock_anon_vma_user K page s =
     (let s = s\<lparr>rcu := rcu s + 1\<rparr>;
          anon_mapping = page_mapping K page;
          out = (0, s\<lparr>rcu := rcu s - 1\<rparr>)
      in if and anon_mapping (anon_bit K) = 0 then Inr out
         else if \<not> page_mapped K page then Inr out
         else
           let anon_vma = anon_mapping - anon_bit K in
           if anon_vma = 0 then Inl NullDeref
           else Inr (anon_vma, s\<lparr>locked := anon_vma # locked s\<rparr>))"

definition page_unlock_anon_vma_user :: "u64 \<Rightarrow> rmap \<Rightarrow> rmap" where
  "page_unlock_anon_vma_user anon_vma s =
     (let s = s\<lparr>locked := remove1 anon_vma (locked s)\<rparr> in s\<lparr>rcu := rcu s - 1\<rparr>)"

section \<open>The processes of a page\<close>

definition sizeof_task_info :: u64 where "sizeof_task_info = 32"

definition info_live :: "rmap \<Rightarrow> u64 \<Rightarrow> bool" where
  "info_live s p \<longleftrightarrow> in_live (rheap s) p (unat sizeof_task_info)"

text \<open>The body of the loops over the areas; \<open>list_add\<close> writes into the node it pushes back.\<close>

definition add_task :: "pages \<Rightarrow> u64 \<Rightarrow> rmap \<Rightarrow> rmap result" where
  "add_task K vma s =
     (let mm = vm_mm (vmas K) vma;
          (new_task, h) = ask (allocator K) (Vmalloc sizeof_task_info) (rheap s);
          s = s\<lparr>rheap := h\<rparr>
      in if new_task = 0 \<or> mm = 0 \<or> mm_owner K mm = 0 then Inl NullDeref
         else if \<not> info_live s new_task then Inl OutOfBounds
         else
           let tsk = mm_owner K mm;
               s = s\<lparr>infos := (infos s)(new_task := \<lparr>info_pid = owner_pid K tsk, taskname = owner_comm K tsk\<rparr>)\<rparr>
           in if task_head s \<noteq> [] \<and> \<not> info_live s (hd (task_head s)) then Inl UseAfterFree
              else Inr (s\<lparr>task_head := new_task # task_head s\<rparr>))"

text \<open>
  The loop that prints and frees: after \<open>vfree\<close> of an element, \<open>list_for_each\<close> reads the link of
  that element to go on.
\<close>

fun print_infos :: "u64 list \<Rightarrow> rmap \<Rightarrow> rmap result" where
  "print_infos [] s = Inr s"
| "print_infos (temp # ps) s =
     (if \<not> info_live s temp then Inl UseAfterFree
      else
        let s = say (TaskLine (info_pid (infos s temp)) (taskname (infos s temp))) s in
        bind_result (give Vfree temp (rheap s)) (\<lambda>h.
        let s = s\<lparr>rheap := h\<rparr> in
        if \<not> info_live s temp then Inl UseAfterFree else print_infos ps s))"

definition page_locate_anon :: "pages \<Rightarrow> u64 \<Rightarrow> rmap \<Rightarrow> rmap result" where
  "page_locate_anon K page s =
     (let s = say AnonPage s in
      bind_result (page_lock_anon_vma_user K page s) (\<lambda>(anon_vma, s).
      if anon_vma = 0 then Inr s
      else bind_result (each_area (add_task K) (anon_list K anon_vma) s) (\<lambda>s.
        let s = page_unlock_anon_vma_user anon_vma s;
            s = init_pid_arr s;
            s = say RelatedTasks s
        in bind_result (print_infos (task_head s) s) (\<lambda>s. Inr (init_pid_arr s)))))"

definition page_locate_file :: "pages \<Rightarrow> u64 \<Rightarrow> rmap \<Rightarrow> rmap result option" where
  "page_locate_file K page s =
     (let mapping = page_mapping K page;
          pgoff = push_bit (page_cache_shift K - page_shift (vmas K)) (page_index K page);
          s = say FilePage s
      in map_option (\<lambda>r. bind_result r (\<lambda>s.
           let s = say RelatedTasks s in
           bind_result (print_infos (task_head s) s) (\<lambda>s. Inr (init_pid_arr s))))
         (vma_prio_tree_foreach_user (vmas K) (i_mmap K mapping) pgoff pgoff (add_task K) s))"

definition get_process_info :: "pages \<Rightarrow> u64 \<Rightarrow> rmap \<Rightarrow> rmap result option" where
  "get_process_info K paddr s =
     (let p = pfn_to_page K (drop_bit (page_shift (vmas K)) paddr) in
      if page_mapping K p = 0 then Some (Inr (say WillBeSwapped s))
      else if page_anon K p then Some (page_locate_anon K p s)
      else page_locate_file K p s)"

definition rmap_init :: int where "rmap_init = 0"

end
