(* ===== verification/Reverse_Mapping.thy ===== *)
theory Reverse_Mapping
  imports Rmap
begin

text \<open>
  The file /proc/rmap of mem_leak/reverse_mapping/reverse_mapping.c, which lists the owners of every
  page frame. The kernel around a page is the parameter \<open>pages\<close> of theory Rmap. The three kernel
  functions the module calls at fixed addresses are parameters too: \<open>lock_own\<close> is the answer of
  \<open>page_lock_anon_vma\<close> for a page, \<open>next_own\<close> is \<open>vma_prio_tree_next\<close>.
\<close>

record frames =
  totalram_pages :: u64
  pfn_valid :: "u64 \<Rightarrow> bool"
  lock_own :: "u64 \<Rightarrow> u64"
  next_own :: "u64 \<Rightarrow> prio_tree_iter \<Rightarrow> (u64 \<times> prio_tree_iter) result option"

datatype frame_line =
    SwapCache u64
  | Anonymous u64
  | Mapped u64
  | Owner int string

text \<open>What a call of the show function writes, and the area lists whose lock is held.\<close>

record seq_output =
  written :: "frame_line list"
  held_locks :: "u64 list"

definition seq_printf :: "frame_line \<Rightarrow> seq_output \<Rightarrow> seq_output" where
  "seq_printf l s = s\<lparr>written := written s @ [l]\<rparr>"

section \<open>Positions\<close>

text \<open>
  \<open>start\<close> converts the position to \<open>int\<close> first, and the comparison converts that back to 64 bits
  with its sign; the position is the number of a frame. \<open>next\<close> also gives the position left behind.
\<close>

definition handler_seq_start :: "frames \<Rightarrow> u64 \<Rightarrow> u64 option" where
  "handler_seq_start F pos = (if signed_take_bit 31 pos \<le> totalram_pages F then Some pos else None)"

definition handler_seq_next :: "frames \<Rightarrow> u64 \<Rightarrow> u64 option \<times> u64" where
  "handler_seq_next F pos =
     (let pos = pos + 1 in if pos \<le> totalram_pages F then (Some pos, pos) else (None, pos))"

section \<open>One frame\<close>

definition owner_line :: "pages \<Rightarrow> u64 \<Rightarrow> seq_output \<Rightarrow> seq_output result" where
  "owner_line K vma s =
     (let mm = vm_mm (vmas K) vma; page_owner = mm_owner K mm in
      if mm = 0 \<or> page_owner = 0 then Inl NullDeref
      else Inr (seq_printf (Owner (owner_pid K page_owner) (owner_comm K page_owner)) s))"

definition handler_seq_show :: "frames \<Rightarrow> pages \<Rightarrow> u64 \<Rightarrow> seq_output \<Rightarrow> seq_output result option" where
  "handler_seq_show F K pfn s =
     (if \<not> pfn_valid F pfn then Some (Inr s)
      else
        let valid_page = pfn_to_page K pfn in
        if page_mapping K valid_page = 0 then Some (Inr (seq_printf (SwapCache pfn) s))
        else if page_anon K valid_page then
          let s = seq_printf (Anonymous pfn) s; av = lock_own F valid_page in
          if av = 0 then Some (Inr s)
          else
            let s = s\<lparr>held_locks := av # held_locks s\<rparr> in
            Some (bind_result (each_area (owner_line K) (anon_list K av) s) (\<lambda>s.
              Inr (s\<lparr>held_locks := remove1 av (held_locks s)\<rparr>)))
        else
          let pgoff = push_bit (page_cache_shift K - page_shift (vmas K)) (page_index K valid_page);
              mapping = page_mapping K valid_page;
              s = seq_printf (Mapped pfn) s
          in foreach_loop (next_own F) (owner_line K) 0 (iter_init (vmas K) (i_mmap K mapping) pgoff pgoff) s)"

section \<open>The module\<close>

text \<open>Whether /proc/rmap exists; \<open>entry\<close> is whether \<open>create_proc_entry\<close> succeeds.\<close>

definition init_rmap :: "bool \<Rightarrow> bool \<Rightarrow> int \<times> bool" where
  "init_rmap entry file = (0, if entry then True else file)"

definition exit_rmap :: "bool \<Rightarrow> bool" where
  "exit_rmap file = False"

end
