(* ===== verification/Prio_Tree_Inv.thy ===== *)
theory Prio_Tree_Inv
  imports Prio_Tree "HOL-Library.Tree"
begin

text \<open>
  What a priority search tree is, as a tree of node addresses, and where the iterator stands in it:
  a path of crumbs from the node to the root determines the mask, the value and the level.
\<close>

section \<open>The tree in memory\<close>

definition radix :: "areas \<Rightarrow> tree_root \<Rightarrow> u64 \<Rightarrow> u64" where
  "radix K R x = (if raw R then RADIX_INDEX_USER K (prio_tree_entry K x) else node_start K x)"

definition heap_index :: "areas \<Rightarrow> tree_root \<Rightarrow> u64 \<Rightarrow> u64" where
  "heap_index K R x = (if raw R then HEAP_INDEX_USER K (prio_tree_entry K x) else node_last K x)"

lemma get_index_user_eq: "x \<noteq> 0 \<Longrightarrow> get_index_user K R x = Inr (radix K R x, heap_index K R x)"
  by (simp add: get_index_user_def radix_def heap_index_def Let_def)

definition hit :: "areas \<Rightarrow> tree_root \<Rightarrow> u64 \<Rightarrow> u64 \<Rightarrow> u64 \<Rightarrow> bool" where
  "hit K R lo hi x \<longleftrightarrow> radix K R x \<le> hi \<and> lo \<le> heap_index K R x"

text \<open>An empty side of a node points back at the node, by the documentation of the tree.\<close>

fun link :: "areas \<Rightarrow> u64 \<Rightarrow> u64 tree \<Rightarrow> bool \<Rightarrow> u64 \<Rightarrow> bool" where
  "link K x Leaf e p \<longleftrightarrow> e \<and> p = x"
| "link K x (Node _ y _) e p \<longleftrightarrow> \<not> e \<and> p = y \<and> node_parent K y = x \<and> \<not> is_root K y"

fun tree_mem :: "areas \<Rightarrow> u64 tree \<Rightarrow> bool" where
  "tree_mem K Leaf \<longleftrightarrow> True"
| "tree_mem K (Node l x r) \<longleftrightarrow> x \<noteq> 0 \<and> x \<notin> set_tree l \<and> x \<notin> set_tree r \<and> set_tree l \<inter> set_tree r = {} \<and>
     link K x l (left_empty K x) (node_left K x) \<and> link K x r (right_empty K x) (node_right K x) \<and>
     tree_mem K l \<and> tree_mem K r"

text \<open>
  The order: a node at depth \<open>d\<close> shares with the value \<open>v\<close> of its place the bits above the
  lowest \<open>b - d\<close> of its radix index, all of them from depth \<open>b\<close> on; heap indices do not grow
  downwards; there are at most 64 levels below the radix levels.
\<close>

definition right_value :: "nat \<Rightarrow> nat \<Rightarrow> u64 \<Rightarrow> u64" where
  "right_value b d v = (if d < b then or v (push_bit (b - 1 - d) 1) else v)"

fun search_ok :: "areas \<Rightarrow> tree_root \<Rightarrow> nat \<Rightarrow> nat \<Rightarrow> u64 \<Rightarrow> u64 tree \<Rightarrow> bool" where
  "search_ok K R b d v Leaf \<longleftrightarrow> True"
| "search_ok K R b d v (Node l x r) \<longleftrightarrow>
     drop_bit (b - d) (radix K R x) = drop_bit (b - d) v \<and>
     (\<forall>y\<in>set_tree l \<union> set_tree r. heap_index K R y \<le> heap_index K R x) \<and>
     (d < b + 64 \<or> l = Leaf \<and> r = Leaf) \<and>
     search_ok K R b (Suc d) v l \<and> search_ok K R b (Suc d) (right_value b d v) r"

section \<open>Values of a place\<close>

lemma low_zero_bit: "take_bit n v = (0 :: u64) \<Longrightarrow> i < n \<Longrightarrow> \<not> bit v i"
  by (metis bit_0_eq bit_take_bit_iff bot_apply bot_bool_def)

lemma low_zero_right:
  assumes "take_bit (b - d) v = 0"
  shows "take_bit (b - Suc d) (right_value b d v) = 0" and "take_bit (b - Suc d) v = 0"
    and "drop_bit (b - d) (right_value b d v) = drop_bit (b - d) v"
proof -
  note z = low_zero_bit [OF assms]
  show "take_bit (b - Suc d) v = 0" by (rule bit_eqI) (use z in \<open>auto simp: bit_take_bit_iff\<close>)
  show "take_bit (b - Suc d) (right_value b d v) = 0"
    by (rule bit_eqI) (use z in \<open>auto simp: bit_simps right_value_def\<close>)
  show "drop_bit (b - d) (right_value b d v) = drop_bit (b - d) v"
    by (rule bit_eqI) (auto simp: bit_simps right_value_def)
qed

lemma prefix_bit: "drop_bit n w = drop_bit n v \<Longrightarrow> n \<le> i \<Longrightarrow> bit w i \<longleftrightarrow> bit (v :: u64) i"
proof -
  assume "drop_bit n w = drop_bit n v" and "n \<le> i"
  then have "bit (drop_bit n w) (i - n) \<longleftrightarrow> bit (drop_bit n v) (i - n)" by simp
  with \<open>n \<le> i\<close> show ?thesis by (simp add: bit_drop_bit_eq)
qed

lemma prefix_le:
  fixes v w :: u64
  assumes "take_bit n v = 0" and "drop_bit n w = drop_bit n v"
  shows "v \<le> w"
proof -
  have "or v w = w"
  proof (rule bit_eqI)
    fix i
    show "bit (or v w) i \<longleftrightarrow> bit w i"
      using low_zero_bit [OF assms(1), of i] prefix_bit [OF assms(2), of i]
      by (cases "i < n") (auto simp: bit_or_iff)
  qed
  with le_word_or2 [of v w] show ?thesis by simp
qed

lemma drop_bit_less:
  fixes v w :: u64
  assumes "drop_bit n w < drop_bit n v"
  shows "w < v"
proof (rule ccontr)
  assume "\<not> w < v"
  then have "unat v div 2 ^ n \<le> unat w div 2 ^ n" by (intro div_le_mono) (simp add: not_less word_le_nat_alt)
  moreover have "unat w div 2 ^ n < unat v div 2 ^ n"
    using assms unfolding word_less_nat_alt unat_drop_bit_eq by (simp add: drop_bit_eq_div)
  ultimately show False by simp
qed

lemma prefix_less:
  fixes v w :: u64
  assumes "\<not> bit v n" and "drop_bit n w = drop_bit n v" and "n < 64"
  shows "w < or v (push_bit n 1)"
proof (rule drop_bit_less)
  have "drop_bit n (or v (push_bit n 1)) = or (drop_bit n v) (drop_bit n (push_bit n 1))"
    by (rule drop_bit_or)
  then have "drop_bit n v \<le> drop_bit n (or v (push_bit n 1))" by (simp add: le_word_or2)
  moreover have "\<not> bit (drop_bit n v) 0" "bit (drop_bit n (or v (push_bit n 1))) 0"
    using assms by (simp_all add: bit_simps)
  ultimately show "drop_bit n w < drop_bit n (or v (push_bit n 1))" unfolding assms(2) by (metis order_le_less)
qed

text \<open>All nodes of a subtree share the prefix of its place, so those on the left come first.\<close>

lemma search_prefix:
  "search_ok K R b d v t \<Longrightarrow> take_bit (b - d) v = 0 \<Longrightarrow> x \<in> set_tree t \<Longrightarrow>
     drop_bit (b - d) (radix K R x) = drop_bit (b - d) v"
proof (induction t arbitrary: d v)
  case (Node l y r)
  note low = low_zero_right [OF Node.prems(2)]
  have up: "drop_bit (b - d) u = drop_bit (b - d) w" if "drop_bit (b - Suc d) u = drop_bit (b - Suc d) w" for u w :: u64
    by (rule bit_eqI) (use prefix_bit [OF that] in \<open>simp add: bit_drop_bit_eq\<close>)
  from Node.prems(3) consider "x = y" | "x \<in> set_tree l" | "x \<in> set_tree r" by auto
  then show ?case
  proof cases
    case 1
    with Node.prems(1) show ?thesis by simp
  next
    case 2
    with Node.prems(1) have "drop_bit (b - Suc d) (radix K R x) = drop_bit (b - Suc d) v"
      by (intro Node.IH(1) low) simp_all
    then show ?thesis by (rule up)
  next
    case 3
    with Node.prems(1) have "drop_bit (b - Suc d) (radix K R x) = drop_bit (b - Suc d) (right_value b d v)"
      by (intro Node.IH(2) low) simp_all
    then show ?thesis unfolding low(3) [symmetric] by (rule up)
  qed
qed simp

lemma right_radix:
  assumes "search_ok K R b d v (Node l x r)" and "take_bit (b - d) v = 0" and "y \<in> set_tree r"
  shows "right_value b d v \<le> radix K R y"
proof -
  have "drop_bit (b - Suc d) (radix K R y) = drop_bit (b - Suc d) (right_value b d v)"
    using assms by (intro search_prefix [of K R b "Suc d" _ r] low_zero_right(1)) simp_all
  with low_zero_right(1) [OF assms(2)] show ?thesis by (rule prefix_le)
qed

lemma left_radix:
  assumes "search_ok K R b d v (Node l x r)" and "take_bit (b - d) v = 0" and "b \<le> 64" and "y \<in> set_tree l"
  shows "radix K R y \<le> right_value b d v"
proof -
  have p: "drop_bit (b - Suc d) (radix K R y) = drop_bit (b - Suc d) v"
    using assms by (intro search_prefix [of K R b "Suc d" _ l] low_zero_right(2)) simp_all
  show ?thesis
  proof (cases "d < b")
    case True
    then have "b - Suc d < b - d" "b - Suc d < 64" using assms(3) by simp_all
    from low_zero_bit [OF assms(2) this(1)] p this(2)
    have "radix K R y < or v (push_bit (b - Suc d) 1)" by (rule prefix_less)
    with True show ?thesis by (simp add: right_value_def)
  next
    case False
    with p show ?thesis by (simp add: right_value_def)
  qed
qed

lemma left_before_right:
  assumes "search_ok K R b d v (Node l x r)" and "take_bit (b - d) v = 0" and "b \<le> 64"
    and "y \<in> set_tree l" and "z \<in> set_tree r"
  shows "radix K R y \<le> radix K R z"
  using left_radix [OF assms(1-4)] right_radix [OF assms(1,2,5)] by (rule order_trans)

end
