(* ===== verification/Prio_Tree_Iter.thy ===== *)
theory Prio_Tree_Iter
  imports Prio_Tree_Inv
begin

text \<open>
  Where the iterator stands, and that each move of the code goes to the place it should: the left or
  right child when it may hold an answer, the parent on the way up.
\<close>

section \<open>Places\<close>

text \<open>The way from a node up to the root, innermost step first.\<close>

datatype crumb = WentLeft u64 "u64 tree" | WentRight "u64 tree" u64

fun plug :: "crumb list \<Rightarrow> u64 tree \<Rightarrow> u64 tree" where
  "plug [] t = t"
| "plug (WentLeft x r # c) t = plug c (Node t x r)"
| "plug (WentRight l x # c) t = plug c (Node l x t)"

fun value_at :: "nat \<Rightarrow> crumb list \<Rightarrow> u64" where
  "value_at b [] = 0"
| "value_at b (WentLeft x r # c) = value_at b c"
| "value_at b (WentRight l x # c) = right_value b (length c) (value_at b c)"

definition mask_at :: "nat \<Rightarrow> nat \<Rightarrow> u64" where
  "mask_at b d = (if d < b then push_bit (b - 1 - d) 1
     else if d < b + 64 then push_bit (63 - (d - b)) 1 else - 1)"

definition level_at :: "nat \<Rightarrow> nat \<Rightarrow> nat" where
  "level_at b d = (if d < b then 0 else d - b + 1)"

definition here :: "nat \<Rightarrow> tree_root \<Rightarrow> u64 \<Rightarrow> u64 \<Rightarrow> crumb list \<Rightarrow> u64 \<Rightarrow> prio_tree_iter" where
  "here b R lo hi c x = \<lparr>it_cur = x, it_mask = mask_at b (length c), it_value = value_at b c,
     size_level = level_at b (length c), it_root = R, r_index = lo, h_index = hi\<rparr>"

lemma here_simps [simp]:
  "it_cur (here b R lo hi c x) = x" "it_root (here b R lo hi c x) = R"
  "r_index (here b R lo hi c x) = lo" "h_index (here b R lo hi c x) = hi"
  by (simp_all add: here_def)

lemma overlap_here: "overlap_user (here b R lo hi c x) (radix K R y) (heap_index K R y) \<longleftrightarrow> hit K R lo hi y"
  by (simp add: overlap_user_def hit_def)

definition placed :: "areas \<Rightarrow> tree_root \<Rightarrow> nat \<Rightarrow> crumb list \<Rightarrow> u64 tree \<Rightarrow> bool" where
  "placed K R b c t \<longleftrightarrow> tree_mem K (plug c t) \<and> search_ok K R b 0 0 (plug c t) \<and> 0 < b \<and> b \<le> 64"

lemma placed_step [simp]:
  "placed K R b (WentLeft x r # c) t \<longleftrightarrow> placed K R b c (Node t x r)"
  "placed K R b (WentRight l x # c) t \<longleftrightarrow> placed K R b c (Node l x t)"
  by (simp_all add: placed_def)

lemma plug_tree_mem: "tree_mem K (plug c t) \<Longrightarrow> tree_mem K t"
proof (induction c arbitrary: t)
  case (Cons s c)
  then show ?case by (cases s) fastforce+
qed simp

lemma plug_search:
  "search_ok K R b 0 0 (plug c t) \<Longrightarrow> search_ok K R b (length c) (value_at b c) t"
proof (induction c arbitrary: t)
  case (Cons s c)
  then show ?case by (cases s) fastforce+
qed simp

lemma value_low: "take_bit (b - length c) (value_at b c) = 0"
proof (induction c)
  case (Cons s c)
  then show ?case by (cases s) (auto intro: low_zero_right)
qed simp

lemma placed_local:
  assumes "placed K R b c t"
  shows "tree_mem K t" and "search_ok K R b (length c) (value_at b c) t" and "0 < b" and "b \<le> 64"
  using assms plug_tree_mem [of K c t] plug_search [of K R b c t] by (auto simp: placed_def)

section \<open>Moves\<close>

lemma shift_one: "0 < k \<Longrightarrow> k < 64 \<Longrightarrow> drop_bit 1 (push_bit k (1 :: u64)) = push_bit (k - 1) 1"
  by (rule bit_eqI) (auto simp: bit_simps)

lemma shift_out: "drop_bit 1 (push_bit 0 (1 :: u64)) = 0"
  by simp

lemma power_nonzero: "k < 64 \<Longrightarrow> push_bit k (1 :: u64) \<noteq> 0"
proof
  assume "k < 64" and "push_bit k (1 :: u64) = 0"
  then have "\<not> bit (push_bit k (1 :: u64)) k" by simp
  with \<open>k < 64\<close> show False by (simp add: bit_simps)
qed

lemma mask_down:
  assumes "0 < b" and "b \<le> 64" and "d < b + 64"
  shows "drop_bit 1 (mask_at b d) = (if d + 1 = b \<or> d + 1 = b + 64 then 0 else mask_at b (Suc d))"
  using assms shift_one [of "b - 1 - d"] shift_one [of "63 - (d - b)"] shift_out
  by (auto simp: mask_at_def Suc_diff_le)

lemma mask_nonzero: "b \<le> 64 \<Longrightarrow> mask_at b d \<noteq> 0"
  by (auto simp: mask_at_def power_nonzero)

lemma move_down_here:
  assumes "0 < b" and "b \<le> 64" and "length c < b + 64"
    and "length c + 1 = b + 64 \<Longrightarrow> left_empty K y \<and> right_empty K y"
  shows "move_down K y (here b R lo hi c x\<lparr>it_value := v\<rparr>) =
    Inr (here b R lo hi c x\<lparr>it_value := v, it_cur := y, it_mask := mask_at b (Suc (length c)),
      size_level := level_at b (Suc (length c))\<rparr>)"
proof -
  consider (radix) "length c + 1 < b" | (turn) "length c + 1 = b"
    | (size) "b \<le> length c" "length c + 1 < b + 64" | (last) "length c + 1 = b + 64"
    using assms(3) by linarith
  then show ?thesis
  proof cases
    case last
    then have "level_at b (length c) \<noteq> 0" by (simp add: level_at_def)
    with last show ?thesis
      using assms(1,4) mask_down [OF assms(1-3)]
      by (simp add: move_down_def here_def Let_def level_at_def mask_at_def)
  next
    case turn
    then show ?thesis using mask_down [OF assms(1-3)]
      by (simp add: move_down_def here_def Let_def level_at_def mask_at_def)
  qed (use mask_nonzero [OF assms(2)] mask_down [OF assms(1-3)] in
      \<open>auto simp: move_down_def here_def Let_def level_at_def\<close>)
qed

lemma left_here:
  assumes "placed K R b c (Node l x r)"
  shows "prio_tree_left_user K (here b R lo hi c x) =
    Inr (case l of Leaf \<Rightarrow> None
         | Node ll y lr \<Rightarrow>
             if lo \<le> heap_index K R y
             then Some ((radix K R y, heap_index K R y), here b R lo hi (WentLeft x r # c) y) else None)"
proof (cases l)
  case Leaf
  with placed_local(1) [OF assms] show ?thesis by (simp add: prio_tree_left_user_def)
next
  case (Node ll y lr)
  note loc = placed_local [OF assms]
  have y: "y \<noteq> 0" "node_left K x = y" "\<not> left_empty K x" using loc(1) Node by simp_all
  have d: "length c < b + 64" using loc(2) Node by auto
  have "left_empty K y \<and> right_empty K y" if "length c + 1 = b + 64"
    using loc(1,2) that unfolding Node by (cases ll; cases lr) auto
  from move_down_here [OF loc(3,4) d this, where v = "value_at b c"] y
  show ?thesis unfolding Node
    by (simp add: prio_tree_left_user_def get_index_user_eq) (simp add: here_def)
qed

lemma right_here:
  assumes "placed K R b c (Node l x r)"
  shows "prio_tree_right_user K (here b R lo hi c x) =
    Inr (case r of Leaf \<Rightarrow> None
         | Node rl y rr \<Rightarrow>
             if \<not> hi < right_value b (length c) (value_at b c) \<and> lo \<le> heap_index K R y
             then Some ((radix K R y, heap_index K R y), here b R lo hi (WentRight l x # c) y) else None)"
proof (cases r)
  case Leaf
  with placed_local(1) [OF assms] show ?thesis by (simp add: prio_tree_right_user_def)
next
  case (Node rl y rr)
  note loc = placed_local [OF assms]
  have y: "y \<noteq> 0" "node_right K x = y" "\<not> right_empty K x" using loc(1) Node by simp_all
  have d: "length c < b + 64" using loc(2) Node by auto
  have "left_empty K y \<and> right_empty K y" if "length c + 1 = b + 64"
    using loc(1,2) that unfolding Node by (cases rl; cases rr) auto
  note down = move_down_here [OF loc(3,4) d this, where v = "right_value b (length c) (value_at b c)"]
  have v: "(if size_level (here b R lo hi c x) \<noteq> 0 then it_value (here b R lo hi c x)
      else or (it_value (here b R lo hi c x)) (it_mask (here b R lo hi c x))) =
    right_value b (length c) (value_at b c)"
    by (simp add: here_def level_at_def mask_at_def right_value_def)
  show ?thesis unfolding Node prio_tree_right_user_def v Let_def
    using y down by (simp add: get_index_user_eq) (simp add: here_def)
qed

lemma power_not_ones: "push_bit k (1 :: u64) \<noteq> - 1"
proof
  assume a: "push_bit k (1 :: u64) = - 1"
  have "bit (- 1 :: u64) 0" "bit (- 1 :: u64) 1" by simp_all
  with a have "bit (push_bit k (1 :: u64)) 0" "bit (push_bit k (1 :: u64)) 1" by simp_all
  then show False by (auto simp: bit_simps)
qed

lemma power_not_ones' [simp]: "(2 :: u64) ^ k \<noteq> - 1"
  using power_not_ones [of k] by (simp only: push_bit_of_1 not_False_eq_True)

lemma shift_up: "Suc k = n \<Longrightarrow> (2 :: u64) ^ k * 2 = 2 ^ n"
  by auto

lemma mask_up:
  assumes "0 < b" and "d < b + 64"
  shows "(if mask_at b (Suc d) = - 1 then 1 else if level_at b (Suc d) = 1 then 1
     else push_bit 1 (mask_at b (Suc d))) = mask_at b d"
proof -
  consider "Suc d < b" | "Suc d = b" | "b \<le> d" "Suc d < b + 64" | "Suc d = b + 64"
    using assms(2) by linarith
  then show ?thesis
  proof cases
    case 1
    then have "Suc (b - Suc (Suc d)) = b - Suc d" by simp
    from shift_up [OF this] 1 show ?thesis
      by (simp add: mask_at_def level_at_def power_not_ones)
  next
    case 3
    then have "Suc (63 - (Suc d - b)) = 63 - (d - b)" by simp
    from shift_up [OF this] 3 show ?thesis
      by (simp add: mask_at_def level_at_def power_not_ones)
  qed (use assms in \<open>auto simp: mask_at_def level_at_def power_not_ones\<close>)
qed

lemma value_up:
  assumes "b \<le> 64"
  shows "(if level_at b (length c) = 0 \<and> and (value_at b (s # c)) (mask_at b (length c)) \<noteq> 0
     then xor (value_at b (s # c)) (mask_at b (length c)) else value_at b (s # c)) = value_at b c"
proof (cases "length c < b")
  case True
  let ?m = "push_bit (b - 1 - length c) (1 :: u64)" and ?v = "value_at b c"
  have m: "mask_at b (length c) = ?m" "level_at b (length c) = 0"
    using True by (simp_all add: mask_at_def level_at_def)
  have z: "\<not> bit ?v (b - 1 - length c)" using low_zero_bit [OF value_low] True by simp
  have "and ?v ?m = 0" by (rule bit_eqI) (use z in \<open>auto simp: bit_simps\<close>)
  moreover have "and (or ?v ?m) ?m = ?m" by (rule bit_eqI) (auto simp: bit_simps)
  moreover have "xor (or ?v ?m) ?m = ?v" by (rule bit_eqI) (use z in \<open>auto simp: bit_simps\<close>)
  moreover have "?m \<noteq> 0" using True assms by (intro power_nonzero) simp
  ultimately show ?thesis using True by (cases s) (simp_all add: m right_value_def)
next
  case False
  then show ?thesis by (cases s) (simp_all add: level_at_def right_value_def)
qed

lemma parent_here:
  assumes "0 < b" and "b \<le> 64" and "length c < b + 64" and "node_parent K y = x"
  shows "prio_tree_parent_user K (here b R lo hi (s # c) y) = here b R lo hi c x"
proof -
  have l: "(if level_at b (Suc (length c)) \<noteq> 0 then level_at b (Suc (length c)) - 1
      else level_at b (Suc (length c))) = level_at b (length c)"
    by (auto simp: level_at_def)
  have "prio_tree_parent_user K (here b R lo hi (s # c) y) =
    \<lparr>it_cur = node_parent K y,
     it_mask = (if mask_at b (Suc (length c)) = - 1 then 1 else if level_at b (Suc (length c)) = 1 then 1
       else push_bit 1 (mask_at b (Suc (length c)))),
     it_value = (if level_at b (length c) = 0 \<and> and (value_at b (s # c)) (mask_at b (length c)) \<noteq> 0
       then xor (value_at b (s # c)) (mask_at b (length c)) else value_at b (s # c)),
     size_level = level_at b (length c), it_root = R, r_index = lo, h_index = hi\<rparr>"
    using mask_up [OF assms(1,3)] l
    by (auto simp: prio_tree_parent_user_def here_def Let_def split: if_splits)
  then show ?thesis unfolding mask_up [OF assms(1,3)] value_up [OF assms(2)] assms(4)
    by (simp add: here_def)
qed

end
