(* ===== verification/Prio_Tree_Walk.thy ===== *)
theory Prio_Tree_Walk
  imports Prio_Tree_Iter
begin

text \<open>
  The loops of the iteration: the first and every next node are the nodes of the tree that the
  query overlaps, in preorder, and every loop ends.
\<close>

section \<open>What is still to come\<close>

definition picks :: "areas \<Rightarrow> tree_root \<Rightarrow> u64 \<Rightarrow> u64 \<Rightarrow> u64 tree \<Rightarrow> u64 list" where
  "picks K R lo hi t = filter (hit K R lo hi) (preorder t)"

lemma picks_simps [simp]:
  "picks K R lo hi Leaf = []"
  "picks K R lo hi (Node l x r) =
     (if hit K R lo hi x then [x] else []) @ picks K R lo hi l @ picks K R lo hi r"
  by (simp_all add: picks_def)

lemma picks_empty: "(\<And>x. x \<in> set_tree t \<Longrightarrow> \<not> hit K R lo hi x) \<Longrightarrow> picks K R lo hi t = []"
  by (simp add: picks_def filter_empty_conv)

lemma picks_emptyD: "picks K R lo hi t = [] \<Longrightarrow> x \<in> set_tree t \<Longrightarrow> \<not> hit K R lo hi x"
  by (simp add: picks_def filter_empty_conv)

fun rest :: "areas \<Rightarrow> tree_root \<Rightarrow> u64 \<Rightarrow> u64 \<Rightarrow> crumb list \<Rightarrow> u64 list" where
  "rest K R lo hi [] = []"
| "rest K R lo hi (WentLeft x r # c) = picks K R lo hi r @ rest K R lo hi c"
| "rest K R lo hi (WentRight l x # c) = rest K R lo hi c"

fun unseen :: "crumb list \<Rightarrow> nat" where
  "unseen [] = 0"
| "unseen (WentLeft x r # c) = size r + unseen c"
| "unseen (WentRight l x # c) = unseen c"

text \<open>A subtree whose top reaches less far than the query holds no answer; neither does a right
  subtree behind the query's end.\<close>

lemma picks_below:
  assumes "search_ok K R b d v (Node l x r)" and "\<not> lo \<le> heap_index K R x"
  shows "picks K R lo hi (Node l x r) = []"
proof (rule picks_empty)
  fix y assume "y \<in> set_tree (Node l x r)"
  then have "heap_index K R y \<le> heap_index K R x" using assms(1) by auto
  with assms(2) show "\<not> hit K R lo hi y" by (auto simp: hit_def)
qed

lemma picks_behind:
  assumes "placed K R b c (Node l x r)" and "hi < right_value b (length c) (value_at b c)"
  shows "picks K R lo hi r = []"
proof (rule picks_empty)
  fix y assume "y \<in> set_tree r"
  from right_radix [OF placed_local(2) [OF assms(1)] value_low this] assms(2)
  show "\<not> hit K R lo hi y" by (auto simp: hit_def)
qed

section \<open>The first node\<close>

text \<open>
  The search stands at a node of a subtree with answers: it ends at the first of them. From a
  subtree without answers it ends with the null pointer.
\<close>

definition stops_at ::
  "areas \<Rightarrow> tree_root \<Rightarrow> nat \<Rightarrow> u64 \<Rightarrow> u64 \<Rightarrow> u64 tree \<Rightarrow> u64 list \<Rightarrow> u64 \<Rightarrow> crumb list \<Rightarrow> u64 tree \<Rightarrow> u64 tree \<Rightarrow> bool"
where
  "stops_at K R b lo hi whole ys y c l r \<longleftrightarrow>
     plug c (Node l y r) = whole \<and> hit K R lo hi y \<and>
     ys = y # picks K R lo hi l @ picks K R lo hi r @ rest K R lo hi c"

definition first_at ::
  "areas \<Rightarrow> tree_root \<Rightarrow> nat \<Rightarrow> u64 \<Rightarrow> u64 \<Rightarrow> crumb list \<Rightarrow> u64 tree \<Rightarrow>
     (u64 \<times> prio_tree_iter) result option \<Rightarrow> bool"
where
  "first_at K R b lo hi c t F \<longleftrightarrow>
     (if picks K R lo hi t = [] then \<exists>it. F = Some (Inr (0, it))
      else \<exists>y c' l r. F = Some (Inr (y, here b R lo hi c' y)) \<and>
             stops_at K R b lo hi (plug c t) (picks K R lo hi t @ rest K R lo hi c) y c' l r)"

lemma first_at_left:
  assumes "first_at K R b lo hi (WentLeft x r # c) l F" and "\<not> hit K R lo hi x"
    and "picks K R lo hi l = [] \<Longrightarrow> picks K R lo hi r = []"
  shows "first_at K R b lo hi c (Node l x r) F"
  using assms by (cases "picks K R lo hi l = []") (simp_all add: first_at_def)

lemma first_at_right:
  assumes "first_at K R b lo hi (WentRight l x # c) r F" and "\<not> hit K R lo hi x"
    and "picks K R lo hi l = []"
  shows "first_at K R b lo hi c (Node l x r) F"
  using assms by (cases "picks K R lo hi r = []") (simp_all add: first_at_def)

text \<open>What the two moves decide, and that a move that is refused misses nothing.\<close>

lemma left_cases:
  assumes "placed K R b c (Node l x r)"
  obtains (taken) ll y lr where "l = Node ll y lr" "lo \<le> heap_index K R y"
      "prio_tree_left_user K (here b R lo hi c x) =
         Inr (Some ((radix K R y, heap_index K R y), here b R lo hi (WentLeft x r # c) y))"
  | (refused) "picks K R lo hi l = []" "prio_tree_left_user K (here b R lo hi c x) = Inr None"
proof (cases l)
  case Leaf
  then show ?thesis using left_here [OF assms] by (intro refused) simp_all
next
  case (Node ll y lr)
  show ?thesis
  proof (cases "lo \<le> heap_index K R y")
    case True
    with Node show ?thesis using left_here [OF assms, of lo hi] by (intro taken) simp_all
  next
    case False
    from placed_local(2) [OF assms] Node
    have "search_ok K R b (Suc (length c)) (value_at b c) (Node ll y lr)" by simp
    from picks_below [OF this False] Node False show ?thesis
      using left_here [OF assms, of lo hi] by (intro refused) simp_all
  qed
qed

lemma right_cases:
  assumes "placed K R b c (Node l x r)"
  obtains (taken) rl y rr where "r = Node rl y rr" "lo \<le> heap_index K R y"
      "prio_tree_right_user K (here b R lo hi c x) =
         Inr (Some ((radix K R y, heap_index K R y), here b R lo hi (WentRight l x # c) y))"
  | (refused) "picks K R lo hi r = []" "prio_tree_right_user K (here b R lo hi c x) = Inr None"
proof (cases r)
  case Leaf
  then show ?thesis using right_here [OF assms] by (intro refused) simp_all
next
  case (Node rl y rr)
  show ?thesis
  proof (cases "hi < right_value b (length c) (value_at b c)")
    case True
    from picks_behind [OF assms True] True Node show ?thesis
      using right_here [OF assms, of lo hi] by (intro refused) simp_all
  next
    case behind: False
    show ?thesis
    proof (cases "lo \<le> heap_index K R y")
      case True
      with Node behind show ?thesis using right_here [OF assms, of lo hi] by (intro taken) simp_all
    next
      case False
      from placed_local(2) [OF assms] Node
      have "search_ok K R b (Suc (length c)) (right_value b (length c) (value_at b c)) (Node rl y rr)" by simp
      from picks_below [OF this False] Node False show ?thesis
        using right_here [OF assms, of lo hi] by (intro refused) simp_all
    qed
  qed
qed

text \<open>When the search has gone left and finds nothing there, the right side holds nothing either.\<close>

lemma nothing_right:
  assumes "placed K R b c (Node l x r)" and "l = Node ll y lr" and "lo \<le> heap_index K R y"
    and "picks K R lo hi l = []"
  shows "picks K R lo hi r = []"
proof (rule picks_empty)
  fix z assume z: "z \<in> set_tree r"
  note loc = placed_local [OF assms(1)]
  have "\<not> hit K R lo hi y" using picks_emptyD [OF assms(4), of y] assms(2) by simp
  then have "hi < radix K R y" using assms(3) by (auto simp: hit_def)
  also have "\<dots> \<le> radix K R z"
    using left_before_right [OF loc(2) value_low loc(4), of y z] assms(2) z by simp
  finally show "\<not> hit K R lo hi z" by (auto simp: hit_def)
qed

lemma first_loop_ok:
  assumes "placed K R b c t" and "t = Node l x r" and "lo \<le> heap_index K R x"
  shows "first_at K R b lo hi c t (first_loop K (radix K R x, heap_index K R x) (here b R lo hi c x))"
  using assms
proof (induction t arbitrary: c l x r)
  case Leaf
  then show ?case by simp
next
  case (Node l0 x0 r0)
  from Node.prems(2) have eq: "l0 = l" "x0 = x" "r0 = r" by simp_all
  note IH = Node.IH [unfolded eq]
  from Node.prems(1) have p: "placed K R b c (Node l x r)" by (simp add: eq)
  note unf = first_loop.simps [of K "(radix K R x, heap_index K R x)" "here b R lo hi c x"] overlap_here
  show ?case
  proof (cases "hit K R lo hi x")
    case True
    then have "stops_at K R b lo hi (plug c (Node l x r)) (picks K R lo hi (Node l x r) @ rest K R lo hi c) x c l r"
      by (simp add: stops_at_def)
    with True show ?thesis unfolding Node.prems(2) by (simp add: unf first_at_def) blast
  next
    case miss: False
    show ?thesis
    proof (rule left_cases [OF p, of lo hi])
      fix ll y lr
      assume l: "l = Node ll y lr" "lo \<le> heap_index K R y" "prio_tree_left_user K (here b R lo hi c x) =
         Inr (Some ((radix K R y, heap_index K R y), here b R lo hi (WentLeft x r # c) y))"
      have "placed K R b (WentLeft x r # c) l" using p by simp
      from IH(1) [OF this l(1,2)] have
        "first_at K R b lo hi c (Node l x r) (first_loop K (radix K R y, heap_index K R y) (here b R lo hi (WentLeft x r # c) y))"
        by (rule first_at_left) (use miss nothing_right [OF p l(1,2)] in auto)
      with miss l(3) show ?thesis unfolding Node.prems(2) by (simp add: unf)
    next
      assume l: "picks K R lo hi l = []" "prio_tree_left_user K (here b R lo hi c x) = Inr None"
      show ?thesis
      proof (rule right_cases [OF p, of lo hi])
        fix rl y rr
        assume r: "r = Node rl y rr" "lo \<le> heap_index K R y" "prio_tree_right_user K (here b R lo hi c x) =
           Inr (Some ((radix K R y, heap_index K R y), here b R lo hi (WentRight l x # c) y))"
        have "placed K R b (WentRight l x # c) r" using p by simp
        from IH(2) [OF this r(1,2)] have
          "first_at K R b lo hi c (Node l x r) (first_loop K (radix K R y, heap_index K R y) (here b R lo hi (WentRight l x # c) y))"
          by (rule first_at_right) (use miss l in auto)
        with miss l(2) r(3) show ?thesis unfolding Node.prems(2) by (simp add: unf)
      next
        assume "picks K R lo hi r = []" "prio_tree_right_user K (here b R lo hi c x) = Inr None"
        with miss l show ?thesis unfolding Node.prems(2) by (simp add: unf first_at_def)
      qed
    qed
  qed
qed

section \<open>The next node\<close>

text \<open>
  Standing at a node: the answers \<open>ys\<close> are still to come, and at most \<open>n\<close> nodes of the tree
  have not been passed.
\<close>

definition stands ::
  "areas \<Rightarrow> tree_root \<Rightarrow> u64 \<Rightarrow> u64 \<Rightarrow> u64 tree \<Rightarrow> u64 list \<Rightarrow> nat \<Rightarrow> crumb list \<Rightarrow> u64 \<Rightarrow> bool"
where
  "stands K R lo hi whole ys n c x \<longleftrightarrow>
     (\<exists>l r. plug c (Node l x r) = whole \<and> ys = picks K R lo hi l @ picks K R lo hi r @ rest K R lo hi c \<and>
        size l + size r + unseen c \<le> n)"

lemma standsI:
  "plug c (Node l x r) = whole \<Longrightarrow> ys = picks K R lo hi l @ picks K R lo hi r @ rest K R lo hi c \<Longrightarrow>
     size l + size r + unseen c \<le> n \<Longrightarrow> stands K R lo hi whole ys n c x"
  unfolding stands_def by blast

lemma stands_mono: "stands K R lo hi whole ys m c x \<Longrightarrow> m \<le> n \<Longrightarrow> stands K R lo hi whole ys n c x"
  unfolding stands_def using le_trans by blast

text \<open>A node has been found, fewer than \<open>n\<close> nodes are unseen; nothing on the left is left to find.\<close>

inductive found_at ::
  "areas \<Rightarrow> tree_root \<Rightarrow> u64 \<Rightarrow> u64 \<Rightarrow> u64 tree \<Rightarrow> u64 list \<Rightarrow> nat \<Rightarrow> crumb list \<Rightarrow> u64 \<Rightarrow> bool"
for K R lo hi whole
where
  found_atI: "hit K R lo hi y \<Longrightarrow> stands K R lo hi whole ys m c y \<Longrightarrow> m < n \<Longrightarrow>
     found_at K R lo hi whole (y # ys) n c y"

inductive left_out ::
  "areas \<Rightarrow> tree_root \<Rightarrow> nat \<Rightarrow> u64 \<Rightarrow> u64 \<Rightarrow> u64 tree \<Rightarrow> u64 list \<Rightarrow> nat \<Rightarrow>
     (bool \<times> prio_tree_iter) result option \<Rightarrow> bool"
for K R b lo hi whole
where
  left_found: "found_at K R lo hi whole ys n c y \<Longrightarrow>
     left_out K R b lo hi whole ys n (Some (Inr (True, here b R lo hi c y)))"
| left_none: "plug c (Node l y r) = whole \<Longrightarrow> ys = picks K R lo hi r @ rest K R lo hi c \<Longrightarrow>
     size r + unseen c \<le> n \<Longrightarrow> left_out K R b lo hi whole ys n (Some (Inr (False, here b R lo hi c y)))"

lemma found_at_mono: "found_at K R lo hi whole ys m c y \<Longrightarrow> m \<le> n \<Longrightarrow> found_at K R lo hi whole ys n c y"
  by (induction rule: found_at.induct) (rule found_atI, auto)

lemma left_out_mono: "left_out K R b lo hi whole ys m F \<Longrightarrow> m \<le> n \<Longrightarrow> left_out K R b lo hi whole ys n F"
  by (induction rule: left_out.induct) (auto intro: left_found found_at_mono left_none)

text \<open>Going left as long as nothing is found.\<close>

lemma left_loop_ok:
  assumes "placed K R b c (Node l x r)"
  shows "left_out K R b lo hi (plug c (Node l x r)) (picks K R lo hi l @ picks K R lo hi r @ rest K R lo hi c)
    (size l + size r + unseen c) (left_loop K (here b R lo hi c x))"
  using assms
proof (induction l arbitrary: c x r)
  case Leaf
  then have "left_loop K (here b R lo hi c x) = Some (Inr (False, here b R lo hi c x))"
    by (subst left_loop.simps) (simp add: left_here)
  then show ?case by (simp add: left_none)
next
  case (Node ll y lr)
  let ?c = "WentLeft x r # c"
  have p: "placed K R b ?c (Node ll y lr)" using Node.prems by simp
  show ?case
  proof (rule left_cases [OF Node.prems, of lo hi])
    assume n: "picks K R lo hi (Node ll y lr) = []" "prio_tree_left_user K (here b R lo hi c x) = Inr None"
    then have F: "left_loop K (here b R lo hi c x) = Some (Inr (False, here b R lo hi c x))"
      by (subst left_loop.simps) simp
    show ?thesis unfolding F n(1) append.left_neutral by (rule left_none [OF refl refl]) linarith
  next
    fix ll' y' lr'
    assume "Node ll y lr = Node ll' y' lr'" "lo \<le> heap_index K R y'" and
      t: "prio_tree_left_user K (here b R lo hi c x) =
        Inr (Some ((radix K R y', heap_index K R y'), here b R lo hi ?c y'))"
    then have y: "y' = y" by simp
    show ?thesis
    proof (cases "hit K R lo hi y")
      case True
      with t y have "left_loop K (here b R lo hi c x) = Some (Inr (True, here b R lo hi ?c y))"
        by (subst left_loop.simps) (simp add: overlap_here)
      moreover have "stands K R lo hi (plug c (Node (Node ll y lr) x r))
          (picks K R lo hi ll @ picks K R lo hi lr @ rest K R lo hi ?c) (size ll + size lr + unseen ?c) ?c y"
        by (rule standsI [of _ ll _ lr]) simp_all
      from found_atI [OF True this] have "found_at K R lo hi (plug c (Node (Node ll y lr) x r))
          (picks K R lo hi (Node ll y lr) @ picks K R lo hi r @ rest K R lo hi c)
          (size (Node ll y lr) + size r + unseen c) ?c y" using True by simp
      ultimately show ?thesis by (simp only: left_found)
    next
      case False
      from t y False have F: "left_loop K (here b R lo hi c x) = left_loop K (here b R lo hi ?c y)"
        by (subst left_loop.simps) (simp add: overlap_here)
      from False have e: "picks K R lo hi (Node ll y lr) @ picks K R lo hi r @ rest K R lo hi c =
        picks K R lo hi ll @ picks K R lo hi lr @ rest K R lo hi ?c" by simp
      have "left_out K R b lo hi (plug ?c (Node ll y lr))
          (picks K R lo hi ll @ picks K R lo hi lr @ rest K R lo hi ?c) (size (Node ll y lr) + size r + unseen c)
          (left_loop K (here b R lo hi ?c y))"
        by (rule left_out_mono [OF Node.IH(1) [OF p]]) simp
      then show ?thesis unfolding F e plug.simps .
    qed
  qed
qed

text \<open>Leaving the right subtrees the iterator is in.\<close>

lemma up_loop_ok:
  assumes "placed K R b c (Node l x r)" and "plug c (Node l x r) = whole" and "whole = Node wl w wr" and "is_root K w"
  shows "\<exists>c' y l' r'. up_loop K (here b R lo hi c x) = Some (here b R lo hi c' y) \<and>
    plug c' (Node l' y r') = whole \<and> rest K R lo hi c' = rest K R lo hi c \<and>
    unseen c' = unseen c \<and> length c' \<le> length c \<and>
    (c' = [] \<and> is_root K y \<or> (\<exists>z s c''. c' = WentLeft z s # c'' \<and> node_parent K y = z \<and> \<not> is_root K y))"
  using assms
proof (induction c arbitrary: l x r)
  case Nil
  then have "up_loop K (here b R lo hi [] x) = Some (here b R lo hi [] x)"
    by (subst up_loop.simps) simp
  with Nil show ?case by (intro exI [of _ "[]"] exI [of _ x] exI [of _ l] exI [of _ r]) simp
next
  case (Cons s c)
  note loc = placed_local [OF Cons.prems(1)]
  show ?case
  proof (cases s)
    case (WentLeft z zr)
    from Cons.prems(1) have "placed K R b c (Node (Node l x r) z zr)" by (simp add: WentLeft)
    from placed_local(1) [OF this] have z: "node_parent K x = z" "\<not> is_root K x" "node_right K z \<noteq> x"
      by (cases zr; auto)+
    then have "up_loop K (here b R lo hi (s # c) x) = Some (here b R lo hi (s # c) x)"
      by (subst up_loop.simps) simp
    with z Cons.prems show ?thesis
      by (intro exI [of _ "s # c"] exI [of _ x] exI [of _ l] exI [of _ r]) (simp add: WentLeft)
  next
    case (WentRight zl z)
    from Cons.prems(1) have p: "placed K R b c (Node zl z (Node l x r))" by (simp add: WentRight)
    from placed_local(1) [OF p] have z: "node_parent K x = z" "\<not> is_root K x" "node_right K z = x" by auto
    have "length c < b + 64" using placed_local(2) [OF p] by auto
    from parent_here [OF loc(3,4) this z(1)] z
    have "up_loop K (here b R lo hi (s # c) x) = up_loop K (here b R lo hi c z)"
      by (subst up_loop.simps) simp
    moreover from Cons.prems(2) have "plug c (Node zl z (Node l x r)) = whole" by (simp add: WentRight)
    from Cons.IH [OF p this Cons.prems(3,4)] obtain c' y l' r' where
      "up_loop K (here b R lo hi c z) = Some (here b R lo hi c' y)" "plug c' (Node l' y r') = whole"
      "rest K R lo hi c' = rest K R lo hi c" "unseen c' = unseen c" "length c' \<le> length c"
      "c' = [] \<and> is_root K y \<or> (\<exists>z s c''. c' = WentLeft z s # c'' \<and> node_parent K y = z \<and> \<not> is_root K y)" by blast
    ultimately show ?thesis
      by (intro exI [of _ c'] exI [of _ y] exI [of _ l'] exI [of _ r']) (simp add: WentRight)
  qed
qed

text \<open>Going right, here or above.\<close>

inductive right_out ::
  "areas \<Rightarrow> tree_root \<Rightarrow> nat \<Rightarrow> u64 \<Rightarrow> u64 \<Rightarrow> u64 tree \<Rightarrow> u64 list \<Rightarrow> nat \<Rightarrow>
     ((u64 \<times> u64) option \<times> prio_tree_iter) result option \<Rightarrow> bool"
for K R b lo hi whole
where
  right_went: "plug c (Node l y r) = whole \<Longrightarrow> ys = picks K R lo hi (Node l y r) @ rest K R lo hi c \<Longrightarrow>
     size l + size r + unseen c < n \<Longrightarrow> right_out K R b lo hi whole ys n
       (Some (Inr (Some (radix K R y, heap_index K R y), here b R lo hi c y)))"
| right_done: "right_out K R b lo hi whole [] n (Some (Inr (None, it)))"

lemma right_out_mono: "right_out K R b lo hi whole ys m F \<Longrightarrow> m \<le> n \<Longrightarrow> right_out K R b lo hi whole ys n F"
  by (induction rule: right_out.induct) (auto intro: right_went right_done simp del: picks_simps)

lemma right_loop_ok:
  assumes "placed K R b c (Node l x r)" and "plug c (Node l x r) = whole" and "whole = Node wl w wr" and "is_root K w"
  shows "right_out K R b lo hi whole (picks K R lo hi r @ rest K R lo hi c) (size r + unseen c)
    (right_loop K (here b R lo hi c x))"
  using assms
proof (induction "length c" arbitrary: c l x r rule: less_induct)
  case less
  show ?case
  proof (rule right_cases [OF less.prems(1), of lo hi])
    fix rl y rr
    assume r: "r = Node rl y rr" "prio_tree_right_user K (here b R lo hi c x) =
      Inr (Some ((radix K R y, heap_index K R y), here b R lo hi (WentRight l x # c) y))"
    have F: "right_loop K (here b R lo hi c x) =
      Some (Inr (Some (radix K R y, heap_index K R y), here b R lo hi (WentRight l x # c) y))"
      using r(2) by (subst right_loop.simps) simp
    show ?thesis unfolding F r(1)
      by (rule right_went [of "WentRight l x # c" rl y rr]) (use less.prems(2) r(1) in simp_all)
  next
    assume none: "picks K R lo hi r = []" "prio_tree_right_user K (here b R lo hi c x) = Inr None"
    from up_loop_ok [OF less.prems, of lo hi] obtain c' y l' r' where
      up: "up_loop K (here b R lo hi c x) = Some (here b R lo hi c' y)" "plug c' (Node l' y r') = whole"
        "rest K R lo hi c' = rest K R lo hi c" "unseen c' = unseen c" "length c' \<le> length c" and
      top: "c' = [] \<and> is_root K y \<or> (\<exists>z s c''. c' = WentLeft z s # c'' \<and> node_parent K y = z \<and> \<not> is_root K y)"
      by (elim exE conjE) (rule that; assumption)
    from top show ?thesis
    proof (elim disjE exE conjE)
      assume c: "c' = []" "is_root K y"
      then have "right_loop K (here b R lo hi c x) = Some (Inr (None, here b R lo hi c' y))"
        using none(2) up(1) by (subst right_loop.simps) simp
      moreover have "rest K R lo hi c = []" using up(3) c(1) by simp
      ultimately show ?thesis using none(1) by (simp only: append_Nil) (rule right_done)
    next
      fix z s c'' assume c: "c' = WentLeft z s # c''" "node_parent K y = z" "\<not> is_root K y"
      have p: "placed K R b c'' (Node (Node l' y r') z s)" and w: "plug c'' (Node (Node l' y r') z s) = whole"
        using less.prems(1,2) up(2) by (simp_all add: c(1) placed_def)
      note loc = placed_local [OF p]
      have "length c'' < b + 64" using loc(2) by auto
      from parent_here [OF loc(3,4) this c(2)]
      have F: "right_loop K (here b R lo hi c x) = right_loop K (here b R lo hi c'' z)"
        using none(2) up(1) c by (subst right_loop.simps) simp
      have "length c'' < length c" using up(5) c(1) by simp
      from less.hyps [OF this p w less.prems(3,4)] show ?thesis
        using none(1) up(3,4) unfolding F c(1) by (simp add: right_out_mono)
    qed
  qed
qed

text \<open>The answer to a call for the next node.\<close>

inductive next_out ::
  "areas \<Rightarrow> tree_root \<Rightarrow> nat \<Rightarrow> u64 \<Rightarrow> u64 \<Rightarrow> u64 tree \<Rightarrow> u64 list \<Rightarrow> nat \<Rightarrow>
     (u64 \<times> prio_tree_iter) result option \<Rightarrow> bool"
for K R b lo hi whole
where
  next_none: "next_out K R b lo hi whole [] n (Some (Inr (0, it)))"
| next_found: "found_at K R lo hi whole ys n c y \<Longrightarrow>
     next_out K R b lo hi whole ys n (Some (Inr (y, here b R lo hi c y)))"

lemma next_out_mono: "next_out K R b lo hi whole ys m F \<Longrightarrow> m \<le> n \<Longrightarrow> next_out K R b lo hi whole ys n F"
  by (induction rule: next_out.induct) (auto intro: next_none next_found found_at_mono)

definition prio_tree :: "areas \<Rightarrow> tree_root \<Rightarrow> u64 tree \<Rightarrow> bool" where
  "prio_tree K R t \<longleftrightarrow> tree_mem K t \<and> search_ok K R (index_bits R) 0 0 t \<and>
     0 < index_bits R \<and> index_bits R \<le> 64 \<and>
     (case t of Leaf \<Rightarrow> tree_empty K R
      | Node l x r \<Rightarrow> \<not> tree_empty K R \<and> root_node R = x \<and> is_root K x)"

lemma prio_tree_placed: "prio_tree K R whole \<Longrightarrow> plug c t = whole \<Longrightarrow> placed K R (index_bits R) c t"
  by (auto simp: prio_tree_def placed_def)

lemma plug_not_Leaf: "plug c (Node l x r) \<noteq> Leaf"
proof (induction c arbitrary: l x r)
  case (Cons s c)
  then show ?case by (cases s) auto
qed simp

text \<open>A turn of the loop that found nothing on the left: it goes right, and looks or starts again there.\<close>

lemma repeat_turn:
  assumes left: "left_loop K it = Some (Inr (False, here b R lo hi c y))"
    and right: "right_out K R b lo hi whole ys n (right_loop K (here b R lo hi c y))"
    and again: "\<And>m zs d z. m < n \<Longrightarrow> stands K R lo hi whole zs m d z \<Longrightarrow>
      next_out K R b lo hi whole zs m (repeat_loop K (here b R lo hi d z))"
  shows "next_out K R b lo hi whole ys n (repeat_loop K it)"
  using right
proof (cases rule: right_out.cases)
  case (right_went d ll z lr)
  note unf = repeat_loop.simps [of K it]
  have s: "stands K R lo hi whole (picks K R lo hi ll @ picks K R lo hi lr @ rest K R lo hi d)
      (size ll + size lr + unseen d) d z"
    by (rule standsI [OF right_went(2) refl order_refl])
  show ?thesis
  proof (cases "hit K R lo hi z")
    case True
    with left right_went(1) have "repeat_loop K it = Some (Inr (z, here b R lo hi d z))"
      by (simp add: unf overlap_here)
    moreover from True right_went(3) have "ys = z # picks K R lo hi ll @ picks K R lo hi lr @ rest K R lo hi d"
      by simp
    ultimately show ?thesis using found_atI [OF True s right_went(4)] by (simp only: next_found)
  next
    case False
    with left right_went(1) have F: "repeat_loop K it = repeat_loop K (here b R lo hi d z)"
      by (simp add: unf overlap_here)
    from False right_went(3) have "ys = picks K R lo hi ll @ picks K R lo hi lr @ rest K R lo hi d" by simp
    then show ?thesis unfolding F using again [OF right_went(4) s] right_went(4) by (simp add: next_out_mono)
  qed
next
  case (right_done it')
  with left show ?thesis by (simp add: repeat_loop.simps [of K it] next_none)
qed

lemma repeat_loop_ok:
  assumes "prio_tree K R whole" and "stands K R lo hi whole ys n c x"
  shows "next_out K R (index_bits R) lo hi whole ys n (repeat_loop K (here (index_bits R) R lo hi c x))"
  using assms(2)
proof (induction n arbitrary: c x ys rule: less_induct)
  case (less n)
  let ?b = "index_bits R"
  from less.prems obtain l r where at: "plug c (Node l x r) = whole"
    "ys = picks K R lo hi l @ picks K R lo hi r @ rest K R lo hi c" "size l + size r + unseen c \<le> n"
    by (auto simp: stands_def)
  obtain wl w wr where w: "whole = Node wl w wr" "is_root K w"
    using assms(1) plug_not_Leaf [of c l x r] at(1) that by (auto simp: prio_tree_def split: tree.splits)
  note p = prio_tree_placed [OF assms(1) at(1)]
  from left_loop_ok [OF p, of lo hi] have "left_out K R ?b lo hi whole ys n (left_loop K (here ?b R lo hi c x))"
    using left_out_mono at(3) unfolding at(1) at(2) [symmetric] by blast
  then show ?case
  proof (cases rule: left_out.cases)
    case (left_found c' y)
    then have "repeat_loop K (here ?b R lo hi c x) = Some (Inr (y, here ?b R lo hi c' y))"
      by (simp add: repeat_loop.simps [of K "here ?b R lo hi c x"])
    with left_found(2) show ?thesis by (simp only: next_found)
  next
    case (left_none c' l' y r')
    from right_loop_ok [OF prio_tree_placed [OF assms(1) left_none(2)] left_none(2) w, of lo hi]
    have "right_out K R ?b lo hi whole ys n (right_loop K (here ?b R lo hi c' y))"
      unfolding left_none(3) by (rule right_out_mono) (rule left_none(4))
    from repeat_turn [OF left_none(1) this less.IH] show ?thesis .
  qed
qed

end
