(* ===== verification/Prio_Tree_Areas.thy ===== *)
theory Prio_Tree_Areas
  imports Prio_Tree_Walk
begin

text \<open>
  From nodes to memory areas: the first call and the following ones visit the areas of the nodes that
  the query overlaps, each node's own area first and then the list of areas with the same indices.
\<close>

section \<open>The first call\<close>

text \<open>What linux/prio_tree.h promises of the two ways to start an iterator.\<close>

definition iter_laws :: "areas \<Rightarrow> bool" where
  "iter_laws K \<longleftrightarrow>
     (\<forall>it. init_iter K it = it\<lparr>it_cur := 0, it_mask := 0, it_value := 0, size_level := 0\<rparr>) \<and>
     (\<forall>R lo hi. it_root (iter_init K R lo hi) = R \<and> r_index (iter_init K R lo hi) = lo \<and>
        h_index (iter_init K R lo hi) = hi \<and> it_cur (iter_init K R lo hi) = 0)"

lemma first_at_next:
  assumes "first_at K R b lo hi c t F"
  shows "\<exists>n. next_out K R b lo hi (plug c t) (picks K R lo hi t @ (if picks K R lo hi t = [] then [] else rest K R lo hi c)) n F"
proof (cases "picks K R lo hi t = []")
  case True
  with assms obtain it where "F = Some (Inr (0, it))" by (auto simp: first_at_def)
  with True show ?thesis by (auto intro: next_none)
next
  case False
  with assms obtain y c' l r where F: "F = Some (Inr (y, here b R lo hi c' y))" and
    y: "stops_at K R b lo hi (plug c t) (picks K R lo hi t @ rest K R lo hi c) y c' l r"
    by (auto simp: first_at_def)
  then have "stands K R lo hi (plug c t) (picks K R lo hi l @ picks K R lo hi r @ rest K R lo hi c')
      (size l + size r + unseen c') c' y" "hit K R lo hi y"
    by (auto simp: stops_at_def intro: standsI)
  from found_atI [OF this(2,1) lessI] y
  have "found_at K R lo hi (plug c t) (picks K R lo hi t @ rest K R lo hi c) (Suc (size l + size r + unseen c')) c' y"
    by (simp add: stops_at_def)
  with False show ?thesis unfolding F by (auto intro: next_found)
qed

lemma first_ok:
  assumes "prio_tree K R t" and "iter_laws K" and "it_root it = R" and "r_index it = lo" and "h_index it = hi"
    and "it_cur it = 0"
  shows "\<exists>n. next_out K R (index_bits R) lo hi t (picks K R lo hi t) n (prio_tree_next_user K it)"
proof (cases t)
  case Leaf
  with assms have "prio_tree_next_user K it = Some (Inr (0, init_iter K it))"
    by (simp add: prio_tree_next_user_def prio_tree_first_user_def Let_def prio_tree_def iter_laws_def)
  with Leaf show ?thesis by (auto intro: next_none)
next
  case (Node l x r)
  from assms(1) Node have x: "\<not> tree_empty K R" "root_node R = x" "x \<noteq> 0" "0 < index_bits R"
    "search_ok K R (index_bits R) 0 0 (Node l x r)" by (auto simp: prio_tree_def)
  have start: "init_iter K it\<lparr>it_mask := push_bit (index_bits R - 1) 1, it_cur := x\<rparr> = here (index_bits R) R lo hi [] x"
    using assms(2-6) x(4) by (simp add: iter_laws_def here_def mask_at_def level_at_def)
  have F: "prio_tree_next_user K it =
      (if heap_index K R x < lo then Some (Inr (0, init_iter K it))
       else first_loop K (radix K R x, heap_index K R x) (here (index_bits R) R lo hi [] x))"
    unfolding start [symmetric] using assms(2-6) x
    by (simp add: prio_tree_next_user_def prio_tree_first_user_def Let_def get_index_user_eq iter_laws_def)
  show ?thesis
  proof (cases "heap_index K R x < lo")
    case True
    then have "picks K R lo hi t = []" unfolding Node by (intro picks_below [OF x(5)]) simp
    with True show ?thesis unfolding F by (auto intro: next_none)
  next
    case False
    have p: "placed K R (index_bits R) [] t" by (rule prio_tree_placed [OF assms(1)]) simp
    from False have "lo \<le> heap_index K R x" by simp
    from first_at_next [OF first_loop_ok [OF p Node this, of hi]]
    show ?thesis unfolding F using False by (cases "picks K R lo hi t = []") simp_all
  qed
qed

section \<open>The areas of a node\<close>

text \<open>
  A node's own area has a parent in its \<open>vm_set\<close>; the other areas with the same indices form a
  ring that its head leads to, and only the first of them has a head.
\<close>

fun chained :: "areas \<Rightarrow> u64 \<Rightarrow> u64 list \<Rightarrow> bool" where
  "chained K f [] \<longleftrightarrow> False"
| "chained K f [w] \<longleftrightarrow> set_entry K (set_next K w) = f"
| "chained K f (w # w' # ws) \<longleftrightarrow> set_entry K (set_next K w) = w' \<and> set_head K w' = 0 \<and> chained K f (w' # ws)"

definition area_set :: "areas \<Rightarrow> u64 \<Rightarrow> u64 list \<Rightarrow> bool" where
  "area_set K v ws \<longleftrightarrow> v \<noteq> 0 \<and> set_parent K v \<noteq> 0 \<and> (\<forall>w\<in>set ws. w \<noteq> 0 \<and> set_parent K w = 0) \<and>
     (case ws of [] \<Rightarrow> set_head K v = 0
      | w # ws' \<Rightarrow> set_head K v = w \<and> set_head K w \<noteq> 0 \<and> chained K w ws)"

definition area_group :: "areas \<Rightarrow> (u64 \<Rightarrow> u64 list) \<Rightarrow> u64 \<Rightarrow> u64 list" where
  "area_group K ws x = prio_tree_entry K x # ws x"

definition areas_ok :: "areas \<Rightarrow> (u64 \<Rightarrow> u64 list) \<Rightarrow> u64 tree \<Rightarrow> bool" where
  "areas_ok K ws t \<longleftrightarrow> (\<forall>x\<in>set_tree t. area_set K (prio_tree_entry K x) (ws x))"

lemma each_area_append: "each_area body (vs @ us) s = bind_result (each_area body vs s) (each_area body us)"
proof (induction vs arbitrary: s)
  case (Cons v vs)
  then show ?case by (cases "body v s") simp_all
qed simp

text \<open>The rest of the loop when the next area is that of the next node.\<close>

definition resume :: "areas \<Rightarrow> (u64 \<Rightarrow> 's \<Rightarrow> 's result) \<Rightarrow> prio_tree_iter \<Rightarrow> 's \<Rightarrow> 's result option" where
  "resume K body it s =
     Option.bind (next_node K it) (\<lambda>r. case r of
       Inl e \<Rightarrow> Some (Inl e)
     | Inr (vma, it) \<Rightarrow>
         if vma = 0 then Some (Inr s)
         else case body vma s of Inl e \<Rightarrow> Some (Inl e) | Inr s \<Rightarrow> foreach_loop (vma_prio_tree_next_user K) body vma it s)"

lemma list_loop:
  assumes "chained K f (w # ws)" and "set_head K f \<noteq> 0" and "\<forall>u\<in>set (w # ws). u \<noteq> 0 \<and> set_parent K u = 0"
  shows "foreach_loop (vma_prio_tree_next_user K) body w it s =
    (case each_area body ws s of Inl e \<Rightarrow> Some (Inl e) | Inr s \<Rightarrow> resume K body it s)"
  using assms
proof (induction ws arbitrary: w s)
  case Nil
  then show ?case
    by (subst foreach_loop.simps) (simp add: vma_prio_tree_next_user_def resume_def)
next
  case (Cons u ws)
  then have u: "set_entry K (set_next K w) = u" "set_head K u = 0" "chained K f (u # ws)" "u \<noteq> 0" "w \<noteq> 0"
    "set_parent K w = 0" "\<forall>v\<in>set (u # ws). v \<noteq> 0 \<and> set_parent K v = 0" by simp_all
  have F: "foreach_loop (vma_prio_tree_next_user K) body w it s =
      (case body u s of Inl e \<Rightarrow> Some (Inl e) | Inr s \<Rightarrow> foreach_loop (vma_prio_tree_next_user K) body u it s)"
    using u(1,2,4-6) by (subst foreach_loop.simps) (simp add: vma_prio_tree_next_user_def)
  show ?case unfolding F
    by (cases "body u s") (simp_all add: Cons.IH [OF u(3) Cons.prems(2) u(7)])
qed

lemma area_group_loop:
  assumes "area_set K v ws"
  shows "foreach_loop (vma_prio_tree_next_user K) body v it s =
    (case each_area body ws s of Inl e \<Rightarrow> Some (Inl e) | Inr s \<Rightarrow> resume K body it s)"
proof (cases ws)
  case Nil
  with assms show ?thesis
    by (subst foreach_loop.simps) (simp add: vma_prio_tree_next_user_def resume_def area_set_def)
next
  case (Cons w us)
  with assms have w: "v \<noteq> 0" "set_parent K v \<noteq> 0" "set_head K v = w" "w \<noteq> 0" "set_head K w \<noteq> 0"
    "chained K w (w # us)" "\<forall>u\<in>set (w # us). u \<noteq> 0 \<and> set_parent K u = 0" by (simp_all add: area_set_def)
  have F: "foreach_loop (vma_prio_tree_next_user K) body v it s =
      (case body w s of Inl e \<Rightarrow> Some (Inl e) | Inr s \<Rightarrow> foreach_loop (vma_prio_tree_next_user K) body w it s)"
    using w(1-4) by (subst foreach_loop.simps) (simp add: vma_prio_tree_next_user_def)
  show ?thesis unfolding F Cons
    by (cases "body w s") (simp_all add: list_loop [OF w(6,5,7)])
qed

section \<open>The whole loop\<close>

lemma picks_subset: "set (picks K R lo hi t) \<subseteq> set_tree t"
  by (auto simp: picks_def)

lemma tree_mem_nonzero: "tree_mem K t \<Longrightarrow> x \<in> set_tree t \<Longrightarrow> x \<noteq> 0"
  by (induction t) auto

lemma resume_next:
  assumes "prio_tree K R t" and "areas_ok K ws t" and "next_out K R (index_bits R) lo hi t ys n (prio_tree_next_user K it)"
    and "set ys \<subseteq> set_tree t"
  shows "resume K body it s = Some (each_area body (concat (map (area_group K ws) ys)) s)"
  using assms(3,4)
proof (induction ys arbitrary: n it s)
  case Nil
  from Nil.prems(1) obtain it' where "prio_tree_next_user K it = Some (Inr (0, it'))"
    by (cases rule: next_out.cases) (auto elim: found_at.cases)
  then show ?case by (simp add: resume_def next_node_def)
next
  case (Cons y ys)
  from Cons.prems(1) obtain c where F: "prio_tree_next_user K it = Some (Inr (y, here (index_bits R) R lo hi c y))"
    and "found_at K R lo hi t (y # ys) n c y" by (cases rule: next_out.cases) (auto elim: found_at.cases)
  then obtain m where s: "stands K R lo hi t ys m c y" by (auto elim: found_at.cases)
  have y: "y \<in> set_tree t" "y \<noteq> 0"
    using Cons.prems(2) assms(1) tree_mem_nonzero [of K t y] by (simp_all add: prio_tree_def)
  from assms(2) y(1) have a: "area_set K (prio_tree_entry K y) (ws y)" by (simp add: areas_ok_def)
  have "next_out K R (index_bits R) lo hi t ys m (prio_tree_next_user K (here (index_bits R) R lo hi c y))"
    using repeat_loop_ok [OF assms(1) s] y(2) by (simp add: prio_tree_next_user_def)
  from Cons.IH [OF this] Cons.prems(2)
  have IH: "resume K body (here (index_bits R) R lo hi c y) s = Some (each_area body (concat (map (area_group K ws) ys)) s)" for s
    by simp
  from a have "prio_tree_entry K y \<noteq> 0" by (simp add: area_set_def)
  then have "resume K body it s = (case body (prio_tree_entry K y) s of Inl e \<Rightarrow> Some (Inl e)
      | Inr s \<Rightarrow> foreach_loop (vma_prio_tree_next_user K) body (prio_tree_entry K y) (here (index_bits R) R lo hi c y) s)"
    using F y(2) by (simp add: resume_def next_node_def)
  also have "\<dots> = Some (each_area body (area_group K ws y @ concat (map (area_group K ws) ys)) s)"
    by (cases "body (prio_tree_entry K y) s")
       (auto simp: area_group_loop [OF a] area_group_def each_area_append IH split: sum.splits)
  finally show ?case by simp
qed

lemma foreach_ok:
  assumes "prio_tree K R t" and "iter_laws K" and "areas_ok K ws t"
  shows "vma_prio_tree_foreach_user K R lo hi body s =
    Some (each_area body (concat (map (area_group K ws) (picks K R lo hi t))) s)"
proof -
  let ?it = "iter_init K R lo hi"
  have it: "it_root ?it = R" "r_index ?it = lo" "h_index ?it = hi" "it_cur ?it = 0"
    using assms(2) by (simp_all add: iter_laws_def)
  from first_ok [OF assms(1,2) it] obtain n where
    "next_out K R (index_bits R) lo hi t (picks K R lo hi t) n (prio_tree_next_user K ?it)" by blast
  from resume_next [OF assms(1,3) this picks_subset]
  have "resume K body ?it s = Some (each_area body (concat (map (area_group K ws) (picks K R lo hi t))) s)" .
  moreover have "foreach_loop (vma_prio_tree_next_user K) body 0 ?it s = resume K body ?it s"
    by (subst foreach_loop.simps) (simp add: vma_prio_tree_next_user_def resume_def)
  ultimately show ?thesis by (simp add: vma_prio_tree_foreach_user_def)
qed

end
