(* ===== verification/Rmap_Props.thy ===== *)
theory Rmap_Props
  imports Rmap Prio_Tree_Areas Heap_Demo
begin

text \<open>
  The properties of the reverse mapping module: the iteration over a priority search tree visits
  exactly the areas that overlap, the search collects the owner of each, and what becomes of it.
\<close>

section \<open>The iteration\<close>

text \<open>C36: On a well-formed priority search tree the loop of the module ends without a fault of its own
  and runs its body on exactly the areas whose page range meets the range asked for, once each: the
  nodes of the tree in preorder, each followed by the areas that share its indices.\<close>

theorem foreach_visits_overlaps:
  assumes "prio_tree K R t" and "iter_laws K" and "areas_ok K ws t"
  shows "vma_prio_tree_foreach_user K R first_index last_index body s =
    Some (each_area body (concat (map (\<lambda>x. prio_tree_entry K x # ws x)
      (filter (\<lambda>x. radix K R x \<le> last_index \<and> first_index \<le> heap_index K R x) (preorder t)))) s)"
  by (rule foreach_ok [OF assms, unfolded picks_def hit_def [abs_def] area_group_def [abs_def]])

text \<open>A tree of three nodes, the last one with a second area.\<close>

definition demo_areas :: areas where
  "demo_areas = \<lparr>
     node_left = (\<lambda>x. if x = 16 then 32 else x), node_right = (\<lambda>x. if x = 16 then 48 else x),
     node_parent = (\<lambda>x. 16), node_start = (\<lambda>x. 0), node_last = (\<lambda>x. 0),
     vm_start = (\<lambda>v. 0x10000), vm_end = (\<lambda>v. if v = 16 then 0x16000 else 0x12000),
     vm_pgoff = (\<lambda>v. if v = 16 then 0 else if v = 32 then 1 else 4), vm_mm = (\<lambda>v. v + 1),
     set_next = (\<lambda>v. v), set_parent = (\<lambda>v. if v = 64 then 0 else 16),
     set_head = (\<lambda>v. if v = 48 then 64 else if v = 64 then 48 else 0),
     left_empty = (\<lambda>x. x \<noteq> 16), right_empty = (\<lambda>x. x \<noteq> 16), is_root = (\<lambda>x. x = 16),
     prio_tree_entry = (\<lambda>x. x), set_entry = (\<lambda>x. x),
     init_iter = (\<lambda>it. it\<lparr>it_cur := 0, it_mask := 0, it_value := 0, size_level := 0\<rparr>),
     tree_empty = (\<lambda>R. root_node R = 0),
     iter_init = (\<lambda>R lo hi. \<lparr>it_cur = 0, it_mask = 0, it_value = 0, size_level = 0, it_root = R,
       r_index = lo, h_index = hi\<rparr>),
     page_shift = 12\<rparr>"

definition demo_root :: tree_root where
  "demo_root = \<lparr>root_node = 16, index_bits = 3, raw = True\<rparr>"

definition demo_tree :: "u64 tree" where
  "demo_tree = Node (Node Leaf 32 Leaf) 16 (Node Leaf 48 Leaf)"

definition demo_lists :: "u64 \<Rightarrow> u64 list" where
  "demo_lists x = (if x = 48 then [64] else [])"

lemma demo_iter_laws: "iter_laws demo_areas"
  by (simp add: iter_laws_def demo_areas_def)

lemma demo_radix: "radix demo_areas demo_root x = (if x = 16 then 0 else if x = 32 then 1 else 4)"
  by (simp add: radix_def demo_root_def demo_areas_def RADIX_INDEX_USER_def)

lemma demo_heap_index: "heap_index demo_areas demo_root x = (if x = 16 then 5 else if x = 32 then 2 else 5)"
  by (simp add: heap_index_def demo_root_def demo_areas_def HEAP_INDEX_USER_def VMA_SIZE_USER_def)

lemma demo_prio_tree: "prio_tree demo_areas demo_root demo_tree"
proof -
  have "tree_mem demo_areas demo_tree" by (simp add: demo_tree_def demo_areas_def)
  moreover have "search_ok demo_areas demo_root 3 0 0 demo_tree"
    by (simp add: demo_tree_def demo_radix demo_heap_index right_value_def)
  ultimately show ?thesis by (simp add: prio_tree_def demo_root_def demo_tree_def demo_areas_def)
qed

lemma demo_areas_ok: "areas_ok demo_areas demo_lists demo_tree"
  by (simp add: areas_ok_def area_set_def demo_tree_def demo_areas_def demo_lists_def)

theorem foreach_visits_overlaps_witness:
  "vma_prio_tree_foreach_user demo_areas demo_root 4 4 (\<lambda>v s. Inr (s @ [v])) [] = Some (Inr [16, 48, 64])"
  using foreach_visits_overlaps [OF demo_prio_tree demo_iter_laws demo_areas_ok, of 4 4 "\<lambda>v s. Inr (s @ [v])" "[]"]
  by (simp add: demo_tree_def demo_radix demo_heap_index demo_lists_def) (simp add: demo_areas_def)

section \<open>Collecting the owners\<close>

definition owned :: "pages \<Rightarrow> u64 \<Rightarrow> bool" where
  "owned K vma \<longleftrightarrow> vm_mm (vmas K) vma \<noteq> 0 \<and> mm_owner K (vm_mm (vmas K) vma) \<noteq> 0"

definition info_of :: "pages \<Rightarrow> u64 \<Rightarrow> task_info" where
  "info_of K vma =
     (let tsk = mm_owner K (vm_mm (vmas K) vma) in \<lparr>info_pid = owner_pid K tsk, taskname = owner_comm K tsk\<rparr>)"

text \<open>Every node on the list is a block that \<open>vmalloc\<close> has given out, and each is on it once.\<close>

definition infos_ok :: "rmap \<Rightarrow> bool" where
  "infos_ok s \<longleftrightarrow> heap_ok (rheap s) \<and> distinct (task_head s) \<and>
     (\<forall>p\<in>set (task_head s). (p, Vmalloc sizeof_task_info) \<in> set (live (calls (rheap s))))"

text \<open>The next \<open>n\<close> calls of \<open>vmalloc\<close> for an entry succeed.\<close>

fun memory_lasts :: "heap_env \<Rightarrow> nat \<Rightarrow> heap \<Rightarrow> bool" where
  "memory_lasts K 0 h \<longleftrightarrow> True"
| "memory_lasts K (Suc n) h \<longleftrightarrow>
     fst (ask K (Vmalloc sizeof_task_info) h) \<noteq> 0 \<and>
     memory_lasts K n (snd (ask K (Vmalloc sizeof_task_info) h))"

lemma info_bytes [simp]: "unat sizeof_task_info = 32"
  by (simp add: sizeof_task_info_def)

lemma info_live_block: "(p, Vmalloc sizeof_task_info) \<in> set (live (calls (rheap s))) \<Longrightarrow> info_live s p"
  unfolding info_live_def by (rule in_live_block, assumption) simp

lemma add_task_ok:
  assumes "heap_laws (allocator K)" and "infos_ok s" and "owned K vma"
    and "ask (allocator K) (Vmalloc sizeof_task_info) (rheap s) = (p, h)" and "p \<noteq> 0"
  shows "add_task K vma s =
      Inr (s\<lparr>rheap := h, infos := (infos s)(p := info_of K vma), task_head := p # task_head s\<rparr>) \<and>
    p \<notin> set (task_head s) \<and> infos_ok (s\<lparr>rheap := h, task_head := p # task_head s\<rparr>)"
proof -
  note ask = assms(4) and p = assms(5)
  have h: "live (calls h) = (p, Vmalloc sizeof_task_info) # live (calls (rheap s))"
    using ask_live [OF ask] p by simp
  have ok: "heap_ok h"
    by (rule ask_ok [OF _ _ ask]) (use assms(1,2) in \<open>simp_all add: infos_ok_def\<close>)
  have fresh: "p \<notin> set (task_head s)"
  proof
    assume "p \<in> set (task_head s)"
    then have "(p, Vmalloc sizeof_task_info) \<in> set (live (calls (rheap s)))" using assms(2) by (simp add: infos_ok_def)
    moreover have "distinct (live (calls h))" by (rule live_distinct [OF ok])
    ultimately show False by (simp add: h)
  qed
  have ok': "infos_ok (s\<lparr>rheap := h, task_head := p # task_head s\<rparr>)"
    using assms(2) ok fresh by (simp add: infos_ok_def h)
  have live: "info_live s' q" if "q \<in> set (p # task_head s)" "rheap s' = h" for s' q
    using that ok' by (intro info_live_block) (auto simp: infos_ok_def)
  have "add_task K vma s =
      Inr (s\<lparr>rheap := h, infos := (infos s)(p := info_of K vma), task_head := p # task_head s\<rparr>)"
    using ask p assms(3) by (cases "task_head s") (simp_all add: add_task_def Let_def owned_def info_of_def live)
  with fresh ok' show ?thesis by blast
qed

lemma add_tasks_ok:
  assumes "heap_laws (allocator K)" and "infos_ok s" and "\<forall>v\<in>set vs. owned K v"
    and "memory_lasts (allocator K) (length vs) (rheap s)"
  shows "\<exists>s' new. each_area (add_task K) vs s = Inr s' \<and> infos_ok s' \<and> task_head s' = new @ task_head s \<and>
    map (infos s') new = rev (map (info_of K) vs) \<and> (\<forall>p\<in>set (task_head s). infos s' p = infos s p) \<and>
    s' = s\<lparr>rheap := rheap s', infos := infos s', task_head := task_head s'\<rparr>"
  using assms(2-4)
proof (induction vs arbitrary: s)
  case Nil
  then show ?case by (intro exI [of _ s] exI [of _ "[]"]) simp
next
  case (Cons v vs)
  from Cons.prems have "owned K v" by simp
  obtain p h where ask: "ask (allocator K) (Vmalloc sizeof_task_info) (rheap s) = (p, h)"
    by (cases "ask (allocator K) (Vmalloc sizeof_task_info) (rheap s)")
  with Cons.prems(3) have "p \<noteq> 0" "memory_lasts (allocator K) (length vs) h" by simp_all
  from add_task_ok [OF assms(1) Cons.prems(1) \<open>owned K v\<close> ask this(1)] have
    add: "add_task K v s = Inr (s\<lparr>rheap := h, infos := (infos s)(p := info_of K v), task_head := p # task_head s\<rparr>)"
    and p: "p \<notin> set (task_head s)" and ok: "infos_ok (s\<lparr>rheap := h, task_head := p # task_head s\<rparr>)" by simp_all
  let ?s = "s\<lparr>rheap := h, infos := (infos s)(p := info_of K v), task_head := p # task_head s\<rparr>"
  have "infos_ok ?s" using ok by (simp add: infos_ok_def)
  from Cons.IH [OF this] Cons.prems(2) \<open>memory_lasts (allocator K) (length vs) h\<close> obtain s' new where
    run: "each_area (add_task K) vs ?s = Inr s'" "infos_ok s'" "task_head s' = new @ task_head ?s"
      "map (infos s') new = rev (map (info_of K) vs)" "\<forall>q\<in>set (task_head ?s). infos s' q = infos ?s q"
      "s' = ?s\<lparr>rheap := rheap s', infos := infos s', task_head := task_head s'\<rparr>" by auto
  have old: "\<forall>q\<in>set (task_head s). infos s' q = infos s q" using run(5) p by auto
  have "map (infos s') (new @ [p]) = rev (map (info_of K) (v # vs))" using run(4,5) by simp
  with run add old show ?case by (intro exI [of _ s'] exI [of _ "new @ [p]"]) simp
qed

text \<open>While memory lasts, the loop over the areas of a page puts one entry per area, with the owner's
  process id and name, in front of the list, the last area first; the entries already there keep
  their contents. Two areas of one process give two entries.\<close>

theorem areas_collected:
  assumes "heap_laws (allocator K)" and "infos_ok s" and "\<forall>v\<in>set vs. owned K v"
    and "memory_lasts (allocator K) (length vs) (rheap s)"
  shows "\<exists>s' new. each_area (add_task K) vs s = Inr s' \<and> task_head s' = new @ task_head s \<and>
    distinct (task_head s') \<and> map (infos s') new = rev (map (info_of K) vs) \<and>
    (\<forall>p\<in>set (task_head s). infos s' p = infos s p)"
  using add_tasks_ok [OF assms] by (auto simp: infos_ok_def)

text \<open>The kernel around the tree above: every area has the same owner, anonymous pages have two areas.\<close>

definition demo_pages :: pages where
  "demo_pages = \<lparr>
     page_mapping = (\<lambda>p. if p = 1 then 0x101 else if p = 2 then 0x200 else if p = 3 then 0x300 else 0),
     page_index = (\<lambda>p. if p = 3 then 9 else 4), page_mapped = (\<lambda>p. True), page_anon = (\<lambda>p. p = 1),
     pfn_to_page = (\<lambda>n. n),
     anon_list = (\<lambda>a. [32, 48]), mm_owner = (\<lambda>m. 77), owner_pid = (\<lambda>t. 12), owner_comm = (\<lambda>t. ''sh''),
     i_mmap = (\<lambda>m. demo_root), page_cache_shift = 12, anon_bit = 1, vmas = demo_areas,
     allocator = demo_env\<rparr>"

definition demo_rmap :: rmap where
  "demo_rmap = \<lparr>pid_arr = replicate 20 0, task_head = [], infos = (\<lambda>p. \<lparr>info_pid = 0, taskname = []\<rparr>),
     rheap = \<lparr>calls = [], bytes = (\<lambda>_. 0), texts = (\<lambda>_. [])\<rparr>, rcu = 0, locked = [], console = []\<rparr>"

lemma demo_infos_ok: "infos_ok demo_rmap"
  by (simp add: infos_ok_def demo_rmap_def heap_ok_def)

lemma demo_owned: "v \<in> {16, 32, 48, 64} \<Longrightarrow> owned demo_pages v"
  by (auto simp: owned_def demo_pages_def demo_areas_def)

lemma demo_pages_laws: "heap_laws (allocator demo_pages)"
  using demo_heap_laws by (simp add: demo_pages_def)

lemma demo_memory: "memory_lasts (allocator demo_pages) 3 (rheap demo_rmap)"
  by (simp add: demo_pages_def demo_rmap_def numeral_3_eq_3 ask_def Let_def demo_ask top_def sizeof_task_info_def)

theorem areas_collected_witness:
  "\<exists>s'. each_area (add_task demo_pages) [16, 48, 64] demo_rmap = Inr s' \<and> length (task_head s') = 3"
proof -
  have "memory_lasts (allocator demo_pages) (length [16, 48, 64 :: u64]) (rheap demo_rmap)"
    using demo_memory by (simp add: numeral_3_eq_3)
  from areas_collected [OF demo_pages_laws demo_infos_ok _ this] obtain s' new where
    "each_area (add_task demo_pages) [16, 48, 64] demo_rmap = Inr s'" "task_head s' = new @ task_head demo_rmap"
    "map (infos s') new = rev (map (info_of demo_pages) [16, 48, 64])"
    by (auto simp: demo_owned)
  moreover from this(3) have "length new = 3" by (metis length_map length_rev list.size(3,4) One_nat_def numeral_3_eq_3 add_Suc_right add_0_right)
  ultimately show ?thesis by (auto simp: demo_rmap_def)
qed

section \<open>What becomes of the list\<close>

text \<open>The areas whose owners are to be found for a page.\<close>

definition page_areas :: "pages \<Rightarrow> u64 \<Rightarrow> u64 list \<Rightarrow> bool" where
  "page_areas K p vs \<longleftrightarrow>
     (let m = page_mapping K p;
          pgoff = push_bit (page_cache_shift K - page_shift (vmas K)) (page_index K p)
      in m \<noteq> 0 \<and>
         (if page_anon K p
          then and m (anon_bit K) \<noteq> 0 \<and> page_mapped K p \<and> m \<noteq> anon_bit K \<and> vs = anon_list K (m - anon_bit K)
          else \<exists>t ws. prio_tree (vmas K) (i_mmap K m) t \<and> areas_ok (vmas K) ws t \<and>
            vs = concat (map (area_group (vmas K) ws) (picks (vmas K) (i_mmap K m) pgoff pgoff t))))"

lemma infos_ok_cong:
  "infos_ok (say t s) = infos_ok s" "infos_ok (init_pid_arr s) = infos_ok s"
  "infos_ok (s\<lparr>rcu := n\<rparr>) = infos_ok s" "infos_ok (s\<lparr>locked := l\<rparr>) = infos_ok s"
  by (simp_all add: infos_ok_def say_def init_pid_arr_def)

text \<open>Printing a list that is not empty frees its first entry and then reads its link.\<close>

lemma print_infos_faults:
  assumes "infos_ok s" and "task_head s \<noteq> []"
  shows "print_infos (task_head s) s = Inl UseAfterFree"
proof (cases "task_head s")
  case Nil
  with assms(2) show ?thesis by simp
next
  case (Cons p ps)
  with assms(1) have blk: "(p, Vmalloc sizeof_task_info) \<in> set (live (calls (rheap s)))" and ok: "heap_ok (rheap s)"
    by (simp_all add: infos_ok_def)
  have p: "p \<noteq> 0" using live_sound [OF ok blk] by (simp add: sound_block_def)
  have "\<not> in_live (rheap s\<lparr>calls := Gave Vfree p # calls (rheap s)\<rparr>) p 32"
  proof
    assume "in_live (rheap s\<lparr>calls := Gave Vfree p # calls (rheap s)\<rparr>) p 32"
    then obtain b r where b: "(b, r) \<in> set (live (calls (rheap s)))" "b \<noteq> p" "unat b \<le> unat p"
      "unat p + 32 \<le> unat b + extent r" by (auto simp: in_live_iff)
    have "(b, r) = (p, Vmalloc sizeof_task_info)"
      by (rule live_same [OF ok b(1) blk, of "unat p"]) (use b in simp_all)
    with b(2) show False by simp
  qed
  with info_live_block [OF blk] give_live [OF blk p] show ?thesis
    by (simp add: Cons info_live_def say_def)
qed

lemma say_task_head [simp]: "task_head (say t s) = task_head s"
  by (simp add: say_def)

lemma locate_anon_outcome:
  assumes "heap_laws (allocator K)" and "infos_ok s" and "task_head s = []" and "\<forall>v\<in>set vs. owned K v"
    and "memory_lasts (allocator K) (length vs) (rheap s)" and "page_areas K p vs" and "page_anon K p"
  shows "page_locate_anon K p s =
    (if vs \<noteq> [] then Inl UseAfterFree else Inr (init_pid_arr (say RelatedTasks (say AnonPage s))))"
proof -
  let ?m = "page_mapping K p"
  note pa = assms(6) [unfolded page_areas_def Let_def]
  let ?s = "say AnonPage s\<lparr>rcu := rcu s + 1, locked := (?m - anon_bit K) # locked s\<rparr>"
  have "infos_ok ?s" "\<forall>v\<in>set vs. owned K v" "memory_lasts (allocator K) (length vs) (rheap ?s)"
    using assms(2,4,5) by (simp_all add: infos_ok_cong) (simp add: say_def)
  from add_tasks_ok [OF assms(1) this] obtain s' new where
    run: "each_area (add_task K) vs ?s = Inr s'" "infos_ok s'" "task_head s' = new @ task_head ?s"
      "map (infos s') new = rev (map (info_of K) vs)"
      "s' = ?s\<lparr>rheap := rheap s', infos := infos s', task_head := task_head s'\<rparr>" by blast
  have new: "new = [] \<longleftrightarrow> vs = []" using run(4) by auto
  have head: "task_head s' = new" using run(3) assms(3) by simp
  have G: "page_locate_anon K p s = bind_result (Inr s') (\<lambda>s.
      let s = page_unlock_anon_vma_user (?m - anon_bit K) s;
          s = init_pid_arr s;
          s = say RelatedTasks s
      in bind_result (print_infos (task_head s) s) (\<lambda>s. Inr (init_pid_arr s)))"
    using pa assms(7) run(1)
    by (simp add: page_locate_anon_def page_lock_anon_vma_user_def Let_def say_def)
  show ?thesis
  proof (cases "vs = []")
    case vs: True
    with run(1) have "s' = ?s" by simp
    then show ?thesis unfolding G using assms(3) vs
      by (simp add: page_unlock_anon_vma_user_def init_pid_arr_def say_def Let_def)
  next
    case False
    let ?s1 = "say RelatedTasks (init_pid_arr (page_unlock_anon_vma_user (?m - anon_bit K) s'))"
    have "task_head ?s1 = new" using head by (simp add: init_pid_arr_def page_unlock_anon_vma_user_def)
    moreover have "infos_ok ?s1" using run(2) by (simp add: infos_ok_cong page_unlock_anon_vma_user_def Let_def)
    ultimately have "print_infos (task_head ?s1) ?s1 = Inl UseAfterFree"
      using new False by (intro print_infos_faults) simp_all
    with False show ?thesis unfolding G by (simp add: Let_def)
  qed
qed

lemma locate_file_outcome:
  assumes "heap_laws (allocator K)" and "infos_ok s" and "task_head s = []" and "\<forall>v\<in>set vs. owned K v"
    and "memory_lasts (allocator K) (length vs) (rheap s)" and "page_areas K p vs" and "\<not> page_anon K p"
    and "iter_laws (vmas K)"
  shows "page_locate_file K p s =
    Some (if vs \<noteq> [] then Inl UseAfterFree else Inr (init_pid_arr (say RelatedTasks (say FilePage s))))"
proof -
  let ?m = "page_mapping K p"
  note pa = assms(6) [unfolded page_areas_def Let_def]
  let ?g = "push_bit (page_cache_shift K - page_shift (vmas K)) (page_index K p)"
  from pa assms(7) obtain t ws where t: "prio_tree (vmas K) (i_mmap K ?m) t" "areas_ok (vmas K) ws t"
    "vs = concat (map (area_group (vmas K) ws) (picks (vmas K) (i_mmap K ?m) ?g ?g t))" by auto
  let ?s = "say FilePage s"
  have "infos_ok ?s" "\<forall>v\<in>set vs. owned K v" "memory_lasts (allocator K) (length vs) (rheap ?s)"
    using assms(2,4,5) by (simp_all add: infos_ok_cong) (simp add: say_def)
  from add_tasks_ok [OF assms(1) this] obtain s' new where
    run: "each_area (add_task K) vs ?s = Inr s'" "infos_ok s'" "task_head s' = new @ task_head ?s"
      "map (infos s') new = rev (map (info_of K) vs)" by blast
  have new: "new = [] \<longleftrightarrow> vs = []" using run(4) by auto
  have head: "task_head s' = new" using run(3) assms(3) by simp
  have G: "page_locate_file K p s = Some (bind_result (print_infos (task_head (say RelatedTasks s')) (say RelatedTasks s'))
      (\<lambda>s. Inr (init_pid_arr s)))"
    using pa assms(7) foreach_ok [OF t(1) assms(8) t(2), of ?g ?g "add_task K" ?s] run(1)
    by (simp add: page_locate_file_def Let_def t(3))
  show ?thesis
  proof (cases "vs = []")
    case vs: True
    with run(1) have "s' = ?s" by simp
    then show ?thesis unfolding G using assms(3) vs by (simp add: init_pid_arr_def)
  next
    case vs: False
    have "print_infos (task_head (say RelatedTasks s')) (say RelatedTasks s') = Inl UseAfterFree"
      using run(2) head new vs by (intro print_infos_faults) (simp_all add: infos_ok_cong)
    with vs show ?thesis unfolding G by simp
  qed
qed

lemma process_info_result:
  assumes "heap_laws (allocator K)" and "iter_laws (vmas K)" and "infos_ok s" and "task_head s = []"
    and "page_areas K (pfn_to_page K (drop_bit (page_shift (vmas K)) paddr)) vs" and "\<forall>v\<in>set vs. owned K v"
    and "memory_lasts (allocator K) (length vs) (rheap s)"
  shows "get_process_info K paddr s = Some (if vs \<noteq> [] then Inl UseAfterFree
    else Inr (init_pid_arr (say RelatedTasks
      (say (if page_anon K (pfn_to_page K (drop_bit (page_shift (vmas K)) paddr)) then AnonPage else FilePage) s))))"
proof -
  let ?p = "pfn_to_page K (drop_bit (page_shift (vmas K)) paddr)"
  have "page_mapping K ?p \<noteq> 0" using assms(5) by (simp add: page_areas_def Let_def)
  then show ?thesis
    using locate_anon_outcome [OF assms(1,3,4,6,7,5)] locate_file_outcome [OF assms(1,3,4,6,7,5) _ assms(2)]
    by (simp add: get_process_info_def Let_def)
qed

text \<open>C37: A query for the processes of a mapped page never returns when some area maps it: after the
  entries are collected, the first one is printed and freed, and the loop goes on from the link of
  the freed entry. It returns, having printed its two headings, exactly when no area maps the page.\<close>

theorem get_process_info_outcome:
  assumes "heap_laws (allocator K)" and "iter_laws (vmas K)" and "infos_ok s" and "task_head s = []"
    and "page_areas K (pfn_to_page K (drop_bit (page_shift (vmas K)) paddr)) vs" and "\<forall>v\<in>set vs. owned K v"
    and "memory_lasts (allocator K) (length vs) (rheap s)"
  shows "get_process_info K paddr s = Some (if vs \<noteq> [] then Inl UseAfterFree
    else Inr (init_pid_arr (say RelatedTasks
      (say (if page_anon K (pfn_to_page K (drop_bit (page_shift (vmas K)) paddr)) then AnonPage else FilePage) s))))"
  by (rule process_info_result [OF assms])

lemma demo_page_areas: "page_areas demo_pages 2 [16, 48, 64]"
proof -
  have "[16, 48, 64] = concat (map (area_group demo_areas demo_lists) (picks demo_areas demo_root 4 4 demo_tree))"
    by (simp add: demo_tree_def hit_def demo_radix demo_heap_index area_group_def demo_lists_def)
       (simp add: demo_areas_def)
  with demo_prio_tree demo_areas_ok show ?thesis
    by (auto simp: page_areas_def demo_pages_def demo_areas_def intro!: exI [of _ demo_tree])
qed

theorem get_process_info_outcome_witness:
  "get_process_info demo_pages 0x2000 demo_rmap = Some (Inl UseAfterFree)"
proof -
  note demo_page_areas
  moreover have "memory_lasts (allocator demo_pages) (length [16, 48, 64 :: u64]) (rheap demo_rmap)"
    using demo_memory by (simp add: numeral_3_eq_3)
  moreover have "iter_laws (vmas demo_pages)" using demo_iter_laws by (simp add: demo_pages_def)
  ultimately show ?thesis
    using get_process_info_outcome [OF demo_pages_laws _ demo_infos_ok, of "0x2000" "[16, 48, 64]"]
    by (simp add: demo_owned) (simp add: demo_pages_def demo_areas_def demo_rmap_def)
qed

section \<open>Locks and the array of process ids\<close>

text \<open>Locking an anonymous page either fails and leaves every lock as it was, or takes the read lock
  and the lock of the area list, which unlocking gives back.\<close>

lemma page_lock_balance:
  assumes "page_lock_anon_vma_user K page s = Inr (anon_vma, s')"
  shows "(anon_vma = 0 \<longleftrightarrow> and (page_mapping K page) (anon_bit K) = 0 \<or> \<not> page_mapped K page) \<and>
    (if anon_vma = 0 then s' = s
     else rcu s' = rcu s + 1 \<and> locked s' = anon_vma # locked s \<and> page_unlock_anon_vma_user anon_vma s' = s)"
  using assms
  by (auto simp: page_lock_anon_vma_user_def page_unlock_anon_vma_user_def Let_def split: if_splits)

lemma exist_loop_result:
  "i \<le> VM_NUM \<Longrightarrow> exist_loop arr n i < VM_NUM \<longleftrightarrow> (\<exists>j<VM_NUM. i \<le> j \<and> (arr ! j = - 1 \<or> arr ! j = n))"
proof (induction arr n i rule: exist_loop.induct)
  case (1 arr n i)
  show ?case
  proof (cases "i < VM_NUM \<and> arr ! i \<noteq> - 1 \<and> arr ! i \<noteq> n")
    case True
    then have "exist_loop arr n i = exist_loop arr n (i + 1)" by (simp add: exist_loop.simps [of arr n i])
    moreover have "(\<exists>j<VM_NUM. i \<le> j \<and> (arr ! j = - 1 \<or> arr ! j = n)) \<longleftrightarrow>
        (\<exists>j<VM_NUM. i + 1 \<le> j \<and> (arr ! j = - 1 \<or> arr ! j = n))"
      using True by (metis Suc_eq_plus1 Suc_leI le_eq_less_or_eq Suc_leD)
    ultimately show ?thesis using 1 True by simp
  next
    case False
    then show ?thesis using 1(2) by (auto simp: exist_loop.simps [of arr n i])
  qed
qed

lemma insert_loop_result:
  "i \<le> VM_NUM \<Longrightarrow> insert_loop arr i =
     (if \<exists>j<VM_NUM. i \<le> j \<and> arr ! j = - 1 then Inr (LEAST j. i \<le> j \<and> arr ! j = - 1) else Inl OutOfBounds)"
proof (induction arr i rule: insert_loop.induct)
  case (1 arr i)
  consider "i = VM_NUM" | "i < VM_NUM" "arr ! i = - 1" | "i < VM_NUM" "arr ! i \<noteq> - 1"
    using 1(2) by linarith
  then show ?case
  proof cases
    case 2
    then have "(LEAST j. i \<le> j \<and> arr ! j = - 1) = i" by (intro Least_equality) auto
    with 2 show ?thesis by (auto simp: insert_loop.simps [of arr i])
  next
    case 3
    have e: "i \<le> j \<and> arr ! j = - 1 \<longleftrightarrow> i + 1 \<le> j \<and> arr ! j = - 1" for j
      using 3(2) by (metis Suc_eq_plus1 Suc_leI le_eq_less_or_eq Suc_leD)
    have "insert_loop arr i = insert_loop arr (i + 1)" using 3 by (simp add: insert_loop.simps [of arr i])
    then show ?thesis unfolding e using 1(1) 3 by simp
  qed (auto simp: insert_loop.simps [of arr VM_NUM])
qed

text \<open>Of the unused functions on the array of process ids: \<open>check_exist\<close> reports an id as present
  not only when it is, but whenever a slot is free, so after \<open>init_pid_arr\<close> every id is; and
  \<open>insert_arr\<close> puts an id into the first free slot, and reads behind the array when there is none.\<close>

lemma pid_arr_operations:
  assumes "length (pid_arr s) = VM_NUM"
  shows "check_exist n s = (if n \<in> set (pid_arr s) \<or> - 1 \<in> set (pid_arr s) then 1 else 0) \<and>
    check_exist n (init_pid_arr s) = 1 \<and>
    (if - 1 \<in> set (pid_arr s)
     then \<exists>i<VM_NUM. pid_arr s ! i = - 1 \<and> (\<forall>j<i. pid_arr s ! j \<noteq> - 1) \<and>
       insert_arr n s = Inr (1, s\<lparr>pid_arr := (pid_arr s)[i := n]\<rparr>)
     else insert_arr n s = Inl OutOfBounds)"
proof (intro conjI)
  show "check_exist n s = (if n \<in> set (pid_arr s) \<or> - 1 \<in> set (pid_arr s) then 1 else 0)"
    using assms exist_loop_result [of 0 "pid_arr s" n] by (auto simp: check_exist_def in_set_conv_nth)
  show "check_exist n (init_pid_arr s) = 1"
    using exist_loop_result [of 0 "pid_arr (init_pid_arr s)" n]
    by (force simp: check_exist_def init_pid_arr_def VM_NUM_def)
  show "if - 1 \<in> set (pid_arr s)
     then \<exists>i<VM_NUM. pid_arr s ! i = - 1 \<and> (\<forall>j<i. pid_arr s ! j \<noteq> - 1) \<and>
       insert_arr n s = Inr (1, s\<lparr>pid_arr := (pid_arr s)[i := n]\<rparr>)
     else insert_arr n s = Inl OutOfBounds"
  proof (cases "- 1 \<in> set (pid_arr s)")
    case True
    then obtain k where k: "k < VM_NUM" "pid_arr s ! k = - 1" using assms by (auto simp: in_set_conv_nth)
    let ?i = "LEAST j. pid_arr s ! j = - 1"
    have i: "pid_arr s ! ?i = - 1" using k(2) by (rule LeastI)
    have "?i \<le> k" using k(2) by (rule Least_le)
    then have less: "?i < VM_NUM" using k(1) by simp
    have before: "\<forall>j<?i. pid_arr s ! j \<noteq> - 1" using not_less_Least by blast
    have "\<exists>j<VM_NUM. 0 \<le> j \<and> pid_arr s ! j = - 1" using k by blast
    then have "insert_loop (pid_arr s) 0 = Inr ?i"
      unfolding insert_loop_result [of 0 "pid_arr s", OF le0] by (simp only: if_True le0 simp_thms)
    then have "insert_arr n s = Inr (1, s\<lparr>pid_arr := (pid_arr s)[?i := n]\<rparr>)"
      using less by (simp only: insert_arr_def bind_result_simps less_imp_neq if_False)
    with less i before have "?i < VM_NUM \<and> pid_arr s ! ?i = - 1 \<and> (\<forall>j<?i. pid_arr s ! j \<noteq> - 1) \<and>
        insert_arr n s = Inr (1, s\<lparr>pid_arr := (pid_arr s)[?i := n]\<rparr>)" by (intro conjI)
    then show ?thesis unfolding if_P [OF True] by (rule exI)
  next
    case False
    then have "insert_loop (pid_arr s) 0 = Inl OutOfBounds"
      using insert_loop_result [of 0 "pid_arr s"] assms by (auto simp: in_set_conv_nth)
    with False show ?thesis by (simp add: insert_arr_def)
  qed
qed

lemma demo_pid_arr:
  "check_exist 5 demo_rmap = 0 \<and> check_exist 5 (init_pid_arr demo_rmap) = 1 \<and>
     insert_arr 5 demo_rmap = Inl OutOfBounds"
proof -
  have "length (pid_arr demo_rmap) = VM_NUM" by (simp add: demo_rmap_def VM_NUM_def)
  from pid_arr_operations [OF this, of 5] show ?thesis by (simp add: demo_rmap_def)
qed

end
