(* ===== verification/Reverse_Mapping_Props.thy ===== *)
theory Reverse_Mapping_Props
  imports Reverse_Mapping Rmap_Props
begin

text \<open>
  The properties of the listing of page frames: which positions a reader gets, what is written for a
  frame, and that the listing and the reverse mapping module find the same owners.
\<close>

section \<open>Positions\<close>

text \<open>The positions a reader gets from a first one on, at most \<open>n\<close> of them.\<close>

fun positions :: "nat \<Rightarrow> frames \<Rightarrow> u64 \<Rightarrow> u64 list" where
  "positions 0 F pos = []"
| "positions (Suc n) F pos =
     pos # (case handler_seq_next F pos of (None, _) \<Rightarrow> [] | (Some p, _) \<Rightarrow> positions n F p)"

lemma next_position:
  assumes "unat (totalram_pages F) < 2 ^ 31" and "k \<le> unat (totalram_pages F)"
  shows "handler_seq_next F (of_nat k) =
    (if k < unat (totalram_pages F) then Some (of_nat (Suc k)) else None, of_nat (Suc k))"
proof -
  have "unat (of_nat (Suc k) :: u64) = Suc k"
    using assms by (simp only: unsigned_of_nat) (simp add: take_bit_nat_eq_self)
  then have "(of_nat (Suc k) :: u64) \<le> totalram_pages F \<longleftrightarrow> k < unat (totalram_pages F)"
    by (simp only: word_le_nat_alt) linarith
  then show ?thesis by (simp add: handler_seq_next_def Let_def add.commute)
qed

lemma positions_upto:
  assumes "unat (totalram_pages F) < 2 ^ 31"
  shows "k \<le> unat (totalram_pages F) \<Longrightarrow> unat (totalram_pages F) - k < n \<Longrightarrow>
     positions n F (of_nat k) = map of_nat [k..<unat (totalram_pages F) + 1]"
proof (induction n arbitrary: k)
  case (Suc n)
  let ?N = "unat (totalram_pages F)"
  note nxt = next_position [OF assms Suc.prems(1)]
  show ?case
  proof (cases "k < ?N")
    case True
    have "positions n F (of_nat (Suc k)) = map of_nat [Suc k..<?N + 1]" by (rule Suc.IH) (use True Suc.prems in simp_all)
    with True show ?thesis unfolding positions.simps nxt by (simp add: upt_rec [of k] del: of_nat_Suc upt_Suc)
  next
    case False
    with Suc.prems(1) have "[k..<?N + 1] = [k]" by simp
    with False show ?thesis unfolding positions.simps nxt by simp
  qed
qed simp

lemma low_position:
  fixes p :: u64
  assumes "unat p < 2 ^ 31"
  shows "signed_take_bit 31 p = p"
proof -
  have high: "\<not> bit p i" if "31 \<le> i" for i
  proof
    assume "bit p i"
    then have "bit (unat p) i" by (simp add: bit_unsigned_iff)
    then have "odd (unat p div 2 ^ i)" unfolding bit_iff_odd .
    moreover have "unat p < 2 ^ i"
      by (rule order_less_le_trans [OF assms power_increasing]) (use that in simp_all)
    then have "unat p div 2 ^ i = 0" by (rule div_less)
    ultimately have "odd (0 :: nat)" by metis
    then show False by simp
  qed
  show ?thesis by (rule bit_eqI) (use high in \<open>auto simp: bit_signed_take_bit_iff min_def\<close>)
qed

text \<open>On a machine with fewer than 2^31 pages, reading from position 0 lists the frames 0 to
  \<open>totalram_pages\<close>, one more than there are pages; a position below 2^31 is accepted exactly up to
  there; but a position of 2^32 is accepted as well, because its conversion to \<open>int\<close> is 0.\<close>

lemma reader_positions:
  assumes "unat (totalram_pages F) < 2 ^ 31" and "unat (totalram_pages F) < n"
  shows "positions n F 0 = map of_nat [0..<unat (totalram_pages F) + 1] \<and>
    (\<forall>p. unat p < 2 ^ 31 \<longrightarrow> handler_seq_start F p = (if p \<le> totalram_pages F then Some p else None)) \<and>
    handler_seq_start F (2 ^ 32) = Some (2 ^ 32)"
proof (intro conjI allI impI)
  show "positions n F 0 = map of_nat [0..<unat (totalram_pages F) + 1]"
    using positions_upto [OF assms(1), of 0 n] assms(2) by simp
  show "handler_seq_start F p = (if p \<le> totalram_pages F then Some p else None)" if "unat p < 2 ^ 31" for p
    by (simp add: handler_seq_start_def low_position [OF that])
  have "signed_take_bit 31 (2 ^ 32 :: u64) = 0"
    by (rule bit_eqI) (auto simp: bit_signed_take_bit_iff min_def bit_simps)
  then show "handler_seq_start F (2 ^ 32) = Some (2 ^ 32)" by (simp add: handler_seq_start_def)
qed

section \<open>Owners\<close>

text \<open>The functions at the fixed addresses are the kernel's, which theory Rmap copies.\<close>

definition own_laws :: "frames \<Rightarrow> pages \<Rightarrow> bool" where
  "own_laws F K \<longleftrightarrow> next_own F = vma_prio_tree_next_user (vmas K) \<and>
     (\<forall>p. lock_own F p = (if and (page_mapping K p) (anon_bit K) \<noteq> 0 \<and> page_mapped K p
        then page_mapping K p - anon_bit K else 0))"

definition owner_of :: "pages \<Rightarrow> u64 \<Rightarrow> frame_line" where
  "owner_of K vma = Owner (info_pid (info_of K vma)) (taskname (info_of K vma))"

lemma owner_lines:
  "\<forall>v\<in>set vs. owned K v \<Longrightarrow> each_area (owner_line K) vs s = Inr (s\<lparr>written := written s @ map (owner_of K) vs\<rparr>)"
proof (induction vs arbitrary: s)
  case (Cons v vs)
  then have "owner_line K v s = Inr (seq_printf (owner_of K v) s)"
    by (simp add: owner_line_def owned_def owner_of_def info_of_def Let_def)
  with Cons show ?case by (simp add: seq_printf_def)
qed simp

text \<open>C39: For a frame whose page some areas may map, the show function writes a heading that tells
  anonymous from file pages and then one line for each of these areas with its owner, and leaves the
  locks as they were. For a frame without a page it writes nothing.\<close>

theorem show_lists_owners:
  assumes "iter_laws (vmas K)" and "own_laws F K" and "page_areas K (pfn_to_page K pfn) vs"
    and "\<forall>v\<in>set vs. owned K v"
  shows "handler_seq_show F K pfn s = Some (Inr (if pfn_valid F pfn
    then s\<lparr>written := written s @
      (if page_anon K (pfn_to_page K pfn) then Anonymous pfn else Mapped pfn) # map (owner_of K) vs\<rparr>
    else s))"
proof (cases "pfn_valid F pfn")
  case False
  then show ?thesis by (simp add: handler_seq_show_def)
next
  case valid: True
  let ?p = "pfn_to_page K pfn"
  let ?m = "page_mapping K ?p" and ?g = "push_bit (page_cache_shift K - page_shift (vmas K)) (page_index K ?p)"
  note pa = assms(3) [unfolded page_areas_def Let_def]
  show ?thesis
  proof (cases "page_anon K ?p")
    case True
    with pa have a: "?m \<noteq> 0" "and ?m (anon_bit K) \<noteq> 0" "page_mapped K ?p" "?m \<noteq> anon_bit K"
      "anon_list K (?m - anon_bit K) = vs" by simp_all
    with True valid assms(2) show ?thesis
      by (simp add: handler_seq_show_def own_laws_def Let_def seq_printf_def owner_lines [OF assms(4)])
  next
    case False
    with pa obtain t ws where t: "prio_tree (vmas K) (i_mmap K ?m) t" "areas_ok (vmas K) ws t"
      "vs = concat (map (area_group (vmas K) ws) (picks (vmas K) (i_mmap K ?m) ?g ?g t))" by auto
    from pa have "?m \<noteq> 0" by simp
    with False valid assms(2) have F: "handler_seq_show F K pfn s =
        vma_prio_tree_foreach_user (vmas K) (i_mmap K ?m) ?g ?g (owner_line K) (seq_printf (Mapped pfn) s)"
      by (simp add: handler_seq_show_def own_laws_def Let_def vma_prio_tree_foreach_user_def)
    show ?thesis
      unfolding F foreach_ok [OF t(1) assms(1) t(2)] t(3) [symmetric] owner_lines [OF assms(4)]
      using False valid by (simp add: seq_printf_def)
  qed
qed


section \<open>Witnesses\<close>

definition demo_frames :: frames where
  "demo_frames = \<lparr>totalram_pages = 3, pfn_valid = (\<lambda>n. n < 4),
     lock_own = (\<lambda>p. if and (page_mapping demo_pages p) 1 \<noteq> 0 then page_mapping demo_pages p - 1 else 0),
     next_own = vma_prio_tree_next_user demo_areas\<rparr>"

definition demo_output :: seq_output where
  "demo_output = \<lparr>written = [], held_locks = []\<rparr>"

lemma demo_own_laws: "own_laws demo_frames demo_pages"
  by (simp add: own_laws_def demo_frames_def) (simp add: demo_pages_def)

lemma demo_positions:
  "positions 4 demo_frames 0 = [0, 1, 2, 3]"
  using reader_positions [of demo_frames 4] by (simp add: demo_frames_def upt_rec)

theorem show_lists_owners_witness:
  "handler_seq_show demo_frames demo_pages 2 demo_output =
     Some (Inr (demo_output\<lparr>written := [Mapped 2, Owner 12 ''sh'', Owner 12 ''sh'', Owner 12 ''sh'']\<rparr>))"
proof -
  have "iter_laws (vmas demo_pages)" using demo_iter_laws by (simp add: demo_pages_def)
  from show_lists_owners [OF this demo_own_laws, of 2 "[16, 48, 64]" demo_output] demo_page_areas
  show ?thesis
    by (simp add: demo_owned) (simp add: demo_pages_def demo_frames_def demo_output_def owner_of_def info_of_def)
qed


end
