(* ===== verification/Rmap_Test.thy ===== *)
theory Rmap_Test
  imports Rmap User_Walk
begin

text \<open>
  The test module mem_leak/rmap/rmap_test.c: its forward translation is the same code as that of the
  other test, whose loop over the tasks (theory User_Walk) it shares, its query goes to theory Rmap.
  The clock is left out.
\<close>

abbreviation (input) TEST_PID :: int where "TEST_PID \<equiv> 1587"
abbreviation (input) TEST_ADDR :: u64 where "TEST_ADDR \<equiv> 0x7fe2d9f81000"

definition rmap_get_paddr :: "arch \<Rightarrow> table_mem \<Rightarrow> offsets \<Rightarrow> (u64 \<Rightarrow> u64) \<Rightarrow> task \<Rightarrow> u64 \<Rightarrow> u64 result" where
  "rmap_get_paddr A mem F pgds p vaddr =
     (case task_mm p of
        None \<Rightarrow> Inl NullDeref
      | Some mm \<Rightarrow>
          (case find_vma F mm vaddr of
             None \<Rightarrow> Inl NullDeref
           | Some True \<Rightarrow> Inr 0
           | Some False \<Rightarrow>
               let pgd = pgd_offset F (pgds mm) vaddr;
                   pud = pud_offset F (mem pgd) vaddr;
                   pmd = pmd_offset F (mem pud) vaddr;
                   pte = pte_offset_kernel F (mem pmd) vaddr
               in Inr (push_bit (PAGE_SHIFT A) (pte_pfn A (mem pte)))))"

definition rmap_vaddr_to_paddr ::
  "arch \<Rightarrow> table_mem \<Rightarrow> offsets \<Rightarrow> (u64 \<Rightarrow> u64) \<Rightarrow> (u64 \<Rightarrow> task) \<Rightarrow> u64 \<Rightarrow> int \<Rightarrow> u64 \<Rightarrow> u64 result option"
where
  "rmap_vaddr_to_paddr A mem F pgds T current n vaddr =
     map_option (\<lambda>found. case found of
         None \<Rightarrow> Inr 0
       | Some p \<Rightarrow> rmap_get_paddr A mem F pgds (T p) vaddr)
     (find_task T current n (next_task (T current)))"

definition rmap_test_init ::
  "arch \<Rightarrow> table_mem \<Rightarrow> offsets \<Rightarrow> (u64 \<Rightarrow> u64) \<Rightarrow> (u64 \<Rightarrow> task) \<Rightarrow> u64 \<Rightarrow> pages \<Rightarrow> rmap \<Rightarrow>
     (int \<times> rmap) result option"
where
  "rmap_test_init A mem F pgds T current K s =
     Option.bind (rmap_vaddr_to_paddr A mem F pgds T current TEST_PID TEST_ADDR) (\<lambda>r.
       case r of
         Inl e \<Rightarrow> Some (Inl e)
       | Inr paddr \<Rightarrow>
           if paddr = 0 then Some (Inr (1, s))
           else map_option (map_sum id (\<lambda>s. (0, s))) (get_process_info K paddr s))"

end
