(* ===== verification/Rmap_Test_Props.thy ===== *)
theory Rmap_Test_Props
  imports Rmap_Test Rmap_Props User_Walk_Props
begin

text \<open>
  The test of the reverse mapping, mem_leak/rmap/rmap_test.c: what loading it does, from the page
  tables of the task it looks for to the outcome of the query.
\<close>

section \<open>The forward translation\<close>

lemma rmap_get_paddr_same: "rmap_get_paddr = get_paddr"
  by (intro ext) (simp add: rmap_get_paddr_def get_paddr_def)

lemma rmap_translation: "rmap_vaddr_to_paddr = vaddr_to_paddr"
  unfolding fun_eq_iff rmap_vaddr_to_paddr_def vaddr_to_paddr_def rmap_get_paddr_same by simp

lemma translation_found:
  assumes "x86_64 A" and "offset_laws A F" and "others T current ps"
    and "find (\<lambda>q. pid (T q) = n) ps = Some p" and "task_mm (T p) = Some mm"
    and "find_vma F mm v = Some False" and "mapped A mem (pgds mm) v = Some (K4, e)"
  shows "vaddr_to_paddr A mem F pgds T current n v = Some (Inr (push_bit 12 (pte_pfn A e)))"
proof -
  have "find_task T current n (next_task (T current)) = Some (Some p)"
    using find_task_path [of T "next_task (T current)" ps current n] assms(3,4) by (simp add: others_def)
  then show ?thesis
    using get_paddr_mapped [of A F "T p" mm v mem pgds e, OF assms(1,2,5-7)] by (simp add: vaddr_to_paddr_def)
qed

section \<open>Loading the test\<close>

text \<open>C38: Loading the test when the first task of the ring with the test's process id has the test's
  address mapped by a page of four kilobytes: the query is for the page of that frame. If some area
  maps the page, the loading process reads an entry it has freed; it returns 0, having
  printed the two headings, only where the kernel's lists have no area for the page.\<close>

theorem rmap_test_outcome:
  assumes "x86_64 A" and "offset_laws A F" and "others T current ps"
    and "find (\<lambda>q. pid (T q) = TEST_PID) ps = Some p" and "task_mm (T p) = Some mm"
    and "find_vma F mm TEST_ADDR = Some False" and "mapped A mem (pgds mm) TEST_ADDR = Some (K4, e)"
    and "0 < pte_pfn A e" and "unat (pte_pfn A e) < 2 ^ 52" and "page_shift (vmas K) = 12"
    and "heap_laws (allocator K)" and "iter_laws (vmas K)" and "infos_ok s" and "task_head s = []"
    and "page_areas K (pfn_to_page K (pte_pfn A e)) vs" and "\<forall>v\<in>set vs. owned K v"
    and "memory_lasts (allocator K) (length vs) (rheap s)"
  shows "rmap_test_init A mem F pgds T current K s = Some (if vs \<noteq> [] then Inl UseAfterFree
    else Inr (0, init_pid_arr (say RelatedTasks
      (say (if page_anon K (pfn_to_page K (pte_pfn A e)) then AnonPage else FilePage) s))))"
proof -
  have frame: "drop_bit 12 (push_bit 12 (pte_pfn A e)) = pte_pfn A e" by (rule frame_back [OF assms(9)])
  with assms(8) have nz: "push_bit 12 (pte_pfn A e) \<noteq> 0" by auto
  have "page_areas K (pfn_to_page K (drop_bit (page_shift (vmas K)) (push_bit 12 (pte_pfn A e)))) vs"
    using assms(15) by (simp add: assms(10) frame)
  from process_info_result [OF assms(11-14) this assms(16,17)]
  show ?thesis
    using translation_found [of A F T current ps TEST_PID p mm TEST_ADDR mem pgds e, OF assms(1-7)] nz
    by (simp add: rmap_test_init_def rmap_translation assms(10) frame)
qed

text \<open>The task with the test's process id has the page 2 of the file above at the test's address.\<close>

definition demo_test_tables :: table_mem where
  "demo_test_tables a =
     (if a = 0x1000 + 8 * 255 then 0x2001 else if a = 0x2000 + 8 * 395 then 0x3001
      else if a = 0x3000 + 8 * 207 then 0x4001 else if a = 0x4000 + 8 * 385 then 0x2001 else 0)"

lemma demo_test_mapped: "mapped demo_arch demo_test_tables 0x1000 0x7fe2d9f81000 = Some (K4, 0x2001)"
  by (simp add: mapped_def idx_def entry_at_def demo_arch_def demo_test_tables_def Let_def)

theorem rmap_test_outcome_witness:
  "rmap_test_init demo_arch demo_test_tables demo_offsets (\<lambda>_. 0x1000) demo_tasks 1 demo_pages demo_rmap =
     Some (Inl UseAfterFree)"
proof -
  have offs: "offset_laws demo_arch demo_offsets" by (simp add: offset_laws_def demo_offsets_def)
  have pfn: "pte_pfn demo_arch 0x2001 = 2" by (simp add: demo_arch_def)
  have mem: "memory_lasts (allocator demo_pages) (length [16, 48, 64 :: u64]) (rheap demo_rmap)"
    using demo_memory by (simp add: numeral_3_eq_3)
  have iter: "iter_laws (vmas demo_pages)" using demo_iter_laws by (simp add: demo_pages_def)
  have areas: "page_areas demo_pages (pfn_to_page demo_pages (pte_pfn demo_arch 0x2001)) [16, 48, 64]"
    using demo_page_areas by (simp add: pfn) (simp add: demo_pages_def)
  have task: "find (\<lambda>q. pid (demo_tasks q) = TEST_PID) [2] = Some 2" "task_mm (demo_tasks 2) = Some 7"
    "find_vma demo_offsets 7 TEST_ADDR = Some False"
    by (simp_all add: demo_tasks_def demo_offsets_def)
  have K: "page_shift (vmas demo_pages) = 12" "task_head demo_rmap = []"
    by (simp_all add: demo_pages_def demo_areas_def demo_rmap_def)
  have own: "\<forall>v\<in>set [16, 48, 64]. owned demo_pages v" by (simp add: demo_owned)
  have num: "0 < pte_pfn demo_arch 0x2001" "unat (pte_pfn demo_arch 0x2001) < 2 ^ 52" by (simp_all add: pfn)
  have "mapped demo_arch demo_test_tables ((\<lambda>_. 0x1000) 7) TEST_ADDR = Some (K4, 0x2001)"
    using demo_test_mapped by simp
  from rmap_test_outcome [of demo_arch demo_offsets demo_tasks 1 "[2]" 2 7 demo_test_tables "\<lambda>_. 0x1000" "0x2001", OF demo_x86_64 offs demo_others task this num K(1) demo_pages_laws iter
      demo_infos_ok K(2) areas own mem]
  show ?thesis by simp
qed

end
