(* ===== verification/Spec2Isabelle.thy ===== *)
theory Spec2Isabelle
  imports Log_Props Log_Smp_Props Log_Test_Props Guard_Thread Guard_Smp_Props Memcheck_Props User_Walk_Props Reverse_Mapping_Props Rmap_Test_Props
begin

text \<open>
  Verification of the memory-debugging modules of the repository: Linux kernel modules (version
  2.6.32, x86-64) that find out who owns a page of memory and who writes outside its blocks.

  \<^bold>\<open>The parts of the program\<close>

  \<^item> The page log, src/mem_leak/kerspace/huawei_log_page.c. Probes on the page allocator record for
    every allocated block its page range, the call stack and the modules on it, in a red-black tree
    of records, and cut freed blocks out of the records again.
  \<^item> The overflow checker with two zones, src/mem_overflow/code/mem_overflow_check.c. Wrappers
    around five allocators put a guard zone before and behind every block, and a kernel thread scans
    all zones. The checker with one zone, src/mem_overflow_del_firstiso/code, keeps only the second.
    Each has a test module, test/memcheck.c, that writes behind one block of every allocator.
  \<^item> The walk over user page tables, src/mem_leak/userspace/huawei_user_space_mem.c, prints the
    virtual addresses of a physical page in all tasks; its test translates an address forth and back.
  \<^item> The reverse mapping, src/mem_leak/rmap/rmap.c, finds the processes of a physical page through
    the kernel's lists of memory areas and its own copy of the kernel's priority search tree iterator;
    its test, rmap_test.c, asks for the page at an address of a task.
  \<^item> The listing of page frames, src/mem_leak/reverse_mapping/reverse_mapping.c, writes the owners of
    every frame to /proc/rmap, through the same kernel structures.
  \<^item> The test modules of the page log, src/mem_leak/kerspace/huawei_log_page_test_1.c to 4.c: a chain of
    modules through which a block is allocated and a page given back while the log is loaded.

  The modules do not call each other, except the tests; they share the kernel's data.

  \<^bold>\<open>Theories and code\<close>

  Prelude has the machine types, the faults (a null dereference, the wrong member of a union, a
  corrupted list, memory given back, memory out of bounds, a failed \<open>BUG_ON\<close>), the result type
  and chains of pointers. A function of the model has the name of its C function; a name that would
  clash has a prefix or suffix (\<open>u_alloc_lp\<close> is \<open>__alloc_lp\<close>; the functions of the checker with one
  zone end in 1). A loop that may not end is a \<open>partial_function\<close>, \<open>None\<close> being no return.

  \<^item> Page log: Free_Pool (the locale \<open>free_pool\<close> of an intrusive free list), Lp_Pool and St_Pool (the
    pools of records and of trace descriptors, which interpret it), Call_Stack (saving a stack walk),
    Page_Index (insertion into and lookup in the tree), Log_Page (recording, freeing, printing and the
    probe handlers), Log_Module (loading and unloading), Log_Inv and Log_Probe (the invariant and what
    each operation does to the owners of pages), Log_Machine (handlers in any order as a step relation,
    refining a map from pages to owners), Log_Demo, Log_Props; Log_Test and Log_Test_Props (the test chain).
    Several processors: Log_Smp (the handlers as sequences of atomic sections that interleave, with
    interrupts), Log_Smp_Inv (the invariant), Log_Smp_Steps and Log_Smp_Sim (each section keeps it and
    follows the specification), Log_Smp_Owners, Log_Smp_Live (progress), Log_Smp_Props.
  \<^item> Overflow checkers: Kernel_Heap (allocators and memory), Guard_Zone (zones, list, search and scan,
    which both checkers share), Guard_Inv and Guard_Held (the invariant), Guard_Contract (the locale
    \<open>overflow_guard\<close> between a checker and its clients), Guard_Two, Guard_Two_Inv, Guard_Two_Ops,
    Guard_Two_Props and Guard_One, Guard_One_Ops, Guard_One_Props (the two checkers, each interpreting
    the locale), Guard_Thread (the scanning thread), Heap_Demo. Several processors, for the checker with
    two zones: Guard_Smp (the wrappers and the scan as sequences of sections that interleave, with
    interrupts), Guard_Smp_Inv (the invariant: what each processor between its sections has to itself),
    Guard_Smp_Steps (each section keeps it and none faults), Guard_Smp_Quiet (no section of a client
    without misuse makes a zone look damaged), Guard_Smp_Props. Memcheck (the test modules), Guard_Overrun
    (the locale \<open>tested_checker\<close>: what any checker reports of a client that writes behind its blocks)
    and Memcheck_Props (both checkers interpret it).
  \<^item> User page tables: User_Walk, User_Walk_Props.
  \<^item> Reverse mapping: Prio_Tree (the iterator), Prio_Tree_Inv (what a priority search tree is),
    Prio_Tree_Iter (the place of the iterator determines its mask, value and level, and each move
    keeps that), Prio_Tree_Walk and Prio_Tree_Areas (the loops), Rmap (the module), Rmap_Props,
    Rmap_Test and Rmap_Test_Props (its test, from the page tables to the outcome of the query).
  \<^item> Listing: Reverse_Mapping, Reverse_Mapping_Props.

  \<^bold>\<open>What the lemmas show\<close>

  \<^item> Page log: freeing a block forgets the owners of exactly its pages, for every position of the block
    relative to the records; the handlers, in any order, refine the map from pages to owners; records
    and descriptors are neither lost nor duplicated; the places where the code faults are characterised
    (a split or an allocation without a record left, printing an empty log), as is the record that case
    2.3 reads after giving it back; loading is all or nothing. On several processors every
    interleaving of the sections refines the same map; no two processors share a record or a
    descriptor; each handler returns after a bounded number of its own sections unless it waits for
    the lock or lacks a record; an interrupted \<open>print_page\<close> keeps the lock for ever. The test chain, run with the log, gives
    back one of the sixteen pages it allocates.
  \<^item> Checkers: a client that stays inside its blocks and releases each once is never reported and never
    makes the checker fault; a byte overwritten in a zone is reported exactly once with the name of the
    allocating caller, and the thread misses no damage that lasts until a scan; allocation and release
    are inverse, but for the handle block of the DMA allocation of the first checker; failing allocations, unknown pointers and sizes that wrap are
    described as they are; without the first zone, writes before the block go unseen. On several
    processors the checker with two zones stays silent and free of faults in every interleaving of the
    sections of such clients, a scan reports all damage that lasts through it whatever goes on
    meanwhile, every wrapper and scan returns after a bounded number of its own sections, waiting at
    most for a scan, and the wrappers as single operations are a special case of their sections; a
    block released in an interrupt of the scanning processor keeps the lock for ever.
    The test modules never fault, whichever of their allocations fail; one scan then reports each block
    they overran, once, and unloading gives every block back.
  \<^item> User page tables: the walk is the exact inverse of the translation of the tables, without
    repetitions; the search over the tasks returns and visits every task but the current one; the
    physical address that the test finds is translated back to the address it started from.
  \<^item> Reverse mapping: the iteration ends and visits exactly the areas that overlap the query; one entry
    per area is collected; a query that finds an area reads memory it has freed; the array of process
    ids has two mistakes. The listing writes the owners of a page, the same that the reverse mapping
    collects, and gets one frame too many.

  \<^bold>\<open>Parameters, hypotheses and bounds\<close>

  Code of the kernel is a parameter: the answers of its allocators as functions of the calls so far
  (\<open>heap_laws\<close>: a block lies in the address space and overlaps none that is out), the red-black tree
  library (\<open>rb_laws\<close>), the instances of the kretprobe (an instance runs on one processor at a time)
  and the blocks it is given (nobody owns them), which are conditions of the steps, the frames the stack walker reports, the registration functions, the page table
  accessors (\<open>x86_64\<close> and \<open>offset_laws\<close> state the documented constants and addresses), the macros of
  linux/prio_tree.h (\<open>iter_laws\<close>, and the links of an empty side in \<open>tree_mem\<close>), the order of a
  priority search tree (\<open>search_ok\<close>) and of the areas of a node (\<open>area_set\<close>), the functions that
  the listing calls at fixed addresses (\<open>own_laws\<close>), the allocator under the probes (\<open>probed\<close>). Machine integers keep their width: addresses and
  sizes are 64-bit words. Orders of page blocks are below 31, where the code's shift is defined. There
  is no fuel in the models: the loops of the page log, the task ring and the tree iteration return by
  theorems; \<open>positions\<close> and the counters of the specification take a bound that any larger one equals.

  \<^bold>\<open>Not modelled\<close>

  \<^item> In the page log on several processors a round of the freeing loop is one section, although it
    takes \<open>lp_pool_lock\<close> inside \<open>lp_lock\<close> and in case 2.3 reads the record after giving it back: that
    read is described by itself, \<open>freed_record_recycled\<close>. Memory is sequentially consistent between
    sections. In the checker with two zones on several processors the scan of one zone is a section, and
    so is filling both zones; the seq file, which is never created, has no sections. In the checker
    with one zone and the other components a function that holds a lock throughout is one step, and
    the tables, tasks and areas stand still during a walk.
  \<^item> The clock of the tests and the texts that memcheck.c prints; what the kernel does with a seq file; printing is a list of lines.
  \<^item> The driver 8139too.c under both test directories is third-party code.
\<close>

end
